(* ===== verification/Rust_Prelude.thy ===== *)
theory Rust_Prelude
  imports Main "HOL-Library.Word" "HOL-Library.Sublist" "HOL-Library.Multiset"
begin

text \<open>
  Shared vocabulary of the development: the machine integers of the source, results as
  sums, the \<open>Vec\<close> and slice operations that the components use, little-endian byte
  strings, and the generic list, map and word lemmas that the component theories rely on.

  \<^item> \<open>u8\<close>, \<open>u16\<close>, \<open>u32\<close>, \<open>u64\<close> and \<open>usize\<close> are words of 8, 16, 32 and 64 bits (the
    target is a 64-bit platform); their \<open>+\<close> and \<open>-\<close> wrap, as the atomic
    \<open>fetch_add\<close> and \<open>fetch_sub\<close> of the source do. Lengths and offsets that the source
    only ever compares with the length of an existing buffer are \<open>nat\<close>.
  \<^item> \<open>Result<T, E>\<close> is the sum type \<open>'e + 'a\<close>, with \<open>Inl\<close> for \<open>Err\<close>.
\<close>

unbundle bit_operations_syntax

type_synonym u8 = "8 word"
type_synonym u16 = "16 word"
type_synonym u32 = "32 word"
type_synonym u64 = "64 word"
type_synonym usize = "64 word"

type_synonym ('e, 'a) result = "'e + 'a"

section \<open>Vectors and slices\<close>

text \<open>\<open>iter().position(p)\<close>: the index of the first element that satisfies \<open>p\<close>.\<close>

fun position :: "('a \<Rightarrow> bool) \<Rightarrow> 'a list \<Rightarrow> nat option" where
  "position p [] = None"
| "position p (x # xs) = (if p x then Some 0 else map_option Suc (position p xs))"

text \<open>
  \<open>Vec::swap_remove(i)\<close>: the element at \<open>i\<close> is replaced by the last one and the vector
  shrinks by one. The source only calls it with an index that \<open>position\<close> returned.
\<close>

definition swap_remove :: "nat \<Rightarrow> 'a list \<Rightarrow> 'a list" where
  "swap_remove i xs = butlast (xs[i := last xs])"

text \<open>\<open>v[i]\<close> read, written and updated in place: \<open>None\<close> is the panic of an index out of bounds.\<close>

definition vec_get :: "'a list \<Rightarrow> nat \<Rightarrow> 'a option" where
  "vec_get xs i = (if i < length xs then Some (xs ! i) else None)"

definition vec_set :: "'a list \<Rightarrow> nat \<Rightarrow> 'a \<Rightarrow> 'a list option" where
  "vec_set xs i v = (if i < length xs then Some (xs[i := v]) else None)"

definition vec_mod :: "'a list \<Rightarrow> nat \<Rightarrow> ('a \<Rightarrow> 'a) \<Rightarrow> 'a list option" where
  "vec_mod xs i f = (if i < length xs then Some (xs[i := f (xs ! i)]) else None)"

lemma vec_simps [simp]:
  "i < length xs \<Longrightarrow> vec_get xs i = Some (xs ! i)"
  "i < length xs \<Longrightarrow> vec_set xs i v = Some (xs[i := v])"
  "i < length xs \<Longrightarrow> vec_mod xs i f = Some (xs[i := f (xs ! i)])"
  by (simp_all add: vec_get_def vec_set_def vec_mod_def)

text \<open>A field of a vector of records, as a function of the index, after one element is written.\<close>

lemma field_upd:
  "i < length xs \<Longrightarrow> (\<lambda>j. f (xs[i := v] ! j)) = (\<lambda>j. f (xs ! j))(i := f v)"
  by (auto simp: fun_eq_iff nth_list_update)

lemma position_None_iff: "position p xs = None \<longleftrightarrow> (\<forall>x \<in> set xs. \<not> p x)"
  by (induction xs) auto

lemma position_SomeD:
  "position p xs = Some i \<Longrightarrow> i < length xs \<and> p (xs ! i) \<and> (\<forall>j < i. \<not> p (xs ! j))"
proof (induction xs arbitrary: i)
  case Nil
  then show ?case by simp
next
  case (Cons x xs)
  show ?case
  proof (cases "p x")
    case True
    with Cons.prems show ?thesis by simp
  next
    case False
    with Cons.prems obtain k where k: "position p xs = Some k" "i = Suc k"
      by auto
    with Cons.IH [OF k(1)] False show ?thesis
      by (auto simp: less_Suc_eq_0_disj)
  qed
qed

lemma length_swap_remove: "length (swap_remove i xs) = length xs - 1"
  by (simp add: swap_remove_def)

lemma swap_remove_perm:
  "i < length xs \<Longrightarrow> mset (swap_remove i xs) = mset xs - {# xs ! i #}"
proof (induction xs rule: rev_induct)
  case Nil
  then show ?case by simp
next
  case (snoc x xs)
  show ?case
  proof (cases "i < length xs")
    case True
    then have "mset (swap_remove i (xs @ [x])) = mset (xs[i := x])"
      by (simp add: swap_remove_def list_update_append)
    also have "\<dots> = add_mset x (mset xs - {# xs ! i #})"
      using True by (simp add: mset_update)
    also have "\<dots> = mset (xs @ [x]) - {# (xs @ [x]) ! i #}"
      using True by (simp add: nth_append)
    finally show ?thesis .
  next
    case False
    with snoc.prems have "i = length xs" by simp
    then show ?thesis
      by (simp add: swap_remove_def list_update_append nth_append)
  qed
qed

section \<open>Runs\<close>

text \<open>Running a step function with outputs over a sequence of calls.\<close>

fun run :: "('s \<Rightarrow> 'c \<Rightarrow> 's \<times> 'o) \<Rightarrow> 's \<Rightarrow> 'c list \<Rightarrow> 's \<times> 'o list" where
  "run f s [] = (s, [])"
| "run f s (c # cs) = (case f s c of (s', x) \<Rightarrow> case run f s' cs of (t, xs) \<Rightarrow> (t, x # xs))"

lemma run_append:
  "run f s (cs @ ds) = (case run f s cs of (t, xs) \<Rightarrow> case run f t ds of (u, ys) \<Rightarrow> (u, xs @ ys))"
  by (induction cs arbitrary: s) (auto split: prod.splits)

lemma run_invariant:
  "I s \<Longrightarrow> (\<And>s c. I s \<Longrightarrow> I (fst (f s c))) \<Longrightarrow> I (fst (run f s cs))"
proof (induction cs arbitrary: s)
  case Nil
  then show ?case by simp
next
  case (Cons c cs)
  then have "I (fst (run f (fst (f s c)) cs))" by blast
  then show ?case by (auto split: prod.splits)
qed

text \<open>
  Simulation of runs: a relation \<open>R\<close> that steps preserve, where the outputs of the specification
  \<open>g\<close> are those of the implementation \<open>f\<close> through \<open>h\<close>.
\<close>

lemma run_simulation:
  assumes "R s t" "list_all P cs"
    and "\<And>s t c. R s t \<Longrightarrow> P c \<Longrightarrow> R (fst (f s c)) (fst (g t c)) \<and> snd (g t c) = h (snd (f s c))"
  shows "R (fst (run f s cs)) (fst (run g t cs)) \<and> snd (run g t cs) = map h (snd (run f s cs))"
  using assms(1,2)
proof (induction cs arbitrary: s t)
  case (Cons c cs)
  have "R (fst (f s c)) (fst (g t c))" "snd (g t c) = h (snd (f s c))"
    using assms(3)[of s t c] Cons.prems by auto
  with Cons.IH[of "fst (f s c)" "fst (g t c)"] Cons.prems(2) show ?case
    by (auto simp: split_beta)
qed simp

section \<open>Little-endian byte strings\<close>

fun le_value :: "u8 list \<Rightarrow> nat" where
  "le_value [] = 0"
| "le_value (b # bs) = unat b + 256 * le_value bs"

text \<open>\<open>to_le_bytes\<close> of an integer of \<open>n\<close> bytes.\<close>

fun le_bytes :: "nat \<Rightarrow> nat \<Rightarrow> u8 list" where
  "le_bytes 0 v = []"
| "le_bytes (Suc n) v = of_nat (v mod 256) # le_bytes n (v div 256)"

lemma length_le_bytes [simp]: "length (le_bytes n v) = n"
  by (induction n arbitrary: v) auto

lemma le_value_le_bytes [simp]: "le_value (le_bytes n v) = v mod 256 ^ n"
proof (induction n arbitrary: v)
  case 0
  then show ?case by simp
next
  case (Suc n)
  have "unat (of_nat (v mod 256) :: u8) = v mod 256"
    by (simp add: unat_of_nat take_bit_eq_mod)
  with Suc show ?case
    by (simp add: mod_mult2_eq [of v 256 "256 ^ n"])
qed

lemma le_value_less: "le_value bs < 256 ^ length bs"
proof (induction bs)
  case Nil
  then show ?case by simp
next
  case (Cons b bs)
  have "unat b < 256" using unsigned_less [of b] by simp
  with Cons show ?case by (simp add: algebra_simps)
qed

section \<open>Words\<close>

lemma word_xor_eq_0_iff [simp]: "x XOR y = 0 \<longleftrightarrow> x = y" for x y :: "'a::len word"
  by (auto simp: bit_eq_iff bit_xor_iff)

section \<open>Words of 64 bits and the naturals they stand for\<close>

lemma unat_word64_less: "unat (w :: u64) < 2 ^ 64"
proof -
  have "unat w < 2 ^ LENGTH(64)" by (rule unsigned_less)
  then show ?thesis by simp
qed

lemma unat_of_nat64: "n < 2 ^ 64 \<Longrightarrow> unat (of_nat n :: u64) = n"
  by (simp add: unsigned_of_nat take_bit_nat_eq_self)

lemma of_nat_unat64: "of_nat (unat w) = (w :: u64)"
  by simp

lemma unat_add64: "unat (x :: u64) + unat y < 2 ^ 64 \<Longrightarrow> unat (x + y) = unat x + unat y"
  using unat_add_lem[of x y] by simp

end
