(* ===== verification/Digests.thy ===== *)
theory Digests
  imports Rust_Prelude
begin

text \<open>
  \<open>crates/rv-types/src/digest.rs\<close>: the SHA-256 digest that is the key of every cache
  structure. The array \<open>[u8; 32]\<close> is a byte list; that it has 32 elements, which the Rust
  type guarantees, is the predicate \<open>digest_wf\<close>.
\<close>

definition DIGEST_LEN :: nat where
  "DIGEST_LEN = 32"

datatype digest = Digest (bytes: "u8 list")

definition digest_ZERO :: digest where
  "digest_ZERO = Digest (replicate DIGEST_LEN 0)"

definition digest_from_slice :: "u8 list \<Rightarrow> digest option" where
  "digest_from_slice data = (if length data \<noteq> DIGEST_LEN then None else Some (Digest data))"

definition digest_wf :: "digest \<Rightarrow> bool" where
  "digest_wf d \<longleftrightarrow> length (bytes d) = DIGEST_LEN"

lemma digest_wf_ZERO [simp]: "digest_wf digest_ZERO"
  by (simp add: digest_wf_def digest_ZERO_def)

lemma digest_from_slice_wf: "digest_from_slice data = Some d \<Longrightarrow> digest_wf d \<and> bytes d = data"
  by (auto simp: digest_from_slice_def digest_wf_def split: if_splits)

text \<open>The digest whose first byte is \<open>v\<close>, as the tests of the repository build them.\<close>

definition make_digest :: "u8 \<Rightarrow> digest" where
  "make_digest v = Digest (v # replicate 31 0)"

lemma digest_wf_make [simp]: "digest_wf (make_digest v)"
  by (simp add: digest_wf_def make_digest_def DIGEST_LEN_def)

lemma make_digest_eq_iff [simp]: "make_digest v = make_digest w \<longleftrightarrow> v = w"
  by (simp add: make_digest_def)

lemma bytes_make_digest: "bytes (make_digest v) = v # replicate 31 0"
  by (simp add: make_digest_def)

end
