(* ===== verification/Hash_Slinger.thy ===== *)
theory Hash_Slinger
  imports Digests
begin

text \<open>
  \<open>crates/rv-hash/src/objhead.rs\<close> and \<open>traits.rs\<close>: the object heads, and the contract
  of the pluggable hash backends.

  An \<open>Arc<ObjHead>\<close> is shared between the table and its clients and compared with
  \<open>Arc::ptr_eq\<close>, so the heads live in an explicit store: \<open>oh_ref\<close> is the address behind
  the \<open>Arc\<close> and \<open>oh_heap\<close> maps an address to the head. The bucket mutex \<open>mtx\<close> protects
  no data and is left out.
\<close>

section \<open>Object heads\<close>

record objhead =
  oh_digest :: digest
  oh_refcnt :: u32
  oh_obj_count :: u32

type_synonym oh_ref = nat
type_synonym oh_heap = "oh_ref \<rightharpoonup> objhead"

definition objhead_new :: "digest \<Rightarrow> objhead" where
  "objhead_new d = \<lparr>oh_digest = d, oh_refcnt = 0, oh_obj_count = 0\<rparr>"

definition ref_count :: "objhead \<Rightarrow> u32" where
  "ref_count oh = oh_refcnt oh"

definition inc_ref :: "objhead \<Rightarrow> u32 \<times> objhead" where
  "inc_ref oh = (let prev = oh_refcnt oh in (prev + 1, oh\<lparr>oh_refcnt := prev + 1\<rparr>))"

definition dec_ref :: "objhead \<Rightarrow> u32 \<times> objhead" where
  "dec_ref oh = (let prev = oh_refcnt oh in (prev - 1, oh\<lparr>oh_refcnt := prev - 1\<rparr>))"

text \<open>The two operations through a shared pointer.\<close>

definition heap_inc :: "oh_heap \<Rightarrow> oh_ref \<Rightarrow> oh_heap" where
  "heap_inc h r = (case h r of None \<Rightarrow> h | Some oh \<Rightarrow> h(r \<mapsto> snd (inc_ref oh)))"

definition heap_dec :: "oh_heap \<Rightarrow> oh_ref \<Rightarrow> u32 \<times> oh_heap" where
  "heap_dec h r = (case h r of
      None \<Rightarrow> (0, h)
    | Some oh \<Rightarrow> (fst (dec_ref oh), h(r \<mapsto> snd (dec_ref oh))))"

text \<open>The digest of the head behind a pointer.\<close>

definition head_digest :: "oh_heap \<Rightarrow> oh_ref \<Rightarrow> digest" where
  "head_digest h r = oh_digest (the (h r))"

lemma dom_heap_inc [simp]: "dom (heap_inc h r) = dom h"
  by (auto simp: heap_inc_def split: option.splits)

lemma dom_heap_dec [simp]: "dom (snd (heap_dec h r)) = dom h"
  by (auto simp: heap_dec_def split: option.splits)

lemma head_digest_inc [simp]: "head_digest (heap_inc h r) = head_digest h"
  by (auto simp: fun_eq_iff head_digest_def heap_inc_def inc_ref_def Let_def split: option.splits)

lemma head_digest_dec [simp]: "head_digest (snd (heap_dec h r)) = head_digest h"
  by (auto simp: fun_eq_iff head_digest_def heap_dec_def dec_ref_def Let_def split: option.splits)

section \<open>The contract of a hash backend\<close>

text \<open>
  What the trait \<open>HashSlinger\<close> promises, as a machine over a partial map from digests to
  heads. \<open>lookup\<close> hands back the head that is stored for the digest and returns the
  caller's own unused; without one it stores the caller's head. \<open>deref\<close> drops one
  reference, and removes the head from the table when that was the last one.
\<close>

datatype hash_op = HLookup digest oh_ref | HDeref oh_ref

datatype hash_out = HFound oh_ref "oh_ref option" | HRemoved bool

type_synonym amap = "digest \<rightharpoonup> oh_ref"

fun spec_step :: "amap \<times> oh_heap \<Rightarrow> hash_op \<Rightarrow> (amap \<times> oh_heap) \<times> hash_out" where
  "spec_step (m, h) (HLookup d n) =
     (case m d of
        Some r \<Rightarrow> ((m, heap_inc h r), HFound r (Some n))
      | None \<Rightarrow> ((m(d \<mapsto> n), heap_inc h n), HFound n None))"
| "spec_step (m, h) (HDeref r) =
     (let (c, h') = heap_dec h r in
      if c = 0 then ((m(head_digest h r := None), h'), HRemoved True)
      else ((m, h'), HRemoved False))"

text \<open>
  How a client may use a table: a lookup passes a fresh head of the digest it looks up, and
  only a head on which a reference is held is dereferenced. The reference counter has 32
  bits; a client never holds \<open>2 ^ 32 - 1\<close> references.
\<close>

fun valid_op :: "amap \<times> oh_heap \<Rightarrow> hash_op \<Rightarrow> bool" where
  "valid_op (m, h) (HLookup d n) \<longleftrightarrow>
     (case h n of None \<Rightarrow> False | Some oh \<Rightarrow> oh_digest oh = d \<and> oh_refcnt oh = 0) \<and>
     (case m d of None \<Rightarrow> True
      | Some r \<Rightarrow> (case h r of None \<Rightarrow> False | Some oh \<Rightarrow> oh_refcnt oh + 1 \<noteq> 0))"
| "valid_op (m, h) (HDeref r) \<longleftrightarrow>
     (case h r of None \<Rightarrow> False | Some oh \<Rightarrow> oh_refcnt oh \<noteq> 0)"

text \<open>
  The invariant of the specification: the map and the reference counts agree. A head is in
  the table exactly when references on it are held.
\<close>

definition spec_inv :: "amap \<times> oh_heap \<Rightarrow> bool" where
  "spec_inv s \<longleftrightarrow> (case s of (m, h) \<Rightarrow>
     (\<forall>d r. m d = Some r \<longrightarrow>
        (\<exists>oh. h r = Some oh \<and> oh_digest oh = d \<and> oh_refcnt oh \<noteq> 0)) \<and>
     (\<forall>r oh. h r = Some oh \<longrightarrow> oh_refcnt oh \<noteq> 0 \<longrightarrow> m (oh_digest oh) = Some r) \<and>
     (\<forall>r oh. h r = Some oh \<longrightarrow> digest_wf (oh_digest oh)))"

lemma spec_inv_SomeD:
  "spec_inv (m, h) \<Longrightarrow> m d = Some r \<Longrightarrow> \<exists>oh. h r = Some oh \<and> oh_digest oh = d \<and> oh_refcnt oh \<noteq> 0"
  by (simp add: spec_inv_def)

lemma spec_inv_live:
  "spec_inv (m, h) \<Longrightarrow> h r = Some oh \<Longrightarrow> oh_refcnt oh \<noteq> 0 \<Longrightarrow> m (oh_digest oh) = Some r"
  by (simp add: spec_inv_def)

lemma spec_inv_wf: "spec_inv (m, h) \<Longrightarrow> h r = Some oh \<Longrightarrow> digest_wf (oh_digest oh)"
  by (simp add: spec_inv_def)

lemma spec_invI:
  assumes "\<And>d r. m d = Some r \<Longrightarrow> \<exists>oh. h r = Some oh \<and> oh_digest oh = d \<and> oh_refcnt oh \<noteq> 0"
    and "\<And>r oh. h r = Some oh \<Longrightarrow> oh_refcnt oh \<noteq> 0 \<Longrightarrow> m (oh_digest oh) = Some r"
    and "\<And>r oh. h r = Some oh \<Longrightarrow> digest_wf (oh_digest oh)"
  shows "spec_inv (m, h)"
  using assms by (simp add: spec_inv_def)

lemma heap_inc_eq: "h r = Some oh \<Longrightarrow> heap_inc h r = h(r \<mapsto> oh\<lparr>oh_refcnt := oh_refcnt oh + 1\<rparr>)"
  by (simp add: heap_inc_def inc_ref_def Let_def)

lemma heap_dec_eq:
  "h r = Some oh \<Longrightarrow> heap_dec h r = (oh_refcnt oh - 1, h(r \<mapsto> oh\<lparr>oh_refcnt := oh_refcnt oh - 1\<rparr>))"
  by (simp add: heap_dec_def dec_ref_def Let_def)

lemma spec_inv_inc:
  assumes inv: "spec_inv (m, h)" and oh: "h r = Some oh" "oh_refcnt oh \<noteq> 0" "oh_refcnt oh + 1 \<noteq> 0"
  shows "spec_inv (m, heap_inc h r)"
  unfolding heap_inc_eq [of h r oh, OF oh(1)]
proof (rule spec_invI)
  fix d r' assume "m d = Some r'"
  with spec_inv_SomeD [OF inv this] oh
  show "\<exists>oh'. (h(r \<mapsto> oh\<lparr>oh_refcnt := oh_refcnt oh + 1\<rparr>)) r' = Some oh' \<and>
      oh_digest oh' = d \<and> oh_refcnt oh' \<noteq> 0"
    by auto
qed (use spec_inv_live [OF inv] spec_inv_wf [OF inv] oh in \<open>auto split: if_splits\<close>)

lemma spec_inv_insert:
  assumes inv: "spec_inv (m, h)" and oh: "h n = Some oh" "oh_refcnt oh = 0" "m (oh_digest oh) = None"
  shows "spec_inv (m(oh_digest oh \<mapsto> n), heap_inc h n)"
  unfolding heap_inc_eq [of h n oh, OF oh(1)]
proof (rule spec_invI)
  fix d r' assume m': "(m(oh_digest oh \<mapsto> n)) d = Some r'"
  show "\<exists>oh'. (h(n \<mapsto> oh\<lparr>oh_refcnt := oh_refcnt oh + 1\<rparr>)) r' = Some oh' \<and>
      oh_digest oh' = d \<and> oh_refcnt oh' \<noteq> 0"
  proof (cases "d = oh_digest oh")
    case True
    with m' oh show ?thesis by simp
  next
    case False
    with m' spec_inv_SomeD [OF inv, of d r'] oh show ?thesis by auto
  qed
next
  fix r' oh' assume "(h(n \<mapsto> oh\<lparr>oh_refcnt := oh_refcnt oh + 1\<rparr>)) r' = Some oh'" "oh_refcnt oh' \<noteq> 0"
  then show "(m(oh_digest oh \<mapsto> n)) (oh_digest oh') = Some r'"
    using spec_inv_live [OF inv, of r' oh'] oh by (cases "r' = n") auto
qed (use spec_inv_wf [OF inv] oh in \<open>auto split: if_splits\<close>)

lemma spec_inv_deref:
  assumes inv: "spec_inv (m, h)" and oh: "h r = Some oh" "oh_refcnt oh \<noteq> 0"
  shows "spec_inv (if oh_refcnt oh - 1 = 0 then m(oh_digest oh := None) else m, snd (heap_dec h r))"
  (is "spec_inv (?m, _)")
  unfolding heap_dec_eq [of h r oh, OF oh(1)] snd_conv
proof (rule spec_invI)
  have r: "m (oh_digest oh) = Some r" using spec_inv_live [of m h r oh, OF inv oh] .
  fix d r' assume m': "?m d = Some r'"
  then have "m d = Some r'" by (auto split: if_splits)
  with spec_inv_SomeD [OF inv this] m' oh
  show "\<exists>oh'. (h(r \<mapsto> oh\<lparr>oh_refcnt := oh_refcnt oh - 1\<rparr>)) r' = Some oh' \<and>
      oh_digest oh' = d \<and> oh_refcnt oh' \<noteq> 0"
    by (auto split: if_splits)
next
  fix r' oh' assume h': "(h(r \<mapsto> oh\<lparr>oh_refcnt := oh_refcnt oh - 1\<rparr>)) r' = Some oh'" "oh_refcnt oh' \<noteq> 0"
  show "?m (oh_digest oh') = Some r'"
  proof (cases "r' = r")
    case True
    with h' spec_inv_live [of m h r oh, OF inv oh] show ?thesis by auto
  next
    case False
    with h' have live: "m (oh_digest oh') = Some r'" using spec_inv_live [OF inv, of r' oh'] by simp
    moreover have "oh_digest oh' \<noteq> oh_digest oh"
      using live spec_inv_live [of m h r oh, OF inv oh] False by auto
    ultimately show ?thesis by simp
  qed
qed (use spec_inv_wf [OF inv] oh in \<open>auto split: if_splits\<close>)

lemma spec_inv_step:
  assumes "spec_inv s" and "valid_op s x"
  shows "spec_inv (fst (spec_step s x))"
proof (cases s)
  case (Pair m h)
  show ?thesis
  proof (cases x)
    case (HLookup d n)
    show ?thesis
    proof (cases "m d")
      case None
      with assms spec_inv_insert [of m h n] show ?thesis
        by (auto simp: Pair HLookup split: option.splits)
    next
      case (Some r)
      with assms spec_inv_SomeD [of m h d r] spec_inv_inc [of m h r] show ?thesis
        by (auto simp: Pair HLookup split: option.splits)
    qed
  next
    case (HDeref r)
    with assms spec_inv_deref [of m h r] show ?thesis
      by (auto simp: Pair HDeref heap_dec_def dec_ref_def head_digest_def Let_def
          split: option.splits if_splits)
  qed
qed

fun valid_run :: "amap \<times> oh_heap \<Rightarrow> hash_op list \<Rightarrow> bool" where
  "valid_run s [] \<longleftrightarrow> True"
| "valid_run s (x # xs) \<longleftrightarrow> valid_op s x \<and> valid_run (fst (spec_step s x)) xs"

lemma spec_inv_run: "spec_inv s \<Longrightarrow> valid_run s xs \<Longrightarrow> spec_inv (fst (run spec_step s xs))"
proof (induction xs arbitrary: s)
  case Nil
  then show ?case by simp
next
  case (Cons x xs)
  then have "spec_inv (fst (run spec_step (fst (spec_step s x)) xs))"
    by (simp add: spec_inv_step)
  then show ?case by (auto split: prod.splits)
qed

text \<open>The step of a concrete backend, from its two operations.\<close>

fun impl_step ::
  "('t \<Rightarrow> oh_heap \<Rightarrow> digest \<Rightarrow> oh_ref \<Rightarrow> 't \<times> oh_heap \<times> oh_ref \<times> oh_ref option) \<Rightarrow>
   ('t \<Rightarrow> oh_heap \<Rightarrow> oh_ref \<Rightarrow> 't \<times> oh_heap \<times> bool) \<Rightarrow>
   't \<times> oh_heap \<Rightarrow> hash_op \<Rightarrow> ('t \<times> oh_heap) \<times> hash_out" where
  "impl_step lookup deref (t, h) (HLookup d n) =
     (case lookup t h d n of (t', h', r, u) \<Rightarrow> ((t', h'), HFound r u))"
| "impl_step lookup deref (t, h) (HDeref r) =
     (case deref t h r of (t', h', b) \<Rightarrow> ((t', h'), HRemoved b))"

text \<open>
  The interface: a backend is a table with an invariant and an abstraction to the map of
  the specification, and its two operations simulate the two steps of the specification.
\<close>

locale hash_slinger =
  fixes lookup :: "'t \<Rightarrow> oh_heap \<Rightarrow> digest \<Rightarrow> oh_ref \<Rightarrow> 't \<times> oh_heap \<times> oh_ref \<times> oh_ref option"
    and deref :: "'t \<Rightarrow> oh_heap \<Rightarrow> oh_ref \<Rightarrow> 't \<times> oh_heap \<times> bool"
    and contents :: "oh_heap \<Rightarrow> 't \<Rightarrow> amap"
    and empty :: 't
    and inv :: "oh_heap \<Rightarrow> 't \<Rightarrow> bool"
  assumes inv_empty: "inv h empty"
    and contents_empty: "contents h empty = Map.empty"
    and lookup_sim: "\<lbrakk> inv h t; spec_inv (contents h t, h); valid_op (contents h t, h) (HLookup d n);
          lookup t h d n = (t', h', r, u) \<rbrakk>
        \<Longrightarrow> inv h' t' \<and> spec_step (contents h t, h) (HLookup d n) = ((contents h' t', h'), HFound r u)"
    and deref_sim: "\<lbrakk> inv h t; spec_inv (contents h t, h); valid_op (contents h t, h) (HDeref r);
          deref t h r = (t', h', b) \<rbrakk>
        \<Longrightarrow> inv h' t' \<and> spec_step (contents h t, h) (HDeref r) = ((contents h' t', h'), HRemoved b)"
begin

abbreviation step :: "'t \<times> oh_heap \<Rightarrow> hash_op \<Rightarrow> ('t \<times> oh_heap) \<times> hash_out" where
  "step \<equiv> impl_step lookup deref"

lemma step_sim:
  assumes "inv h t" "spec_inv (contents h t, h)" "valid_op (contents h t, h) x"
    and "step (t, h) x = ((t', h'), out)"
  shows "inv h' t' \<and> spec_step (contents h t, h) x = ((contents h' t', h'), out)"
  using assms
  by (cases x) (auto split: prod.splits dest: lookup_sim deref_sim simp del: spec_step.simps)

lemma run_sim:
  assumes "inv h t" "spec_inv (contents h t, h)" "valid_run (contents h t, h) xs"
    and "run step (t, h) xs = ((t', h'), outs)"
  shows "inv h' t' \<and> run spec_step (contents h t, h) xs = ((contents h' t', h'), outs)"
  using assms
proof (induction xs arbitrary: t h outs)
  case Nil
  then show ?case by simp
next
  case (Cons x xs)
  obtain t1 h1 o1 where s1: "step (t, h) x = ((t1, h1), o1)"
    by (metis surj_pair)
  with Cons.prems step_sim have sim: "inv h1 t1"
    "spec_step (contents h t, h) x = ((contents h1 t1, h1), o1)"
    by (auto simp del: spec_step.simps impl_step.simps)
  obtain outs' where s2: "run step (t1, h1) xs = ((t', h'), outs')" and outs: "outs = o1 # outs'"
    using Cons.prems(4) s1 by (auto split: prod.splits)
  have "spec_inv (contents h1 t1, h1)" "valid_run (contents h1 t1, h1) xs"
    using Cons.prems sim spec_inv_step [of "(contents h t, h)" x] by auto
  with Cons.IH sim(1) s2 show ?case by (simp add: sim(2) outs)
qed

text \<open>Started empty, a backend answers every sequence of calls as the specification does.\<close>

lemma run_correct:
  assumes "spec_inv (Map.empty, h)" "valid_run (Map.empty, h) xs"
  shows "snd (run step (empty, h) xs) = snd (run spec_step (Map.empty, h) xs)"
  using run_sim [OF inv_empty, of h xs] assms
  by (cases "run step (empty, h) xs") (auto simp: contents_empty)

end

end
