(* ===== verification/Hash_Lists.thy ===== *)
theory Hash_Lists
  imports Hash_Slinger
begin

text \<open>
  \<open>crates/rv-hash/src/simple.rs\<close> and \<open>classic.rs\<close>: the two list-based backends. A table
  holds \<open>Arc\<close> pointers; digests are read through them, so the operations take the store of
  heads. The lock sections of the source are separate definitions (\<open>simple_lookup_read\<close>,
  \<open>simple_lookup_write\<close>, \<open>unlink_ptr\<close>): each is atomic, and a call is their sequence.
\<close>

section \<open>Chains of heads\<close>

text \<open>The scan \<open>for entry in entries.iter() { if entry.digest == *digest ... }\<close>.\<close>

definition scan :: "oh_heap \<Rightarrow> oh_ref list \<Rightarrow> digest \<Rightarrow> oh_ref option" where
  "scan h es d = find (\<lambda>r. head_digest h r = d) es"

text \<open>\<open>iter().position(|e| Arc::ptr_eq(e, oh))\<close> followed by \<open>swap_remove\<close>.\<close>

definition unlink_ptr :: "oh_ref list \<Rightarrow> oh_ref \<Rightarrow> oh_ref list" where
  "unlink_ptr es r = (case position (\<lambda>e. e = r) es of None \<Rightarrow> es | Some pos \<Rightarrow> swap_remove pos es)"

definition chain_inv :: "oh_heap \<Rightarrow> oh_ref list \<Rightarrow> bool" where
  "chain_inv h es \<longleftrightarrow> distinct (map (head_digest h) es)"

lemma mset_unlink_ptr: "mset (unlink_ptr es r) = mset (remove1 r es)"
proof (cases "position (\<lambda>e. e = r) es")
  case None
  then have "r \<notin> set es" by (auto simp: position_None_iff)
  with None show ?thesis by (simp add: unlink_ptr_def remove1_idem)
next
  case (Some i)
  with position_SomeD [OF Some] show ?thesis
    by (simp add: unlink_ptr_def swap_remove_perm)
qed

lemma set_unlink_ptr: "distinct es \<Longrightarrow> set (unlink_ptr es r) = set es - {r}"
  using mset_eq_setD [OF mset_unlink_ptr [of es r]] by simp

lemma chain_inv_distinct: "chain_inv h es \<Longrightarrow> distinct es"
  by (simp add: chain_inv_def distinct_map)

lemma chain_inv_unlink: "chain_inv h es \<Longrightarrow> chain_inv h (unlink_ptr es r)"
proof -
  assume inv: "chain_inv h es"
  have "mset (map (head_digest h) (unlink_ptr es r)) = mset (map (head_digest h) (remove1 r es))"
    by (simp only: mset_map mset_unlink_ptr)
  moreover have "distinct (map (head_digest h) (remove1 r es))"
    using inv by (auto simp: chain_inv_def distinct_map inj_on_def dest: notin_set_remove1)
  ultimately show ?thesis
    unfolding chain_inv_def by (metis mset_eq_imp_distinct_iff)
qed

lemma scan_Some_iff: "chain_inv h es \<Longrightarrow> scan h es d = Some r \<longleftrightarrow> r \<in> set es \<and> head_digest h r = d"
  by (induction es) (auto simp: scan_def chain_inv_def)

lemma scan_None_iff: "scan h es d = None \<longleftrightarrow> (\<forall>r \<in> set es. head_digest h r \<noteq> d)"
  by (auto simp: scan_def find_None_iff)

lemma scan_snoc: "scan h (es @ [n]) d =
    (case scan h es d of Some r \<Rightarrow> Some r | None \<Rightarrow> if head_digest h n = d then Some n else None)"
  by (induction es) (auto simp: scan_def)

lemma scan_unlink:
  assumes inv: "chain_inv h es"
  shows "scan h (unlink_ptr es r) d = (if scan h es d = Some r then None else scan h es d)"
proof (cases "scan h es d")
  case None
  then have "scan h (unlink_ptr es r) d = None"
    by (simp add: scan_None_iff set_unlink_ptr chain_inv_distinct [OF inv])
  with None show ?thesis by simp
next
  case (Some r0)
  show ?thesis
  proof (cases "r0 = r")
    case True
    have "head_digest h r' \<noteq> d" if "r' \<in> set es" "r' \<noteq> r" for r'
      using that Some True scan_Some_iff [OF inv, of d r'] by auto
    then have "scan h (unlink_ptr es r) d = None"
      by (simp add: scan_None_iff set_unlink_ptr chain_inv_distinct [OF inv])
    with Some True show ?thesis by simp
  next
    case False
    with Some have "scan h (unlink_ptr es r) d = Some r0"
      by (simp add: scan_Some_iff chain_inv_unlink inv set_unlink_ptr chain_inv_distinct [OF inv])
    with Some False show ?thesis by simp
  qed
qed

lemma scan_inc [simp]: "scan (heap_inc h r) = scan h"
  by (simp add: fun_eq_iff scan_def)

lemma scan_dec [simp]: "scan (snd (heap_dec h r)) = scan h"
  by (simp add: fun_eq_iff scan_def)

lemma scan_snoc_upd:
  "scan h es (head_digest h n) = None \<Longrightarrow> scan h (es @ [n]) = (scan h es)(head_digest h n \<mapsto> n)"
  by (auto simp: fun_eq_iff scan_snoc split: option.splits)

lemma scan_unlink_upd:
  assumes inv: "chain_inv h es" and here: "scan h es (head_digest h r) = Some r"
  shows "scan h (unlink_ptr es r) = (scan h es)(head_digest h r := None)"
proof (rule ext)
  fix d
  have "scan h es d = Some r \<longleftrightarrow> d = head_digest h r"
    using inv here by (auto simp: scan_Some_iff)
  then show "scan h (unlink_ptr es r) d = ((scan h es)(head_digest h r := None)) d"
    by (simp add: scan_unlink [OF inv])
qed

lemma chain_inv_inc [simp]: "chain_inv (heap_inc h r) es = chain_inv h es"
  by (simp add: chain_inv_def)

lemma chain_inv_dec [simp]: "chain_inv (snd (heap_dec h r)) es = chain_inv h es"
  by (simp add: chain_inv_def)

lemma chain_inv_snoc:
  "chain_inv h es \<Longrightarrow> scan h es (head_digest h n) = None \<Longrightarrow> chain_inv h (es @ [n])"
  by (auto simp: chain_inv_def scan_None_iff)

section \<open>SimpleListHash\<close>

type_synonym simple_hash = "oh_ref list"

text \<open>\<open>SimpleListHash::new\<close>.\<close>

definition simple_new :: simple_hash where
  "simple_new = []"

text \<open>The fast path, under the read lock.\<close>

definition simple_lookup_read ::
  "simple_hash \<Rightarrow> oh_heap \<Rightarrow> digest \<Rightarrow> oh_ref \<Rightarrow> (oh_heap \<times> oh_ref \<times> oh_ref option) option" where
  "simple_lookup_read es h d n = (case scan h es d of
      Some r \<Rightarrow> Some (heap_inc h r, r, Some n)
    | None \<Rightarrow> None)"

text \<open>The slow path, under the write lock: check again, then push the caller's head.\<close>

definition simple_lookup_write ::
  "simple_hash \<Rightarrow> oh_heap \<Rightarrow> digest \<Rightarrow> oh_ref \<Rightarrow> simple_hash \<times> oh_heap \<times> oh_ref \<times> oh_ref option" where
  "simple_lookup_write es h d n = (case scan h es d of
      Some r \<Rightarrow> (es, heap_inc h r, r, Some n)
    | None \<Rightarrow> (es @ [n], heap_inc h n, n, None))"

definition simple_lookup ::
  "simple_hash \<Rightarrow> oh_heap \<Rightarrow> digest \<Rightarrow> oh_ref \<Rightarrow> simple_hash \<times> oh_heap \<times> oh_ref \<times> oh_ref option" where
  "simple_lookup es h d n = (case simple_lookup_read es h d n of
      Some (h', r, u) \<Rightarrow> (es, h', r, u)
    | None \<Rightarrow> simple_lookup_write es h d n)"

definition simple_deref :: "simple_hash \<Rightarrow> oh_heap \<Rightarrow> oh_ref \<Rightarrow> simple_hash \<times> oh_heap \<times> bool" where
  "simple_deref es h r = (let (new_count, h') = heap_dec h r in
     if new_count = 0 then (unlink_ptr es r, h', True) else (es, h', False))"

interpretation simple: hash_slinger simple_lookup simple_deref scan simple_new chain_inv
proof unfold_locales
  show "chain_inv h simple_new" for h
    by (simp add: chain_inv_def simple_new_def)
  show "scan h simple_new = Map.empty" for h
    by (simp add: fun_eq_iff scan_def simple_new_def)
next
  fix h es d n es' h' r u
  assume inv: "chain_inv h es" and v: "valid_op (scan h es, h) (HLookup d n)"
    and call: "simple_lookup es h d n = (es', h', r, u)"
  have dn: "head_digest h n = d"
    using v by (auto simp: head_digest_def split: option.splits)
  show "chain_inv h' es' \<and> spec_step (scan h es, h) (HLookup d n) = ((scan h' es', h'), HFound r u)"
  proof (cases "scan h es d")
    case None
    then have "es' = es @ [n]" "h' = heap_inc h n" "r = n" "u = None"
      using call by (auto simp: simple_lookup_def simple_lookup_read_def simple_lookup_write_def)
    with inv None dn show ?thesis
      by (simp add: chain_inv_snoc scan_snoc_upd)
  next
    case (Some r')
    with inv call show ?thesis
      by (auto simp: simple_lookup_def simple_lookup_read_def)
  qed
next
  fix h es r es' h' b
  assume inv: "chain_inv h es" and si: "spec_inv (scan h es, h)"
    and v: "valid_op (scan h es, h) (HDeref r)" and call: "simple_deref es h r = (es', h', b)"
  from v obtain oh where oh: "h r = Some oh" "oh_refcnt oh \<noteq> 0"
    by (auto split: option.splits)
  have here: "scan h es (head_digest h r) = Some r"
    using spec_inv_live [of "scan h es" h r oh, OF si oh] oh by (simp add: head_digest_def)
  show "chain_inv h' es' \<and> spec_step (scan h es, h) (HDeref r) = ((scan h' es', h'), HRemoved b)"
  proof (cases "fst (heap_dec h r) = 0")
    case True
    with call have "es' = unlink_ptr es r" "h' = snd (heap_dec h r)" "b"
      by (auto simp: simple_deref_def split: prod.splits)
    with True inv here show ?thesis
      by (auto simp: chain_inv_unlink scan_unlink_upd split: prod.splits)
  next
    case False
    with call have "es' = es" "h' = snd (heap_dec h r)" "\<not> b"
      by (auto simp: simple_deref_def split: prod.splits)
    with False inv show ?thesis by (auto split: prod.splits)
  qed
qed

section \<open>ClassicHash\<close>

record classic_hash =
  buckets :: "oh_ref list list"
  n_buckets :: nat

definition DEFAULT_BUCKETS :: nat where
  "DEFAULT_BUCKETS = 16381"

definition classic_table :: "nat \<Rightarrow> classic_hash" where
  "classic_table n = \<lparr>buckets = replicate n [], n_buckets = n\<rparr>"

text \<open>\<open>with_buckets\<close> asserts a positive bucket count; \<open>None\<close> is the panic.\<close>

definition classic_with_buckets :: "nat \<Rightarrow> classic_hash option" where
  "classic_with_buckets n = (if n > 0 then Some (classic_table n) else None)"

definition classic_new :: "classic_hash option" where
  "classic_new = classic_with_buckets DEFAULT_BUCKETS"

definition bucket_index :: "classic_hash \<Rightarrow> digest \<Rightarrow> nat" where
  "bucket_index t d = le_value (take 8 (bytes d)) mod n_buckets t"

definition classic_lookup ::
  "classic_hash \<Rightarrow> oh_heap \<Rightarrow> digest \<Rightarrow> oh_ref \<Rightarrow> classic_hash \<times> oh_heap \<times> oh_ref \<times> oh_ref option" where
  "classic_lookup t h d n = (let idx = bucket_index t d; bucket = buckets t ! idx in
     case scan h bucket d of
       Some r \<Rightarrow> (t, heap_inc h r, r, Some n)
     | None \<Rightarrow> (t\<lparr>buckets := (buckets t)[idx := bucket @ [n]]\<rparr>, heap_inc h n, n, None))"

definition classic_deref :: "classic_hash \<Rightarrow> oh_heap \<Rightarrow> oh_ref \<Rightarrow> classic_hash \<times> oh_heap \<times> bool" where
  "classic_deref t h r = (let (new_count, h') = heap_dec h r in
     if new_count = 0 then
       (let idx = bucket_index t (head_digest h r); bucket = buckets t ! idx in
        (t\<lparr>buckets := (buckets t)[idx := unlink_ptr bucket r]\<rparr>, h', True))
     else (t, h', False))"

definition classic_contents :: "oh_heap \<Rightarrow> classic_hash \<Rightarrow> amap" where
  "classic_contents h t d = scan h (buckets t ! bucket_index t d) d"

definition classic_inv :: "oh_heap \<Rightarrow> classic_hash \<Rightarrow> bool" where
  "classic_inv h t \<longleftrightarrow> 0 < n_buckets t \<and> length (buckets t) = n_buckets t \<and>
     (\<forall>i < n_buckets t. chain_inv h (buckets t ! i) \<and>
        (\<forall>r \<in> set (buckets t ! i). bucket_index t (head_digest h r) = i))"

lemma bucket_index_less: "0 < n_buckets t \<Longrightarrow> bucket_index t d < n_buckets t"
  by (simp add: bucket_index_def)

lemma bucket_index_upd [simp]: "bucket_index (t\<lparr>buckets := bs\<rparr>) d = bucket_index t d"
  by (simp add: bucket_index_def)

lemma classic_inv_inc [simp]: "classic_inv (heap_inc h r) t = classic_inv h t"
  by (simp add: classic_inv_def)

lemma classic_inv_dec [simp]: "classic_inv (snd (heap_dec h r)) t = classic_inv h t"
  by (simp add: classic_inv_def)

lemma classic_contents_inc [simp]: "classic_contents (heap_inc h r) = classic_contents h"
  by (simp add: classic_contents_def fun_eq_iff)

lemma classic_contents_dec [simp]: "classic_contents (snd (heap_dec h r)) = classic_contents h"
  by (simp add: classic_contents_def fun_eq_iff)

lemma classic_inv_bucket:
  assumes "classic_inv h t" and "idx = bucket_index t d"
  shows "idx < length (buckets t)" "chain_inv h (buckets t ! idx)"
  using assms bucket_index_less [of t d] by (auto simp: classic_inv_def)

text \<open>Replacing the chain of one bucket.\<close>

lemma classic_inv_upd:
  assumes "classic_inv h t" "chain_inv h es" "\<And>r. r \<in> set es \<Longrightarrow> bucket_index t (head_digest h r) = idx"
  shows "classic_inv h (t\<lparr>buckets := (buckets t)[idx := es]\<rparr>)"
proof -
  have "chain_inv h ((buckets t)[idx := es] ! i) \<and>
      (\<forall>r \<in> set ((buckets t)[idx := es] ! i). bucket_index t (head_digest h r) = i)"
    if "i < n_buckets t" for i
    using assms that by (cases "i = idx") (auto simp: classic_inv_def)
  with assms(1) show ?thesis by (auto simp: classic_inv_def)
qed

lemma classic_contents_upd:
  assumes "classic_inv h t" "idx = bucket_index t d0"
    and "scan h es = (scan h (buckets t ! idx))(d0 := v)"
  shows "classic_contents h (t\<lparr>buckets := (buckets t)[idx := es]\<rparr>) = (classic_contents h t)(d0 := v)"
proof (rule ext)
  fix d
  show "classic_contents h (t\<lparr>buckets := (buckets t)[idx := es]\<rparr>) d = ((classic_contents h t)(d0 := v)) d"
    using assms classic_inv_bucket(1) [OF assms(1,2)]
    by (cases "bucket_index t d = idx") (auto simp: classic_contents_def)
qed

interpretation classic: hash_slinger classic_lookup classic_deref classic_contents
  "classic_table (Suc k)" classic_inv for k
proof unfold_locales
  show "classic_inv h (classic_table (Suc k))" for h
    by (auto simp: classic_inv_def classic_table_def chain_inv_def simp del: replicate.simps)
  have "bucket_index (classic_table (Suc k)) d < Suc k" for d
    using bucket_index_less [of "classic_table (Suc k)" d] by (simp add: classic_table_def)
  then show "classic_contents h (classic_table (Suc k)) = Map.empty" for h
    by (simp add: fun_eq_iff classic_contents_def scan_def classic_table_def del: replicate.simps)
next
  fix h t d n t' h' r u
  assume inv: "classic_inv h t" and v: "valid_op (classic_contents h t, h) (HLookup d n)"
    and call: "classic_lookup t h d n = (t', h', r, u)"
  have dn: "head_digest h n = d"
    using v by (auto simp: head_digest_def split: option.splits)
  let ?idx = "bucket_index t d"
  note b = classic_inv_bucket [OF inv, of ?idx d]
  show "classic_inv h' t' \<and>
      spec_step (classic_contents h t, h) (HLookup d n) = ((classic_contents h' t', h'), HFound r u)"
  proof (cases "classic_contents h t d")
    case None
    then have sc: "scan h (buckets t ! ?idx) d = None" by (simp add: classic_contents_def)
    with call have res: "t' = t\<lparr>buckets := (buckets t)[?idx := buckets t ! ?idx @ [n]]\<rparr>"
      "h' = heap_inc h n" "r = n" "u = None"
      by (auto simp: classic_lookup_def Let_def)
    have "classic_inv h t'"
      unfolding res(1) using inv b sc dn
      by (intro classic_inv_upd chain_inv_snoc) (auto simp: classic_inv_def)
    moreover have "classic_contents h t' = (classic_contents h t)(d \<mapsto> n)"
      unfolding res(1) using scan_snoc_upd [of h "buckets t ! ?idx" n] sc dn
      by (intro classic_contents_upd [OF inv]) auto
    ultimately show ?thesis using None res by simp
  next
    case (Some r')
    with inv call show ?thesis
      by (auto simp: classic_lookup_def Let_def classic_contents_def)
  qed
next
  fix h t r t' h' b
  assume inv: "classic_inv h t" and si: "spec_inv (classic_contents h t, h)"
    and v: "valid_op (classic_contents h t, h) (HDeref r)" and call: "classic_deref t h r = (t', h', b)"
  from v obtain oh where oh: "h r = Some oh" "oh_refcnt oh \<noteq> 0"
    by (auto split: option.splits)
  let ?d = "head_digest h r"
  let ?idx = "bucket_index t ?d"
  note bk = classic_inv_bucket [OF inv, of ?idx ?d]
  have here: "scan h (buckets t ! ?idx) ?d = Some r"
    using spec_inv_live [of "classic_contents h t" h r oh, OF si oh] oh
    by (simp add: head_digest_def classic_contents_def)
  show "classic_inv h' t' \<and>
      spec_step (classic_contents h t, h) (HDeref r) = ((classic_contents h' t', h'), HRemoved b)"
  proof (cases "fst (heap_dec h r) = 0")
    case True
    with call have res: "t' = t\<lparr>buckets := (buckets t)[?idx := unlink_ptr (buckets t ! ?idx) r]\<rparr>"
      "h' = snd (heap_dec h r)" "b"
      by (auto simp: classic_deref_def Let_def split: prod.splits)
    have "classic_inv h t'"
      unfolding res(1) using inv bk
      by (intro classic_inv_upd chain_inv_unlink)
        (auto simp: classic_inv_def set_unlink_ptr chain_inv_distinct)
    moreover have "classic_contents h t' = (classic_contents h t)(?d := None)"
      unfolding res(1) using scan_unlink_upd [OF bk(2) here]
      by (intro classic_contents_upd [OF inv]) auto
    ultimately show ?thesis using True res by (auto split: prod.splits)
  next
    case False
    with call have "t' = t" "h' = snd (heap_dec h r)" "\<not> b"
      by (auto simp: classic_deref_def split: prod.splits)
    with False inv show ?thesis by (auto split: prod.splits)
  qed
qed

end
