(* ===== verification/Critbit.thy ===== *)
theory Critbit
  imports Hash_Slinger
begin

text \<open>
  \<open>crates/rv-hash/src/critbit.rs\<close>: the crit-bit tree backend. \<open>None\<close> is the empty tree
  of the \<open>RwLock<Option<CritbitNode>>\<close>. Bit 0 of a digest is the most significant bit of
  its first byte. Every bit position of a tree is below 256 (part of \<open>critbit_ok\<close>), so the
  byte accesses of \<open>get_bit\<close> are in range for well-formed digests.
\<close>

section \<open>Bits of a digest\<close>

definition get_bit :: "digest \<Rightarrow> nat \<Rightarrow> u8" where
  "get_bit d bit_pos =
     (let byte_idx = bit_pos div 8; bit_idx = 7 - (bit_pos mod 8)
      in drop_bit bit_idx (bytes d ! byte_idx) AND 1)"

text \<open>\<open>leading_zeros\<close> of the standard library.\<close>

definition leading_zeros :: "'a::len word \<Rightarrow> nat" where
  "leading_zeros w = length (takeWhile (\<lambda>i. \<not> bit w i) (rev [0..<LENGTH('a)]))"

fun find_critical_bit_in :: "digest \<Rightarrow> digest \<Rightarrow> nat list \<Rightarrow> nat option" where
  "find_critical_bit_in a b [] = None"
| "find_critical_bit_in a b (i # is) =
     (let diff = bytes a ! i XOR bytes b ! i in
      if diff \<noteq> 0 then
        (let bit_in_byte = 7 - leading_zeros diff in Some (i * 8 + (7 - bit_in_byte)))
      else find_critical_bit_in a b is)"

definition find_critical_bit :: "digest \<Rightarrow> digest \<Rightarrow> nat option" where
  "find_critical_bit a b = find_critical_bit_in a b [0..<DIGEST_LEN]"

text \<open>The bit as a truth value.\<close>

definition dbit :: "digest \<Rightarrow> nat \<Rightarrow> bool" where
  "dbit d p = bit (bytes d ! (p div 8)) (7 - p mod 8)"

lemma get_bit_eq_0_iff [simp]: "get_bit d p = 0 \<longleftrightarrow> \<not> dbit d p"
  by (simp add: get_bit_def dbit_def Let_def bit_iff_odd_drop_bit and_one_eq even_iff_mod_2_eq_zero)

lemma leading_zeros_u8:
  fixes w :: u8
  assumes "w \<noteq> 0"
  shows "leading_zeros w \<le> 7" "bit w (7 - leading_zeros w)" "j < leading_zeros w \<Longrightarrow> \<not> bit w (7 - j)"
proof -
  let ?l = "rev [0..<LENGTH(8)]"
  let ?P = "\<lambda>i. \<not> bit w i"
  have nth: "?l ! j = 7 - j" if "j < 8" for j
    using that by (simp add: rev_nth)
  have "\<exists>i < 8. bit w i"
  proof (rule ccontr)
    assume "\<not> ?thesis"
    then have "w = 0" by (intro bit_word_eqI) auto
    with assms show False by simp
  qed
  then have "\<not> (\<forall>x \<in> set ?l. ?P x)" by auto
  then have "length (takeWhile ?P ?l) < length ?l"
    by (metis length_takeWhile_le nat_less_le takeWhile_eq_all_conv takeWhile_eq_take take_all_iff)
  then have lt: "leading_zeros w < 8"
    by (simp add: leading_zeros_def)
  then show "leading_zeros w \<le> 7" by simp
  show "bit w (7 - leading_zeros w)"
    using nth_length_takeWhile [of ?P ?l] lt nth [OF lt] by (simp add: leading_zeros_def)
  show "\<not> bit w (7 - j)" if "j < leading_zeros w"
  proof -
    have "takeWhile ?P ?l ! j = ?l ! j"
      using that by (simp add: takeWhile_nth leading_zeros_def)
    moreover have "?P (takeWhile ?P ?l ! j)"
      using that set_takeWhileD nth_mem by (fastforce simp: leading_zeros_def)
    ultimately show ?thesis using nth [of j] that lt by simp
  qed
qed

lemma find_critical_bit_in_SomeD:
  assumes "find_critical_bit_in a b [n..<m] = Some c"
  shows "\<exists>i. n \<le> i \<and> i < m \<and> c div 8 = i \<and> dbit a c \<noteq> dbit b c \<and>
    (\<forall>k. n \<le> k \<and> k < i \<longrightarrow> bytes a ! k = bytes b ! k) \<and>
    (\<forall>j. j div 8 = i \<and> j < c \<longrightarrow> dbit a j = dbit b j)"
  using assms
proof (induction "m - n" arbitrary: n)
  case 0
  then show ?case by simp
next
  case (Suc k)
  then have nm: "n < m" by simp
  let ?diff = "bytes a ! n XOR bytes b ! n"
  have unfold: "[n..<m] = n # [Suc n..<m]"
    using nm by (simp add: upt_conv_Cons)
  show ?case
  proof (cases "?diff = 0")
    case True
    with Suc.prems have "find_critical_bit_in a b [Suc n..<m] = Some c"
      by (simp add: unfold)
    moreover have "k = m - Suc n" using Suc.hyps(2) by simp
    ultimately obtain i where i: "Suc n \<le> i" "i < m" "c div 8 = i"
      "dbit a c \<noteq> dbit b c" "\<forall>k. Suc n \<le> k \<and> k < i \<longrightarrow> bytes a ! k = bytes b ! k"
      "\<forall>j. j div 8 = i \<and> j < c \<longrightarrow> dbit a j = dbit b j"
      using Suc.hyps(1) [of "Suc n"] by blast
    have "bytes a ! n = bytes b ! n" using True by simp
    with i have "\<forall>k. n \<le> k \<and> k < i \<longrightarrow> bytes a ! k = bytes b ! k"
      by (metis not_less_eq_eq le_antisym)
    with i show ?thesis by (intro exI [of _ i]) auto
  next
    case False
    let ?z = "leading_zeros ?diff"
    note z = leading_zeros_u8 [OF False]
    have c: "c = n * 8 + ?z"
      using Suc.prems z(1) False by (auto simp: unfold Let_def)
    then have cd: "c div 8 = n" "c mod 8 = ?z" using z(1) by auto
    have "dbit a c \<noteq> dbit b c"
      using z(2) by (simp add: dbit_def cd bit_xor_iff)
    moreover have "dbit a j = dbit b j" if "j div 8 = n" "j < c" for j
    proof -
      have "j mod 8 < ?z"
        using that c by (metis add_less_cancel_left div_mult_mod_eq)
      from z(3) [OF this] show ?thesis
        by (simp add: dbit_def that bit_xor_iff)
    qed
    ultimately show ?thesis using nm cd by (intro exI [of _ n]) auto
  qed
qed

lemma find_critical_bit_SomeD:
  assumes "find_critical_bit a b = Some c"
  shows "c < 256" "dbit a c \<noteq> dbit b c" "j < c \<Longrightarrow> dbit a j = dbit b j"
proof -
  from find_critical_bit_in_SomeD [of a b 0 DIGEST_LEN c] assms obtain i where
    i: "i < 32" "c div 8 = i" "dbit a c \<noteq> dbit b c" "\<forall>k < i. bytes a ! k = bytes b ! k"
      "\<forall>j. j div 8 = i \<and> j < c \<longrightarrow> dbit a j = dbit b j"
    by (auto simp: find_critical_bit_def DIGEST_LEN_def)
  then show "c < 256" "dbit a c \<noteq> dbit b c" by auto
  show "dbit a j = dbit b j" if "j < c"
  proof (cases "j div 8 = i")
    case True
    with i that show ?thesis by blast
  next
    case False
    with that i have "j div 8 < i" by (metis div_le_mono le_neq_implies_less less_imp_le)
    with i show ?thesis by (simp add: dbit_def)
  qed
qed

lemma find_critical_bit_in_None_iff:
  "find_critical_bit_in a b is = None \<longleftrightarrow> (\<forall>i \<in> set is. bytes a ! i = bytes b ! i)"
  by (induction "is") (auto simp: Let_def)

lemma find_critical_bit_None_iff:
  assumes "digest_wf a" "digest_wf b"
  shows "find_critical_bit a b = None \<longleftrightarrow> a = b"
proof -
  have "bytes a = bytes b \<longleftrightarrow> (\<forall>i < DIGEST_LEN. bytes a ! i = bytes b ! i)"
    using assms by (auto simp: digest_wf_def list_eq_iff_nth_eq)
  then show ?thesis
    by (auto simp: find_critical_bit_def find_critical_bit_in_None_iff intro: digest.expand)
qed

section \<open>The tree\<close>

datatype critbit_node =
  Internal (bit_pos: nat) (left: critbit_node) (right: critbit_node)
| CLeaf oh_ref

type_synonym critbit_hash = "critbit_node option"

fun walk_to_leaf :: "critbit_node \<Rightarrow> digest \<Rightarrow> oh_ref" where
  "walk_to_leaf (CLeaf oh) d = oh"
| "walk_to_leaf (Internal bp l r) d =
     (if get_bit d bp = 0 then walk_to_leaf l d else walk_to_leaf r d)"

fun insert_node :: "critbit_node \<Rightarrow> critbit_node \<Rightarrow> nat \<Rightarrow> digest \<Rightarrow> critbit_node" where
  "insert_node (Internal bp l r) new_leaf crit_bit d =
     (if crit_bit < bp then
        (if get_bit d crit_bit = 0 then Internal crit_bit new_leaf (Internal bp l r)
         else Internal crit_bit (Internal bp l r) new_leaf)
      else if get_bit d bp = 0 then Internal bp (insert_node l new_leaf crit_bit d) r
      else Internal bp l (insert_node r new_leaf crit_bit d))"
| "insert_node (CLeaf oh) new_leaf crit_bit d =
     (if get_bit d crit_bit = 0 then Internal crit_bit new_leaf (CLeaf oh)
      else Internal crit_bit (CLeaf oh) new_leaf)"

text \<open>
  \<open>new_left.unwrap()\<close> is \<open>the\<close>: a subtree from which nothing was removed is never empty
  (\<open>remove_node_unwrap\<close> below).
\<close>

fun remove_node :: "oh_heap \<Rightarrow> critbit_node \<Rightarrow> digest \<Rightarrow> critbit_node option \<times> oh_ref option" where
  "remove_node h (CLeaf oh) d =
     (if head_digest h oh = d then (None, Some oh) else (Some (CLeaf oh), None))"
| "remove_node h (Internal bp l r) d =
     (if get_bit d bp = 0 then
        (let (new_left, removed) = remove_node h l d in
         if removed \<noteq> None then
           (case new_left of
              Some l' \<Rightarrow> (Some (Internal bp l' r), removed)
            | None \<Rightarrow> (Some r, removed))
         else (Some (Internal bp (the new_left) r), None))
      else
        (let (new_right, removed) = remove_node h r d in
         if removed \<noteq> None then
           (case new_right of
              Some r' \<Rightarrow> (Some (Internal bp l r'), removed)
            | None \<Rightarrow> (Some l, removed))
         else (Some (Internal bp l (the new_right)), None)))"

lemma remove_node_unwrap: "remove_node h t d = (t', None) \<Longrightarrow> t' = Some t"
  by (induction t arbitrary: t') (auto simp: Let_def split: if_splits prod.splits option.splits)

section \<open>CritbitHash\<close>

definition critbit_new :: critbit_hash where
  "critbit_new = None"

text \<open>The fast path, under the read lock.\<close>

definition critbit_lookup_read ::
  "critbit_hash \<Rightarrow> oh_heap \<Rightarrow> digest \<Rightarrow> oh_ref \<Rightarrow> (oh_heap \<times> oh_ref \<times> oh_ref option) option" where
  "critbit_lookup_read root h d n = (case root of
      Some tree \<Rightarrow>
        (let leaf = walk_to_leaf tree d in
         if head_digest h leaf = d then Some (heap_inc h leaf, leaf, Some n) else None)
    | None \<Rightarrow> None)"

text \<open>
  The slow path, under the write lock. \<open>expect\<close> is \<open>the\<close>: it is reached with two different
  digests only (\<open>find_critical_bit_None_iff\<close>).
\<close>

definition critbit_lookup_write ::
  "critbit_hash \<Rightarrow> oh_heap \<Rightarrow> digest \<Rightarrow> oh_ref \<Rightarrow> critbit_hash \<times> oh_heap \<times> oh_ref \<times> oh_ref option" where
  "critbit_lookup_write root h d n = (case root of
      None \<Rightarrow> (Some (CLeaf n), heap_inc h n, n, None)
    | Some tree \<Rightarrow>
        (let leaf = walk_to_leaf tree d in
         if head_digest h leaf = d then (root, heap_inc h leaf, leaf, Some n)
         else
           (let crit_bit = the (find_critical_bit d (head_digest h leaf)) in
            (Some (insert_node tree (CLeaf n) crit_bit d), heap_inc h n, n, None))))"

definition critbit_lookup ::
  "critbit_hash \<Rightarrow> oh_heap \<Rightarrow> digest \<Rightarrow> oh_ref \<Rightarrow> critbit_hash \<times> oh_heap \<times> oh_ref \<times> oh_ref option" where
  "critbit_lookup root h d n = (case critbit_lookup_read root h d n of
      Some (h', r, u) \<Rightarrow> (root, h', r, u)
    | None \<Rightarrow> critbit_lookup_write root h d n)"

definition critbit_unlink :: "critbit_hash \<Rightarrow> oh_heap \<Rightarrow> digest \<Rightarrow> critbit_hash" where
  "critbit_unlink root h d = (case root of
      Some tree \<Rightarrow> fst (remove_node h tree d)
    | None \<Rightarrow> None)"

definition critbit_deref :: "critbit_hash \<Rightarrow> oh_heap \<Rightarrow> oh_ref \<Rightarrow> critbit_hash \<times> oh_heap \<times> bool" where
  "critbit_deref root h r = (let (new_count, h') = heap_dec h r in
     if new_count = 0 then (critbit_unlink root h' (head_digest h r), h', True)
     else (root, h', False))"

section \<open>The invariant of the tree\<close>

fun leaves :: "critbit_node \<Rightarrow> oh_ref set" where
  "leaves (CLeaf oh) = {oh}"
| "leaves (Internal bp l r) = leaves l \<union> leaves r"

text \<open>
  The digests below an internal node agree on all bits before its position; the bit at the
  position is 0 on the left and 1 on the right.
\<close>

definition agree_below :: "oh_heap \<Rightarrow> nat \<Rightarrow> oh_ref set \<Rightarrow> bool" where
  "agree_below h bp S \<longleftrightarrow>
     (\<forall>x \<in> S. \<forall>y \<in> S. \<forall>j < bp. dbit (head_digest h x) j = dbit (head_digest h y) j)"

fun critbit_ok :: "oh_heap \<Rightarrow> critbit_node \<Rightarrow> bool" where
  "critbit_ok h (CLeaf oh) \<longleftrightarrow> True"
| "critbit_ok h (Internal bp l r) \<longleftrightarrow>
     bp < 256 \<and> critbit_ok h l \<and> critbit_ok h r \<and>
     (\<forall>x \<in> leaves l. \<not> dbit (head_digest h x) bp) \<and>
     (\<forall>x \<in> leaves r. dbit (head_digest h x) bp) \<and>
     agree_below h bp (leaves l \<union> leaves r)"

lemma walk_to_leaf_in: "walk_to_leaf t d \<in> leaves t"
  by (induction t) auto

lemma walk_to_leaf_finds:
  "critbit_ok h t \<Longrightarrow> x \<in> leaves t \<Longrightarrow> walk_to_leaf t (head_digest h x) = x"
  by (induction t) auto

lemma critbit_ok_inj: "critbit_ok h t \<Longrightarrow> inj_on (head_digest h) (leaves t)"
  by (metis inj_onI walk_to_leaf_finds)

lemma agree_belowD:
  "agree_below h bp S \<Longrightarrow> x \<in> S \<Longrightarrow> y \<in> S \<Longrightarrow> j < bp \<Longrightarrow>
   dbit (head_digest h x) j = dbit (head_digest h y) j"
  unfolding agree_below_def by blast

lemma agree_below_mono: "agree_below h bp S \<Longrightarrow> T \<subseteq> S \<Longrightarrow> agree_below h bp T"
  unfolding agree_below_def by blast

lemma agree_below_insert:
  assumes "\<And>x j. x \<in> S \<Longrightarrow> j < bp \<Longrightarrow> dbit (head_digest h x) j = dbit (head_digest h n) j"
  shows "agree_below h bp (insert n S)"
proof -
  have "dbit (head_digest h x) j = dbit (head_digest h n) j" if "x \<in> insert n S" "j < bp" for x j
    using that assms by blast
  then show ?thesis by (metis agree_below_def)
qed

lemma critbit_ok_agree:
  "critbit_ok h (Internal bp l r) \<Longrightarrow> x \<in> leaves (Internal bp l r) \<Longrightarrow> y \<in> leaves (Internal bp l r) \<Longrightarrow>
   j < bp \<Longrightarrow> dbit (head_digest h x) j = dbit (head_digest h y) j"
  by (rule agree_belowD [where S = "leaves l \<union> leaves r"]) simp_all

lemma leaves_insert_node: "leaves (insert_node t (CLeaf n) c d) = insert n (leaves t)"
  by (induction t) auto

text \<open>A leaf split off at the bit where the digest differs from all of a subtree.\<close>

lemma critbit_ok_split:
  assumes ok: "critbit_ok h t" and c: "c < 256"
    and diff: "\<And>x. x \<in> leaves t \<Longrightarrow> dbit (head_digest h x) c \<noteq> dbit (head_digest h n) c"
    and same: "\<And>x j. x \<in> leaves t \<Longrightarrow> j < c \<Longrightarrow> dbit (head_digest h x) j = dbit (head_digest h n) j"
  shows "critbit_ok h (if get_bit (head_digest h n) c = 0 then Internal c (CLeaf n) t
    else Internal c t (CLeaf n))"
  using assms agree_below_insert [OF same] by (cases "dbit (head_digest h n) c") auto

lemma critbit_ok_insert_node:
  assumes "critbit_ok h t" and c: "c < 256"
    and "dbit (head_digest h (walk_to_leaf t d)) c \<noteq> dbit d c"
    and "\<And>j. j < c \<Longrightarrow> dbit (head_digest h (walk_to_leaf t d)) j = dbit d j"
    and d: "d = head_digest h n"
  shows "critbit_ok h (insert_node t (CLeaf n) c d)"
  using assms(1,3,4)
proof (induction t)
  case (CLeaf oh)
  then show ?case
    using critbit_ok_split [of h "CLeaf oh" c n] c d by simp
next
  case (Internal bp l r)
  let ?t = "Internal bp l r"
  let ?L = "walk_to_leaf ?t d"
  have L: "?L \<in> leaves ?t" by (rule walk_to_leaf_in)
  show ?case
  proof (cases "c < bp")
    case True
    have agree: "dbit (head_digest h x) j = dbit (head_digest h ?L) j" if "x \<in> leaves ?t" "j \<le> c" for x j
      using critbit_ok_agree [OF Internal.prems(1) that(1) L, of j] that(2) True by simp
    have "critbit_ok h (if get_bit (head_digest h n) c = 0 then Internal c (CLeaf n) ?t
        else Internal c ?t (CLeaf n))"
      by (rule critbit_ok_split [OF Internal.prems(1) c])
        (use agree Internal.prems(2,3) d in \<open>simp_all del: walk_to_leaf.simps leaves.simps\<close>)
    with True show ?thesis by (simp add: d)
  next
    case False
    have side: "dbit (head_digest h ?L) bp = dbit d bp"
      using Internal.prems(1) walk_to_leaf_in [of l d] walk_to_leaf_in [of r d] by auto
    with Internal.prems(2) False have lt: "bp < c"
      by (metis linorder_neqE_nat)
    have agree: "dbit (head_digest h x) j = dbit d j" if "x \<in> leaves ?t" "j < bp" for x j
      using critbit_ok_agree [OF Internal.prems(1) that(1) L that(2)] Internal.prems(3) [of j] that(2) lt
      by simp
    have "agree_below h bp (insert n (leaves l \<union> leaves r))"
      by (rule agree_below_insert) (use agree d in auto)
    then have below: "agree_below h bp (leaves l \<union> insert n (leaves r))"
        "agree_below h bp (insert n (leaves l) \<union> leaves r)"
      by simp_all
    show ?thesis
    proof (cases "dbit d bp")
      case True
      with Internal.prems have "critbit_ok h (insert_node r (CLeaf n) c d)"
        by (intro Internal.IH(2)) auto
      with True False Internal.prems(1) below show ?thesis
        by (simp add: leaves_insert_node d)
    next
      case bit0: False
      with Internal.prems have "critbit_ok h (insert_node l (CLeaf n) c d)"
        by (intro Internal.IH(1)) auto
      with bit0 False Internal.prems(1) below show ?thesis
        by (simp add: leaves_insert_node d)
    qed
  qed
qed

definition leaves_opt :: "critbit_hash \<Rightarrow> oh_ref set" where
  "leaves_opt root = (case root of None \<Rightarrow> {} | Some t \<Rightarrow> leaves t)"

definition critbit_inv :: "oh_heap \<Rightarrow> critbit_hash \<Rightarrow> bool" where
  "critbit_inv h root \<longleftrightarrow> (case root of None \<Rightarrow> True | Some t \<Rightarrow> critbit_ok h t)"

lemma leaves_opt_simps [simp]: "leaves_opt None = {}" "leaves_opt (Some t) = leaves t"
  by (simp_all add: leaves_opt_def)

lemma critbit_inv_simps [simp]: "critbit_inv h None" "critbit_inv h (Some t) = critbit_ok h t"
  by (simp_all add: critbit_inv_def)

lemma leaves_nonempty: "leaves t \<noteq> {}"
  by (induction t) auto

lemma critbit_ok_disjoint: "critbit_ok h (Internal bp l r) \<Longrightarrow> x \<in> leaves l \<Longrightarrow> x \<notin> leaves r"
  by auto

lemma remove_node_found:
  assumes "critbit_ok h t" "x \<in> leaves t" "head_digest h x = d"
  shows "\<exists>t'. remove_node h t d = (t', Some x) \<and> critbit_inv h t' \<and> leaves_opt t' = leaves t - {x}"
  using assms
proof (induction t)
  case (CLeaf oh)
  then show ?case by simp
next
  case (Internal bp l r)
  have below: "agree_below h bp (leaves l \<union> leaves r)" using Internal.prems(1) by simp
  show ?case
  proof (cases "x \<in> leaves l")
    case True
    with Internal.prems have "\<not> dbit d bp" "x \<notin> leaves r" by auto
    moreover from True Internal obtain l' where "remove_node h l d = (l', Some x)" "critbit_inv h l'"
      "leaves_opt l' = leaves l - {x}"
      by auto
    moreover have "agree_below h bp ((leaves l - {x}) \<union> leaves r)"
      by (rule agree_below_mono [OF below]) auto
    ultimately show ?thesis using Internal.prems(1)
      by (cases l') auto
  next
    case False
    with Internal.prems have "dbit d bp" "x \<in> leaves r" by auto
    moreover from this Internal obtain r' where "remove_node h r d = (r', Some x)" "critbit_inv h r'"
      "leaves_opt r' = leaves r - {x}"
      by auto
    moreover have "agree_below h bp (leaves l \<union> (leaves r - {x}))"
      by (rule agree_below_mono [OF below]) auto
    ultimately show ?thesis using Internal.prems(1) False
      by (cases r') auto
  qed
qed

section \<open>The backend implements the contract\<close>

definition critbit_contents :: "oh_heap \<Rightarrow> critbit_hash \<Rightarrow> amap" where
  "critbit_contents h root d = (case root of None \<Rightarrow> None
     | Some t \<Rightarrow> (let leaf = walk_to_leaf t d in if head_digest h leaf = d then Some leaf else None))"

lemma critbit_contents_Some_iff:
  "critbit_inv h root \<Longrightarrow> critbit_contents h root d = Some x \<longleftrightarrow> x \<in> leaves_opt root \<and> head_digest h x = d"
  using walk_to_leaf_in walk_to_leaf_finds
  by (auto simp: critbit_contents_def Let_def split: option.splits)

lemma critbit_contents_upd:
  assumes "critbit_inv h root" "critbit_inv h root'" "leaves_opt root' = insert n (leaves_opt root)"
    "critbit_contents h root (head_digest h n) = None"
  shows "critbit_contents h root' = (critbit_contents h root)(head_digest h n \<mapsto> n)"
proof (rule ext)
  fix d
  have "head_digest h x \<noteq> head_digest h n" if "x \<in> leaves_opt root" for x
    using critbit_contents_Some_iff [OF assms(1), of "head_digest h n" x] assms(4) that by simp
  then have "critbit_contents h root' d = Some x \<longleftrightarrow>
      ((critbit_contents h root)(head_digest h n \<mapsto> n)) d = Some x" for x
    using assms(1-3) by (auto simp: critbit_contents_Some_iff)
  then show "critbit_contents h root' d = ((critbit_contents h root)(head_digest h n \<mapsto> n)) d"
    by (metis option.exhaust)
qed

lemma critbit_contents_del:
  assumes "critbit_inv h root" "critbit_inv h root'" "leaves_opt root' = leaves_opt root - {r}"
    "r \<in> leaves_opt root"
  shows "critbit_contents h root' = (critbit_contents h root)(head_digest h r := None)"
proof (rule ext)
  fix d
  have "x = r" if "x \<in> leaves_opt root" "head_digest h x = head_digest h r" for x
    using critbit_contents_Some_iff [OF assms(1), of "head_digest h r"] assms(4) that
    by (metis option.inject)
  then have "critbit_contents h root' d = Some x \<longleftrightarrow>
      ((critbit_contents h root)(head_digest h r := None)) d = Some x" for x
    using assms by (auto simp: critbit_contents_Some_iff)
  then show "critbit_contents h root' d = ((critbit_contents h root)(head_digest h r := None)) d"
    by (metis option.exhaust)
qed

lemma critbit_ok_heap_cong: "head_digest h' = head_digest h \<Longrightarrow> critbit_ok h' t = critbit_ok h t"
  by (induction t) (auto simp: agree_below_def)

lemma critbit_heap_inc [simp]: "critbit_inv (heap_inc h r) root = critbit_inv h root"
  "critbit_contents (heap_inc h r) = critbit_contents h"
  by (simp_all add: critbit_inv_def critbit_contents_def fun_eq_iff critbit_ok_heap_cong split: option.splits)

lemma critbit_heap_dec [simp]: "critbit_inv (snd (heap_dec h r)) root = critbit_inv h root"
  "critbit_contents (snd (heap_dec h r)) = critbit_contents h"
  by (simp_all add: critbit_inv_def critbit_contents_def fun_eq_iff critbit_ok_heap_cong split: option.splits)

lemma remove_node_heap_cong: "head_digest h' = head_digest h \<Longrightarrow> remove_node h' t d = remove_node h t d"
  by (induction t) (auto simp: Let_def split: prod.splits option.splits)

text \<open>The write path on a digest that is not in the table.\<close>

lemma critbit_insert:
  assumes inv: "critbit_inv h root" and si: "spec_inv (critbit_contents h root, h)"
    and none: "critbit_contents h root (head_digest h n) = None" and wf: "digest_wf (head_digest h n)"
    and call: "critbit_lookup_write root h (head_digest h n) n = (root', h', r, u)"
  shows "critbit_inv h root'" "critbit_contents h root' = (critbit_contents h root)(head_digest h n \<mapsto> n)"
    "h' = heap_inc h n" "r = n" "u = None"
proof -
  let ?d = "head_digest h n"
  have "critbit_inv h root' \<and> leaves_opt root' = insert n (leaves_opt root) \<and> h' = heap_inc h n \<and> r = n \<and> u = None"
  proof (cases root)
    case None
    with call show ?thesis by (auto simp: critbit_lookup_write_def)
  next
    case (Some t)
    let ?L = "walk_to_leaf t ?d"
    have ne: "head_digest h ?L \<noteq> ?d"
      using none by (auto simp: critbit_contents_def Some Let_def split: if_splits)
    have "critbit_contents h root (head_digest h ?L) = Some ?L"
      using inv walk_to_leaf_in by (simp add: critbit_contents_Some_iff Some)
    then have "digest_wf (head_digest h ?L)"
      using spec_inv_SomeD [OF si] spec_inv_wf [OF si] by (metis option.sel head_digest_def)
    with find_critical_bit_None_iff [OF wf this] ne obtain c where
      c: "find_critical_bit ?d (head_digest h ?L) = Some c" by auto
    note cb = find_critical_bit_SomeD [OF c]
    have "critbit_ok h (insert_node t (CLeaf n) c ?d)"
      by (rule critbit_ok_insert_node) (use inv Some cb in auto)
    with call c ne show ?thesis
      by (auto simp: critbit_lookup_write_def Some Let_def leaves_insert_node)
  qed
  then show "critbit_inv h root'" "critbit_contents h root' = (critbit_contents h root)(head_digest h n \<mapsto> n)"
    "h' = heap_inc h n" "r = n" "u = None"
    using critbit_contents_upd [OF inv _ _ none] by auto
qed

lemma critbit_lookup_hit:
  "critbit_contents h root d = Some r \<Longrightarrow> critbit_lookup root h d n = (root, heap_inc h r, r, Some n)"
  by (auto simp: critbit_lookup_def critbit_lookup_read_def critbit_contents_def Let_def
      split: option.splits if_splits)

lemma critbit_lookup_miss:
  "critbit_contents h root d = None \<Longrightarrow> critbit_lookup root h d n = critbit_lookup_write root h d n"
  by (auto simp: critbit_lookup_def critbit_lookup_read_def critbit_contents_def Let_def
      split: option.splits if_splits)

interpretation critbit: hash_slinger critbit_lookup critbit_deref critbit_contents critbit_new critbit_inv
proof unfold_locales
  show "critbit_inv h critbit_new" "critbit_contents h critbit_new = Map.empty" for h
    by (simp_all add: critbit_new_def critbit_contents_def fun_eq_iff)
next
  fix h root d n root' h' r u
  assume inv: "critbit_inv h root" and si: "spec_inv (critbit_contents h root, h)"
    and v: "valid_op (critbit_contents h root, h) (HLookup d n)"
    and call: "critbit_lookup root h d n = (root', h', r, u)"
  from v obtain oh where oh: "h n = Some oh" "oh_digest oh = d"
    by (auto split: option.splits)
  then have dn: "head_digest h n = d" and wf: "digest_wf d"
    using spec_inv_wf [OF si oh(1)] by (simp_all add: head_digest_def)
  show "critbit_inv h' root' \<and>
      spec_step (critbit_contents h root, h) (HLookup d n) = ((critbit_contents h' root', h'), HFound r u)"
  proof (cases "critbit_contents h root d")
    case None
    with call have "critbit_lookup_write root h d n = (root', h', r, u)"
      by (simp add: critbit_lookup_miss)
    from critbit_insert [OF inv si, of n, unfolded dn, OF None wf this] None show ?thesis
      by simp
  next
    case (Some r')
    with inv call show ?thesis by (auto simp: critbit_lookup_hit)
  qed
next
  fix h root r root' h' b
  assume inv: "critbit_inv h root" and si: "spec_inv (critbit_contents h root, h)"
    and v: "valid_op (critbit_contents h root, h) (HDeref r)" and call: "critbit_deref root h r = (root', h', b)"
  from v obtain oh where oh: "h r = Some oh" "oh_refcnt oh \<noteq> 0"
    by (auto split: option.splits)
  let ?d = "head_digest h r"
  have "critbit_contents h root ?d = Some r"
    using spec_inv_live [of "critbit_contents h root" h r oh, OF si oh] oh by (simp add: head_digest_def)
  then have here: "r \<in> leaves_opt root" using inv by (simp add: critbit_contents_Some_iff)
  show "critbit_inv h' root' \<and>
      spec_step (critbit_contents h root, h) (HDeref r) = ((critbit_contents h' root', h'), HRemoved b)"
  proof (cases "fst (heap_dec h r) = 0")
    case True
    from here obtain t where t: "root = Some t" by (cases root) auto
    with remove_node_found [of h t r ?d] inv here obtain t' where
      t': "remove_node h t ?d = (t', Some r)" "critbit_inv h t'" "leaves_opt t' = leaves t - {r}"
      by auto
    have "remove_node (snd (heap_dec h r)) t ?d = (t', Some r)"
      using t'(1) remove_node_heap_cong [of "snd (heap_dec h r)" h] by simp
    with call True t have "root' = t'" "h' = snd (heap_dec h r)" "b"
      by (auto simp: critbit_deref_def critbit_unlink_def split: prod.splits)
    moreover have "critbit_contents h t' = (critbit_contents h root)(?d := None)"
      using critbit_contents_del [OF inv t'(2) _ here] t'(3) t by simp
    ultimately show ?thesis using True t'(2)
      by (auto split: prod.splits)
  next
    case False
    with call have "root' = root" "h' = snd (heap_dec h r)" "\<not> b"
      by (auto simp: critbit_deref_def split: prod.splits)
    with False inv show ?thesis by (auto split: prod.splits)
  qed
qed

end
