(* ===== verification/Hash_Props.thy ===== *)
theory Hash_Props
  imports Hash_Lists Critbit
begin

text \<open>
  What holds of the hash backends together: they answer every sequence of calls alike, a
  lookup takes effect in its last lock section, and what happens when the two sections of
  \<open>deref\<close> are interleaved with a lookup.
\<close>

section \<open>The backends are interchangeable\<close>

abbreviation simple_step :: "simple_hash \<times> oh_heap \<Rightarrow> hash_op \<Rightarrow> (simple_hash \<times> oh_heap) \<times> hash_out" where
  "simple_step \<equiv> impl_step simple_lookup simple_deref"

abbreviation classic_step :: "classic_hash \<times> oh_heap \<Rightarrow> hash_op \<Rightarrow> (classic_hash \<times> oh_heap) \<times> hash_out" where
  "classic_step \<equiv> impl_step classic_lookup classic_deref"

abbreviation critbit_step :: "critbit_hash \<times> oh_heap \<Rightarrow> hash_op \<Rightarrow> (critbit_hash \<times> oh_heap) \<times> hash_out" where
  "critbit_step \<equiv> impl_step critbit_lookup critbit_deref"

text \<open>A store of heads that nobody refers to yet.\<close>

definition fresh_heap :: "oh_heap \<Rightarrow> bool" where
  "fresh_heap h \<longleftrightarrow> (\<forall>r oh. h r = Some oh \<longrightarrow> oh_refcnt oh = 0 \<and> digest_wf (oh_digest oh))"

lemma fresh_heap_spec_inv: "fresh_heap h \<Longrightarrow> spec_inv (Map.empty, h)"
  by (rule spec_invI) (auto simp: fresh_heap_def)

text \<open>
  C1: The crit-bit tree implements the contract of the trait \<open>HashSlinger\<close>: started empty,
  it answers every valid sequence of lookups and derefs as the map of the specification
  does, and its tree stays well-formed throughout.
\<close>

theorem critbit_refines_spec:
  assumes "fresh_heap h" "valid_run (Map.empty, h) ops"
    and "run critbit_step (critbit_new, h) ops = ((root, h'), outs)"
  shows "run spec_step (Map.empty, h) ops = ((critbit_contents h' root, h'), outs) \<and> critbit_inv h' root"
  using critbit.run_sim [OF critbit.inv_empty, of h ops root h' outs] assms
  by (simp add: critbit.contents_empty fresh_heap_spec_inv)

text \<open>
  C2: The three backends are interchangeable. On every valid sequence of calls the crit-bit
  tree, the linked list and the bucket table (with any positive number of buckets) return
  the same heads, hand the caller's unused head back in the same calls and report removal in
  the same calls.
\<close>

theorem backends_agree:
  assumes "fresh_heap h" "valid_run (Map.empty, h) ops" "0 < k"
  shows "snd (run critbit_step (critbit_new, h) ops) = snd (run simple_step (simple_new, h) ops) \<and>
    snd (run classic_step (classic_table k, h) ops) = snd (run simple_step (simple_new, h) ops)"
proof -
  obtain j where "k = Suc j" using assms(3) gr0_implies_Suc by blast
  with assms show ?thesis
    by (simp add: fresh_heap_spec_inv critbit.run_correct simple.run_correct classic.run_correct)
qed

text \<open>Two heads of one digest and one of another, for the witnesses.\<close>

definition demo_heap :: oh_heap where
  "demo_heap = [0 \<mapsto> objhead_new (make_digest 128), 1 \<mapsto> objhead_new (make_digest 192),
     2 \<mapsto> objhead_new (make_digest 128)]"

definition demo_ops :: "hash_op list" where
  "demo_ops = [HLookup (make_digest 128) 0, HLookup (make_digest 192) 1,
     HLookup (make_digest 128) 2, HDeref 0, HDeref 1]"

lemma demo_heap_fresh: "fresh_heap demo_heap"
  by (auto simp: fresh_heap_def demo_heap_def objhead_new_def split: if_splits)

lemmas demo_defs = demo_ops_def demo_heap_def objhead_new_def heap_inc_def inc_ref_def heap_dec_def
  dec_ref_def head_digest_def Let_def

lemma demo_valid: "valid_run (Map.empty, demo_heap) demo_ops"
  by (simp add: demo_defs)

theorem critbit_refines_spec_witness:
  "fresh_heap demo_heap \<and> valid_run (Map.empty, demo_heap) demo_ops \<and>
   snd (run critbit_step (critbit_new, demo_heap) demo_ops) =
     [HFound 0 None, HFound 1 None, HFound 0 (Some 2), HRemoved False, HRemoved True]"
proof -
  obtain root h' outs where run: "run critbit_step (critbit_new, demo_heap) demo_ops = ((root, h'), outs)"
    by (metis surj_pair)
  have "snd (run spec_step (Map.empty, demo_heap) demo_ops) = outs"
    using critbit_refines_spec [OF demo_heap_fresh demo_valid run] by simp
  moreover have "snd (run spec_step (Map.empty, demo_heap) demo_ops) =
      [HFound 0 None, HFound 1 None, HFound 0 (Some 2), HRemoved False, HRemoved True]"
    by (simp add: demo_defs)
  ultimately show ?thesis using run demo_heap_fresh demo_valid by simp
qed

theorem backends_agree_witness:
  "fresh_heap demo_heap \<and> valid_run (Map.empty, demo_heap) demo_ops \<and> (0::nat) < 4 \<and>
   snd (run critbit_step (critbit_new, demo_heap) demo_ops) = snd (run simple_step (simple_new, demo_heap) demo_ops) \<and>
   snd (run classic_step (classic_table 4, demo_heap) demo_ops) = snd (run simple_step (simple_new, demo_heap) demo_ops)"
  using backends_agree [OF demo_heap_fresh demo_valid, of 4] demo_heap_fresh demo_valid by simp

section \<open>Interleavings\<close>

text \<open>
  Between the read section and the write section of a lookup other threads may change the
  table. The write section scans again, so on its own it does what the whole call does: a
  lookup takes effect at its last section, and no other thread can make it store a second
  head for a digest.
\<close>

lemma simple_lookup_linearizes: "simple_lookup_write es h d n = simple_lookup es h d n"
  by (auto simp: simple_lookup_write_def simple_lookup_def simple_lookup_read_def split: option.splits)

lemma critbit_lookup_linearizes: "critbit_lookup_write root h d n = critbit_lookup root h d n"
  by (auto simp: critbit_lookup_write_def critbit_lookup_def critbit_lookup_read_def Let_def
      split: option.splits)

text \<open>
  C3: A lookup whose fast path missed still behaves as one atomic lookup at its second lock
  section, whatever valid calls of other threads ran in between: it steps the specification
  once and keeps the tree well-formed.
\<close>

theorem critbit_lookup_interleaved:
  assumes "critbit_inv h root" "spec_inv (critbit_contents h root, h)"
    and "critbit_lookup_read root h d n = None"
    and others: "valid_run (critbit_contents h root, h) ops" "run critbit_step (root, h) ops = ((root1, h1), outs)"
    and "valid_op (critbit_contents h1 root1, h1) (HLookup d n)"
    and "critbit_lookup_write root1 h1 d n = (root2, h2, r, u)"
  shows "spec_step (critbit_contents h1 root1, h1) (HLookup d n) = ((critbit_contents h2 root2, h2), HFound r u) \<and>
    critbit_inv h2 root2 \<and> spec_inv (critbit_contents h2 root2, h2)"
proof -
  have sim: "critbit_inv h1 root1"
    "run spec_step (critbit_contents h root, h) ops = ((critbit_contents h1 root1, h1), outs)"
    using critbit.run_sim [OF assms(1,2) others] by simp_all
  then have si: "spec_inv (critbit_contents h1 root1, h1)"
    using spec_inv_run [OF assms(2) others(1)] by simp
  have "critbit_inv h2 root2 \<and>
      spec_step (critbit_contents h1 root1, h1) (HLookup d n) = ((critbit_contents h2 root2, h2), HFound r u)"
    using critbit.lookup_sim [OF sim(1) si assms(6)] assms(7) by (simp add: critbit_lookup_linearizes)
  moreover from this have "spec_inv (critbit_contents h2 root2, h2)"
    using spec_inv_step [OF si assms(6)] by (simp del: spec_step.simps)
  ultimately show ?thesis by blast
qed

theorem critbit_lookup_interleaved_witness:
  "critbit_lookup_read None demo_heap (make_digest 128) 2 = None \<and>
   run critbit_step (None, demo_heap) [HLookup (make_digest 128) 0] =
     ((Some (CLeaf 0), heap_inc demo_heap 0), [HFound 0 None]) \<and>
   critbit_lookup_write (Some (CLeaf 0)) (heap_inc demo_heap 0) (make_digest 128) 2 =
     (Some (CLeaf 0), heap_inc (heap_inc demo_heap 0) 0, 0, Some 2) \<and>
   critbit_inv (heap_inc (heap_inc demo_heap 0) 0) (Some (CLeaf 0))"
proof -
  let ?d = "make_digest 128"
  have e: "critbit_contents demo_heap None = Map.empty"
    by (simp add: critbit_contents_def fun_eq_iff)
  have read: "critbit_lookup_read None demo_heap ?d 2 = None"
    by (simp add: critbit_lookup_read_def)
  have others: "valid_run (critbit_contents demo_heap None, demo_heap) [HLookup ?d 0]"
    by (simp add: critbit_contents_def demo_defs)
  have run: "run critbit_step (None, demo_heap) [HLookup ?d 0] =
      ((Some (CLeaf 0), heap_inc demo_heap 0), [HFound 0 None])"
    by (simp add: critbit_lookup_def critbit_lookup_read_def critbit_lookup_write_def)
  have v: "valid_op (critbit_contents (heap_inc demo_heap 0) (Some (CLeaf 0)), heap_inc demo_heap 0) (HLookup ?d 2)"
    by (simp add: critbit_contents_def demo_defs)
  have w: "critbit_lookup_write (Some (CLeaf 0)) (heap_inc demo_heap 0) ?d 2 =
      (Some (CLeaf 0), heap_inc (heap_inc demo_heap 0) 0, 0, Some 2)"
    by (simp add: critbit_lookup_write_def Let_def) (simp add: demo_defs)
  have si: "spec_inv (critbit_contents demo_heap None, demo_heap)"
    using fresh_heap_spec_inv [OF demo_heap_fresh] by (simp add: e)
  from critbit_lookup_interleaved [OF _ si read others run v w] read run w show ?thesis
    by simp
qed

text \<open>
  \<open>deref\<close> has two sections as well: the atomic decrement, and the removal under the write
  lock. Nothing is checked again in the second one.

  C4: The window between the decrement and the removal loses a live head. When the last
  reference is dropped and another thread looks the digest up before the removal, that
  thread is handed the head, with reference count one, and then the removal takes it out of
  the table: the digest is no longer found although a reference on its head is held.
\<close>

theorem critbit_deref_window:
  assumes inv: "critbit_inv h root" and si: "spec_inv (critbit_contents h root, h)"
    and last: "h r = Some oh" "oh_refcnt oh = 1"
    and dec: "heap_dec h r = (c, h1)"
    and look: "critbit_lookup root h1 (oh_digest oh) n = (root2, h2, r2, u)"
  shows "c = 0 \<and> r2 = r \<and> u = Some n \<and> (\<exists>oh2. h2 r = Some oh2 \<and> oh_refcnt oh2 = 1) \<and>
    critbit_contents h2 (critbit_unlink root2 h2 (oh_digest oh)) (oh_digest oh) = None"
proof -
  have d: "head_digest h r = oh_digest oh" using last by (simp add: head_digest_def)
  have h1: "h1 = snd (heap_dec h r)" "c = 0" "h1 r = Some (oh\<lparr>oh_refcnt := 0\<rparr>)"
    using dec heap_dec_eq [of h r oh, OF last(1)] last by auto
  have in_table: "critbit_contents h root (oh_digest oh) = Some r"
    using spec_inv_live [of "critbit_contents h root" h r oh, OF si last(1)] last(2) by simp
  then have "critbit_contents h1 root (oh_digest oh) = Some r" by (simp add: h1)
  with look have res: "root2 = root" "h2 = heap_inc h1 r" "r2 = r" "u = Some n"
    by (auto simp: critbit_lookup_hit)
  have inv2: "critbit_inv h2 root" using inv by (simp add: res h1)
  have d2: "head_digest h2 r = oh_digest oh" using d by (simp add: res h1)
  from in_table inv obtain t where t: "root = Some t" "r \<in> leaves t"
    by (cases root) (auto simp: critbit_contents_Some_iff)
  obtain t' where t': "remove_node h2 t (oh_digest oh) = (t', Some r)" "critbit_inv h2 t'"
    "leaves_opt t' = leaves t - {r}"
    using remove_node_found [of h2 t r "oh_digest oh"] inv2 t d2 by auto
  have "critbit_contents h2 t' = (critbit_contents h2 root)(oh_digest oh := None)"
    using critbit_contents_del [OF inv2 t'(2), of r] t' t d2 by simp
  moreover have "h2 r = Some (oh\<lparr>oh_refcnt := 1\<rparr>)"
    using heap_inc_eq [of h1 r "oh\<lparr>oh_refcnt := 0\<rparr>", OF h1(3)] by (simp add: res)
  ultimately show ?thesis
    using h1 res t t' by (simp add: critbit_unlink_def)
qed

theorem critbit_deref_window_witness:
  "\<exists>h1 root2 h2. heap_dec [0 \<mapsto> (objhead_new (make_digest 7))\<lparr>oh_refcnt := 1\<rparr>] 0 = (0, h1) \<and>
     critbit_lookup (Some (CLeaf 0)) h1 (make_digest 7) 1 = (root2, h2, 0, Some 1) \<and>
     critbit_contents h2 (critbit_unlink root2 h2 (make_digest 7)) (make_digest 7) = None"
proof -
  let ?oh = "(objhead_new (make_digest 7))\<lparr>oh_refcnt := 1\<rparr>"
  let ?h = "[0 \<mapsto> ?oh] :: oh_heap"
  have si: "spec_inv (critbit_contents ?h (Some (CLeaf 0)), ?h)"
    by (rule spec_invI)
      (auto simp: critbit_contents_def head_digest_def objhead_new_def split: if_splits)
  obtain c h1 where dec: "heap_dec ?h 0 = (c, h1)" by (metis surj_pair)
  obtain root2 h2 r2 u where look: "critbit_lookup (Some (CLeaf 0)) h1 (make_digest 7) 1 = (root2, h2, r2, u)"
    by (metis surj_pair)
  have d: "oh_digest ?oh = make_digest 7" by (simp add: objhead_new_def)
  have "c = 0 \<and> r2 = 0 \<and> u = Some 1 \<and>
      critbit_contents h2 (critbit_unlink root2 h2 (make_digest 7)) (make_digest 7) = None"
    using critbit_deref_window [OF _ si _ _ dec, of ?oh 1 root2 h2 r2 u] look d by simp
  with dec look show ?thesis by blast
qed

end
