(* ===== verification/Linked_Lists.thy ===== *)
theory Linked_Lists
  imports Rust_Prelude "HOL-Library.Monad_Syntax"
begin

text \<open>
  Doubly linked lists, as the two LRU trackers of the program use them: the index-based list of
  \<^verbatim>\<open>rv-storage/src/lru.rs\<close> and the raw-pointer list of \<^verbatim>\<open>rv-cache/src/lru.rs\<close>.

  A list is given by its successor and predecessor functions; \<open>links\<close> says that a sequence of
  addresses is chained through both.  The lemmas give the effect of the three pointer updates the
  code performs: unlinking a node, pushing one in front, pushing one at the end.  The second half
  is the interface \<open>recency_list\<close> that both trackers implement, with the facts that hold of every
  implementation.
\<close>

section \<open>Chains of nodes\<close>

fun first_of :: "'p list \<Rightarrow> 'p option \<Rightarrow> 'p option" where
  "first_of [] q = q"
| "first_of (x # xs) q = Some x"

definition last_of :: "'p option \<Rightarrow> 'p list \<Rightarrow> 'p option" where
  "last_of p xs = (if xs = [] then p else Some (last xs))"

fun links :: "('p \<Rightarrow> 'p option) \<Rightarrow> ('p \<Rightarrow> 'p option) \<Rightarrow> 'p option \<Rightarrow> 'p list \<Rightarrow> 'p option \<Rightarrow> bool" where
  "links nx pr p [] q \<longleftrightarrow> True"
| "links nx pr p (x # xs) q \<longleftrightarrow> pr x = p \<and> nx x = first_of xs q \<and> links nx pr (Some x) xs q"

lemma last_of_Nil [simp]: "last_of p [] = p"
  by (simp add: last_of_def)

lemma last_of_Cons [simp]: "last_of p (x # xs) = last_of (Some x) xs"
  by (simp add: last_of_def)

lemma last_of_append [simp]: "last_of p (xs @ ys) = last_of (last_of p xs) ys"
  by (simp add: last_of_def)

lemma first_of_append [simp]: "first_of (xs @ ys) q = first_of xs (first_of ys q)"
  by (cases xs) simp_all

lemma links_append [simp]:
  "links nx pr p (xs @ ys) q \<longleftrightarrow>
     links nx pr p xs (first_of ys q) \<and> links nx pr (last_of p xs) ys q"
  by (induction xs arbitrary: p) auto

lemma links_cong:
  "(\<And>x. x \<in> set xs \<Longrightarrow> nx x = nx' x \<and> pr x = pr' x) \<Longrightarrow>
   links nx pr p xs q = links nx' pr' p xs q"
  by (induction xs arbitrary: p) auto

text \<open>Writes to nodes outside the chain do not disturb it.\<close>

lemma links_upd_other [simp]:
  "x \<notin> set xs \<Longrightarrow> links (nx(x := v)) pr p xs q = links nx pr p xs q"
  "x \<notin> set xs \<Longrightarrow> links nx (pr(x := v)) p xs q = links nx pr p xs q"
  by (rule links_cong; auto)+

text \<open>Redirecting the last node forward or the first node backward.\<close>

definition set_opt :: "('p \<Rightarrow> 'b) \<Rightarrow> 'p option \<Rightarrow> 'b \<Rightarrow> ('p \<Rightarrow> 'b)" where
  "set_opt f a v = (case a of None \<Rightarrow> f | Some x \<Rightarrow> f(x := v))"

lemma set_opt_simps [simp]:
  "set_opt f None v = f" "set_opt f (Some x) v = f(x := v)"
  by (simp_all add: set_opt_def)

lemma links_redirect_last:
  assumes "links nx pr p xs q" "distinct xs"
  shows "links (set_opt nx (last_of None xs) q') pr p xs q'"
proof (cases xs rule: rev_cases)
  case Nil
  then show ?thesis by simp
next
  case (snoc ys y)
  with assms show ?thesis by (simp add: last_of_def)
qed

lemma links_redirect_first:
  assumes "links nx pr p xs q" "distinct xs"
  shows "links nx (set_opt pr (first_of xs None) p') p' xs q"
  using assms by (cases xs) auto

lemma links_nodes:
  "links nx pr p (xs @ x # ys) q \<Longrightarrow> pr x = last_of p xs \<and> nx x = first_of ys q"
  by simp

text \<open>The updates of \<open>unlink\<close>: the neighbours are joined and the node's own links are cleared.\<close>

lemma links_unlink:
  assumes l: "links nx pr None (xs @ x # ys) None" and d: "distinct (xs @ x # ys)"
  shows "links ((set_opt nx (last_of None xs) (first_of ys None))(x := None))
               ((set_opt pr (first_of ys None) (last_of None xs))(x := None)) None (xs @ ys) None"
proof -
  let ?n = "first_of ys None" and ?p = "last_of None xs"
  let ?nx = "set_opt nx ?p ?n" and ?pr = "set_opt pr ?n ?p"
  from l have xs: "links nx pr None xs (Some x)" and ys: "links nx pr (Some x) ys None"
    by simp_all
  have out: "z \<notin> set xs \<Longrightarrow> ?nx z = nx z" "z \<notin> set ys \<Longrightarrow> ?pr z = pr z" for z
    by (auto simp: last_of_def) (cases ys; auto)+
  have "links ?nx pr None xs ?n"
    using links_redirect_last [OF xs] d by simp
  moreover have "links ?nx pr None xs ?n = links ?nx ?pr None xs ?n"
  proof (rule links_cong)
    fix z assume "z \<in> set xs"
    with d have "z \<notin> set ys" by auto
    then show "?nx z = ?nx z \<and> pr z = ?pr z" by (simp add: out)
  qed
  moreover have "links nx ?pr ?p ys None"
    using links_redirect_first [OF ys] d by simp
  moreover have "links nx ?pr ?p ys None = links ?nx ?pr ?p ys None"
  proof (rule links_cong)
    fix z assume "z \<in> set ys"
    with d have "z \<notin> set xs" by auto
    then show "nx z = ?nx z \<and> ?pr z = ?pr z" by (simp add: out)
  qed
  ultimately show ?thesis using d by simp
qed

lemma links_push_front:
  assumes "links nx pr None xs None" "distinct (x # xs)"
  shows "links (nx(x := first_of xs None)) ((set_opt pr (first_of xs None) (Some x))(x := None))
           None (x # xs) None"
    and "links (nx(x := first_of xs None)) (set_opt (pr(x := None)) (first_of xs None) (Some x))
           None (x # xs) None"
  using assms by (cases xs; auto)+

lemma links_push_back:
  assumes l: "links nx pr None xs None" and d: "distinct (xs @ [x])"
  shows "links (set_opt (nx(x := None)) (last_of None xs) (Some x)) (pr(x := last_of None xs))
           None (xs @ [x]) None"
proof (cases xs rule: rev_cases)
  case Nil
  then show ?thesis by simp
next
  case (snoc ys y)
  with l d show ?thesis by (auto simp: last_of_def)
qed

text \<open>Following the successor links from the first node lists the chain.\<close>

fun follow :: "nat \<Rightarrow> ('p \<Rightarrow> 'p option) \<Rightarrow> 'p option \<Rightarrow> 'p list" where
  "follow 0 nx a = []"
| "follow (Suc k) nx None = []"
| "follow (Suc k) nx (Some x) = x # follow k nx (nx x)"

lemma follow_None [simp]: "follow k nx None = []"
  by (cases k) simp_all

lemma follow_links:
  "links nx pr p xs None \<Longrightarrow> length xs \<le> k \<Longrightarrow> follow k nx (first_of xs None) = xs"
proof (induction xs arbitrary: p k)
  case (Cons x xs)
  then show ?case by (cases k) auto
qed simp

section \<open>The interface of a recency list\<close>

text \<open>
  \<open>order s\<close> lists the tracked handles from the least to the most recently used.  The operations
  are partial: \<open>None\<close> stands for an index out of bounds or a dereference of an unallocated node,
  and the laws say that it never happens.
\<close>

definition move_to_end :: "'h \<Rightarrow> 'h list \<Rightarrow> 'h list" where
  "move_to_end h hs = (if h \<in> set hs then removeAll h hs @ [h] else hs)"

lemma set_move_to_end [simp]: "set (move_to_end h hs) = set hs"
  by (auto simp: move_to_end_def)

lemma distinct_move_to_end [simp]: "distinct hs \<Longrightarrow> distinct (move_to_end h hs)"
  by (auto simp: move_to_end_def distinct_removeAll)

primrec evict_n :: "('s \<Rightarrow> ('s \<times> 'h option) option) \<Rightarrow> nat \<Rightarrow> 's \<Rightarrow> ('s \<times> 'h option list) option" where
  "evict_n evict 0 s = Some (s, [])"
| "evict_n evict (Suc n) s = do {
     (s', h) \<leftarrow> evict s;
     (s'', hs) \<leftarrow> evict_n evict n s';
     Some (s'', h # hs) }"

lemma rev_removeAll: "rev (removeAll x xs) = removeAll x (rev xs)"
  by (induction xs) auto

locale recency_list =
  fixes order :: "'s \<Rightarrow> 'h list"
    and inv :: "'s \<Rightarrow> bool"
    and touch :: "'s \<Rightarrow> 'h \<Rightarrow> 't \<Rightarrow> 's option"
    and remove :: "'s \<Rightarrow> 'h \<Rightarrow> 's option"
    and evict :: "'s \<Rightarrow> ('s \<times> 'h option) option"
  assumes order_distinct: "inv s \<Longrightarrow> distinct (order s)"
    and touch_law: "inv s \<Longrightarrow>
      \<exists>s'. touch s h t = Some s' \<and> inv s' \<and> order s' = move_to_end h (order s)"
    and remove_law: "inv s \<Longrightarrow>
      \<exists>s'. remove s h = Some s' \<and> inv s' \<and> order s' = removeAll h (order s)"
    and evict_law: "inv s \<Longrightarrow>
      \<exists>s'. evict s = Some (s', first_of (order s) None) \<and> inv s' \<and> order s' = tl (order s)"
begin

text \<open>Evicting as often as there are entries returns them in order and empties the list.\<close>

lemma evict_n_order:
  "inv s \<Longrightarrow> \<exists>s'. evict_n evict n s = Some (s', map Some (take n (order s)) @ replicate (n - length (order s)) None)
     \<and> inv s' \<and> order s' = drop n (order s)"
proof (induction n arbitrary: s)
  case (Suc n)
  from evict_law [OF Suc.prems] obtain s1 where
    s1: "evict s = Some (s1, first_of (order s) None)" "inv s1" "order s1 = tl (order s)"
    by blast
  from Suc.IH [OF s1(2)] obtain s2 where
    "evict_n evict n s1 = Some (s2, map Some (take n (order s1)) @ replicate (n - length (order s1)) None)"
    "inv s2" "order s2 = drop n (order s1)"
    by blast
  with s1 show ?case by (cases "order s") (auto simp: drop_Suc)
qed simp

text \<open>A handle that was just touched is the last one to be evicted.\<close>

lemma touched_evicted_last:
  assumes "inv s" and "h \<in> set (order s)"
  shows "\<exists>s1 s2 hs. touch s h t = Some s1 \<and> evict_n evict (length (order s)) s1 = Some (s2, map Some hs @ [Some h])
           \<and> h \<notin> set hs \<and> order s2 = []"
proof -
  from touch_law [OF assms(1), of h t] obtain s1 where
    s1: "touch s h t = Some s1" "inv s1" "order s1 = move_to_end h (order s)"
    by blast
  have len: "length (order s1) = length (order s)"
    using order_distinct [OF s1(2)] order_distinct [OF assms(1)]
    by (metis s1(3) distinct_card set_move_to_end)
  from evict_n_order [OF s1(2), of "length (order s1)"] obtain s2 where
    "evict_n evict (length (order s1)) s1 = Some (s2, map Some (order s1))" "order s2 = []"
    by auto
  with s1 assms(2) len show ?thesis
    by (intro exI [of _ s1] exI [of _ s2] exI [of _ "removeAll h (order s)"])
       (simp add: move_to_end_def)
qed

end

end
