(* ===== verification/Storage_Lru.thy ===== *)
theory Storage_Lru
  imports Linked_Lists
begin

text \<open>
  The index-based LRU list of \<^verbatim>\<open>rv-storage/src/lru.rs\<close>: a vector of entries chained by indices,
  with a free list of slots.  Every operation is translated with its vector accesses; an access
  out of bounds is a panic, the value \<open>None\<close>.  \<open>lru_repr l ps\<close> says that the record represents the
  sequence \<open>ps\<close> of slots, most recently used first, and the last section shows that the list
  implements the interface \<open>recency_list\<close>, so that in particular no operation panics.
\<close>

section \<open>The list\<close>

record lru_entry =
  le_key :: u64
  le_prev :: "nat option"
  le_next :: "nat option"
  le_active :: bool

record lru =
  lru_entries :: "lru_entry list"
  lru_head :: "nat option"
  lru_tail :: "nat option"
  lru_len :: nat
  lru_free :: "nat list"

definition lru_new :: lru where
  "lru_new = \<lparr>lru_entries = [], lru_head = None, lru_tail = None, lru_len = 0, lru_free = []\<rparr>"

definition lru_is_empty :: "lru \<Rightarrow> bool" where
  "lru_is_empty l \<longleftrightarrow> lru_len l = 0"

definition lru_alloc :: "lru \<Rightarrow> lru_entry \<Rightarrow> (nat \<times> lru_entry list \<times> nat list) option" where
  "lru_alloc l e =
     (if lru_free l \<noteq> [] then do {
        es \<leftarrow> vec_set (lru_entries l) (last (lru_free l)) e;
        Some (last (lru_free l), es, butlast (lru_free l)) }
      else Some (length (lru_entries l), lru_entries l @ [e], lru_free l))"

definition lru_insert :: "lru \<Rightarrow> u64 \<Rightarrow> (lru \<times> nat) option" where
  "lru_insert l key = do {
     (idx, es, fl) \<leftarrow> lru_alloc l
        \<lparr>le_key = key, le_prev = None, le_next = lru_head l, le_active = True\<rparr>;
     es' \<leftarrow> (case lru_head l of None \<Rightarrow> Some es
             | Some old_head \<Rightarrow> vec_mod es old_head (\<lambda>e. e\<lparr>le_prev := Some idx\<rparr>));
     Some (l\<lparr>lru_entries := es', lru_head := Some idx,
             lru_tail := (if lru_tail l = None then Some idx else lru_tail l),
             lru_len := Suc (lru_len l), lru_free := fl\<rparr>, idx) }"

definition lru_unlink :: "lru \<Rightarrow> nat \<Rightarrow> lru option" where
  "lru_unlink l idx = do {
     e \<leftarrow> vec_get (lru_entries l) idx;
     l1 \<leftarrow> (case le_prev e of
         Some p \<Rightarrow> do {
           es \<leftarrow> vec_mod (lru_entries l) p (\<lambda>x. x\<lparr>le_next := le_next e\<rparr>);
           Some (l\<lparr>lru_entries := es\<rparr>) }
       | None \<Rightarrow> Some (l\<lparr>lru_head := le_next e\<rparr>));
     l2 \<leftarrow> (case le_next e of
         Some n \<Rightarrow> do {
           es \<leftarrow> vec_mod (lru_entries l1) n (\<lambda>x. x\<lparr>le_prev := le_prev e\<rparr>);
           Some (l1\<lparr>lru_entries := es\<rparr>) }
       | None \<Rightarrow> Some (l1\<lparr>lru_tail := le_prev e\<rparr>));
     es \<leftarrow> vec_mod (lru_entries l2) idx (\<lambda>x. x\<lparr>le_prev := None, le_next := None\<rparr>);
     Some (l2\<lparr>lru_entries := es\<rparr>) }"

definition lru_active :: "lru \<Rightarrow> nat \<Rightarrow> bool" where
  "lru_active l idx \<longleftrightarrow> idx < length (lru_entries l) \<and> le_active (lru_entries l ! idx)"

definition lru_touch :: "lru \<Rightarrow> nat \<Rightarrow> lru option" where
  "lru_touch l idx =
     (if \<not> lru_active l idx then Some l
      else if lru_head l = Some idx then Some l
      else do {
        l1 \<leftarrow> lru_unlink l idx;
        es \<leftarrow> vec_mod (lru_entries l1) idx (\<lambda>x. x\<lparr>le_prev := None, le_next := lru_head l1\<rparr>);
        es' \<leftarrow> (case lru_head l1 of None \<Rightarrow> Some es
                | Some old_head \<Rightarrow> vec_mod es old_head (\<lambda>x. x\<lparr>le_prev := Some idx\<rparr>));
        Some (l1\<lparr>lru_entries := es', lru_head := Some idx,
                 lru_tail := (if lru_tail l1 = None then Some idx else lru_tail l1)\<rparr>) })"

definition lru_remove :: "lru \<Rightarrow> nat \<Rightarrow> (lru \<times> u64 option) option" where
  "lru_remove l idx =
     (if \<not> lru_active l idx then Some (l, None)
      else do {
        l1 \<leftarrow> lru_unlink l idx;
        es \<leftarrow> vec_mod (lru_entries l1) idx (\<lambda>x. x\<lparr>le_active := False\<rparr>);
        e \<leftarrow> vec_get es idx;
        Some (l1\<lparr>lru_entries := es, lru_len := lru_len l1 - 1, lru_free := lru_free l1 @ [idx]\<rparr>,
              Some (le_key e)) })"

definition lru_evict_oldest :: "lru \<Rightarrow> (lru \<times> u64 option) option" where
  "lru_evict_oldest l =
     (case lru_tail l of None \<Rightarrow> Some (l, None) | Some tail_idx \<Rightarrow> lru_remove l tail_idx)"

definition lru_peek :: "lru \<Rightarrow> nat option \<Rightarrow> u64 option option" where
  "lru_peek l at =
     (case at of None \<Rightarrow> Some None
      | Some idx \<Rightarrow> map_option (Some \<circ> le_key) (vec_get (lru_entries l) idx))"

definition lru_peek_newest :: "lru \<Rightarrow> u64 option option" where
  "lru_peek_newest l = lru_peek l (lru_head l)"

definition lru_peek_oldest :: "lru \<Rightarrow> u64 option option" where
  "lru_peek_oldest l = lru_peek l (lru_tail l)"

section \<open>Representation\<close>

abbreviation nexts :: "lru_entry list \<Rightarrow> nat \<Rightarrow> nat option" where
  "nexts es \<equiv> \<lambda>i. le_next (es ! i)"

abbreviation prevs :: "lru_entry list \<Rightarrow> nat \<Rightarrow> nat option" where
  "prevs es \<equiv> \<lambda>i. le_prev (es ! i)"

definition lru_chain :: "lru \<Rightarrow> nat list \<Rightarrow> bool" where
  "lru_chain l ps \<longleftrightarrow> distinct ps \<and> set ps \<subseteq> {..<length (lru_entries l)} \<and>
     links (nexts (lru_entries l)) (prevs (lru_entries l)) None ps None \<and>
     lru_head l = first_of ps None \<and> lru_tail l = last_of None ps"

definition lru_slots :: "lru \<Rightarrow> nat list \<Rightarrow> bool" where
  "lru_slots l ps \<longleftrightarrow> lru_len l = length ps \<and>
     set ps = {i. lru_active l i} \<and>
     distinct (lru_free l) \<and>
     set (lru_free l) = {i. i < length (lru_entries l) \<and> \<not> le_active (lru_entries l ! i)}"

definition lru_repr :: "lru \<Rightarrow> nat list \<Rightarrow> bool" where
  "lru_repr l ps \<longleftrightarrow> lru_chain l ps \<and> lru_slots l ps"

text \<open>The slots in use, most recently used first, read off by following the indices.\<close>

definition lru_order :: "lru \<Rightarrow> nat list" where
  "lru_order l = follow (length (lru_entries l)) (nexts (lru_entries l)) (lru_head l)"

definition lru_inv :: "lru \<Rightarrow> bool" where
  "lru_inv l \<longleftrightarrow> lru_repr l (lru_order l)"

definition lru_keys :: "lru \<Rightarrow> u64 list" where
  "lru_keys l = map (\<lambda>i. le_key (lru_entries l ! i)) (lru_order l)"

lemma lru_repr_order: "lru_repr l ps \<Longrightarrow> lru_order l = ps"
proof -
  assume r: "lru_repr l ps"
  then have "card (set ps) \<le> card {..<length (lru_entries l)}"
    unfolding lru_repr_def lru_chain_def by (intro card_mono) auto
  then have "length ps \<le> length (lru_entries l)"
    using r by (simp add: lru_repr_def lru_chain_def distinct_card)
  with r show ?thesis
    unfolding lru_order_def lru_repr_def lru_chain_def by (auto intro: follow_links)
qed

lemma lru_reprI: "lru_repr l ps \<Longrightarrow> lru_inv l \<and> lru_order l = ps"
  using lru_repr_order by (auto simp: lru_inv_def)

lemma lru_fields_upd [simp]:
  "i < length es \<Longrightarrow> nexts (es[i := e]) = (nexts es)(i := le_next e)"
  "i < length es \<Longrightarrow> prevs (es[i := e]) = (prevs es)(i := le_prev e)"
  "(nexts es)(i := le_next (es ! i)) = nexts es"
  "(prevs es)(i := le_prev (es ! i)) = prevs es"
  by (auto simp: fun_eq_iff nth_list_update)

text \<open>What no relinking of entries touches.\<close>

definition same_slots :: "lru \<Rightarrow> lru \<Rightarrow> bool" where
  "same_slots l l' \<longleftrightarrow> length (lru_entries l') = length (lru_entries l) \<and>
     (\<forall>i. le_key (lru_entries l' ! i) = le_key (lru_entries l ! i)) \<and>
     (\<forall>i. le_active (lru_entries l' ! i) = le_active (lru_entries l ! i)) \<and>
     lru_len l' = lru_len l \<and> lru_free l' = lru_free l"

lemma key_upd: "le_key v = le_key (es ! i) \<Longrightarrow> le_key (es[i := v] ! j) = le_key (es ! j)"
  by (cases "i = j"; cases "i < length es") (auto simp: list_update_beyond)

lemma active_upd: "le_active v = le_active (es ! i) \<Longrightarrow> le_active (es[i := v] ! j) = le_active (es ! j)"
  by (cases "i = j"; cases "i < length es") (auto simp: list_update_beyond)

lemma same_slots_refl [simp]: "same_slots l l"
  by (simp add: same_slots_def)

lemma same_slots_trans: "same_slots l l' \<Longrightarrow> same_slots l' l'' \<Longrightarrow> same_slots l l''"
  by (simp add: same_slots_def)

lemma same_slots_lru_slots: "same_slots l l' \<Longrightarrow> mset ps = mset ps' \<Longrightarrow> lru_slots l ps \<Longrightarrow> lru_slots l' ps'"
  using mset_eq_length [of ps ps'] mset_eq_setD [of ps ps']
  by (auto simp: same_slots_def lru_slots_def lru_active_def)

lemma lru_chain_link:
  assumes "lru_chain l (xs @ x # ys)"
  shows "x < length (lru_entries l)"
    and "le_prev (lru_entries l ! x) = last_of None xs"
    and "le_next (lru_entries l ! x) = first_of ys None"
  using assms by (auto simp: lru_chain_def)

lemma lru_unlink_chain:
  assumes c: "lru_chain l (xs @ x # ys)"
  obtains l' where "lru_unlink l x = Some l'" "lru_chain l' (xs @ ys)" "same_slots l l'"
proof -
  let ?es = "lru_entries l" and ?p = "last_of None xs" and ?n = "first_of ys None"
  note x = lru_chain_link [OF c]
  from c have d: "distinct (xs @ x # ys)" and r: "set (xs @ x # ys) \<subseteq> {..<length ?es}"
    and lk: "links (nexts ?es) (prevs ?es) None (xs @ x # ys) None"
    by (simp_all add: lru_chain_def)
  have p: "?p = Some a \<Longrightarrow> a < length ?es \<and> a \<noteq> x \<and> a \<in> set xs" for a
    using r d by (auto simp: last_of_def split: if_splits dest!: last_in_set)
  have n: "?n = Some b \<Longrightarrow> b < length ?es \<and> b \<noteq> x \<and> b \<in> set ys" for b
    using r d by (cases ys) auto
  have pn: "?p = Some a \<Longrightarrow> ?n = Some b \<Longrightarrow> a \<noteq> b" for a b
    using p n d by fastforce
  define es1 where "es1 = (case ?p of None \<Rightarrow> ?es | Some a \<Rightarrow> ?es[a := (?es ! a)\<lparr>le_next := ?n\<rparr>])"
  define es2 where "es2 = (case ?n of None \<Rightarrow> es1 | Some b \<Rightarrow> es1[b := (es1 ! b)\<lparr>le_prev := ?p\<rparr>])"
  define es3 where "es3 = es2[x := (es2 ! x)\<lparr>le_prev := None, le_next := None\<rparr>]"
  let ?l' = "l\<lparr>lru_entries := es3, lru_head := (if ?p = None then ?n else lru_head l),
               lru_tail := (if ?n = None then ?p else lru_tail l)\<rparr>"
  have len: "length es1 = length ?es" "length es2 = length ?es" "length es3 = length ?es"
    by (simp_all add: es1_def es2_def es3_def split: option.splits)
  have nx1: "nexts es1 = set_opt (nexts ?es) ?p ?n" and pr1: "prevs es1 = prevs ?es"
    using p by (auto simp: es1_def split: option.splits)
  have nx2: "nexts es2 = nexts es1" and pr2: "prevs es2 = set_opt (prevs es1) ?n ?p"
    using n len by (auto simp: es2_def split: option.splits)
  have fields: "nexts es3 = (set_opt (nexts ?es) ?p ?n)(x := None)"
      "prevs es3 = (set_opt (prevs ?es) ?n ?p)(x := None)"
    using x len by (simp_all add: es3_def nx1 nx2 pr1 pr2)
  have "lru_unlink l x = Some ?l'"
    using x p n len
    by (cases ?p; cases ?n) (auto simp: lru_unlink_def es1_def es2_def es3_def)
  moreover have "lru_chain ?l' (xs @ ys)"
    unfolding lru_chain_def
  proof (intro conjI)
    show "distinct (xs @ ys)" using d by simp
    show "set (xs @ ys) \<subseteq> {..<length (lru_entries ?l')}" using r len by simp
    show "links (nexts (lru_entries ?l')) (prevs (lru_entries ?l')) None (xs @ ys) None"
      using links_unlink [OF lk d] by (simp add: fields)
    show "lru_head ?l' = first_of (xs @ ys) None"
      using c by (cases xs) (auto simp: lru_chain_def last_of_def)
    show "lru_tail ?l' = last_of None (xs @ ys)"
      using c by (cases ys) (auto simp: lru_chain_def)
  qed
  moreover have "same_slots l ?l'"
    using len by (auto simp: same_slots_def es1_def es2_def es3_def key_upd active_upd split: option.splits)
  ultimately show ?thesis by (rule that)
qed

text \<open>Linking a written slot in front of the chain, the common end of \<open>insert\<close> and \<open>touch\<close>.\<close>

lemma lru_push_chain:
  assumes c: "lru_chain l ps" and x: "x \<notin> set ps" "x < length es"
    and es: "set ps \<subseteq> {..<length es}" "\<And>i. i \<in> set ps \<Longrightarrow> es ! i = lru_entries l ! i"
    and e: "le_prev (es ! x) = None" "le_next (es ! x) = lru_head l"
  obtains es' where
    "(case lru_head l of None \<Rightarrow> Some es
      | Some h \<Rightarrow> vec_mod es h (\<lambda>e. e\<lparr>le_prev := Some x\<rparr>)) = Some es'"
    "lru_chain (l\<lparr>lru_entries := es', lru_head := Some x,
       lru_tail := (if lru_tail l = None then Some x else lru_tail l), lru_len := k, lru_free := fl\<rparr>) (x # ps)"
    "length es' = length es" "\<And>i. le_key (es' ! i) = le_key (es ! i)"
    "\<And>i. le_active (es' ! i) = le_active (es ! i)"
proof -
  let ?h = "first_of ps None"
  define es' where "es' = (case ?h of None \<Rightarrow> es | Some h \<Rightarrow> es[h := (es ! h)\<lparr>le_prev := Some x\<rparr>])"
  from c have d: "distinct (x # ps)" and hd: "lru_head l = ?h" and tl: "lru_tail l = last_of None ps"
    and lk: "links (nexts (lru_entries l)) (prevs (lru_entries l)) None ps None"
    using x by (auto simp: lru_chain_def)
  have h: "?h = Some b \<Longrightarrow> b < length es \<and> b \<noteq> x" for b
    using es(1) x by (cases ps) auto
  have lk': "links (nexts es) (prevs es) None ps None"
    using lk links_cong [of ps "nexts es" "nexts (lru_entries l)" "prevs es" "prevs (lru_entries l)"] es(2)
    by auto
  have nx: "nexts es' = (nexts es)(x := ?h)"
    using h e hd by (auto simp: es'_def fun_eq_iff nth_list_update split: option.splits)
  have pr: "prevs es' = set_opt ((prevs es)(x := None)) ?h (Some x)"
    using h e by (auto simp: es'_def fun_eq_iff nth_list_update split: option.splits)
  show ?thesis
  proof (rule that [of es'])
    show "(case lru_head l of None \<Rightarrow> Some es
      | Some h \<Rightarrow> vec_mod es h (\<lambda>e. e\<lparr>le_prev := Some x\<rparr>)) = Some es'"
      using h by (auto simp: hd es'_def split: option.splits)
    show "length es' = length es" by (simp add: es'_def split: option.splits)
    then show "lru_chain (l\<lparr>lru_entries := es', lru_head := Some x,
       lru_tail := (if lru_tail l = None then Some x else lru_tail l), lru_len := k, lru_free := fl\<rparr>) (x # ps)"
      using links_push_front(2) [OF lk' d] d es(1) x
      by (auto simp: lru_chain_def nx pr tl last_of_def)
    show "le_key (es' ! i) = le_key (es ! i)" "le_active (es' ! i) = le_active (es ! i)" for i
      by (simp_all add: es'_def key_upd active_upd split: option.splits)
  qed
qed

section \<open>The operations on the represented sequence\<close>

lemma lru_new_repr: "lru_repr lru_new []"
  by (simp add: lru_repr_def lru_chain_def lru_slots_def lru_active_def lru_new_def)

lemma lru_active_iff: "lru_repr l ps \<Longrightarrow> lru_active l i \<longleftrightarrow> i \<in> set ps"
  by (auto simp: lru_repr_def lru_slots_def)

lemma lru_alloc_repr:
  assumes r: "lru_repr l ps"
  obtains x es fl where "lru_alloc l e = Some (x, es, fl)" "x \<notin> set ps" "x < length es"
    "es ! x = e" "set ps \<subseteq> {..<length es}" "\<And>i. i \<noteq> x \<Longrightarrow> i < length (lru_entries l) \<Longrightarrow> es ! i = lru_entries l ! i"
    "distinct fl" "insert x (set fl) = insert x (set (lru_free l))" "x \<notin> set fl"
    "{..<length es} = insert x {..<length (lru_entries l)}"
proof (cases "lru_free l = []")
  case True
  with r show ?thesis
    by (intro that [of "length (lru_entries l)" "lru_entries l @ [e]" "[]"])
       (auto simp: lru_alloc_def lru_repr_def lru_chain_def nth_append)
next
  case False
  let ?x = "last (lru_free l)"
  from r have fr: "distinct (lru_free l)"
      "set (lru_free l) = {i. i < length (lru_entries l) \<and> \<not> le_active (lru_entries l ! i)}"
      "set ps \<subseteq> {..<length (lru_entries l)}"
    unfolding lru_repr_def lru_slots_def lru_chain_def by blast+
  from False have in_free: "?x \<in> set (lru_free l)" by simp
  with fr have x: "?x < length (lru_entries l)" "\<not> le_active (lru_entries l ! ?x)" by auto
  then have "?x \<notin> set ps" using lru_active_iff [OF r, of ?x] by (simp add: lru_active_def)
  moreover have sp: "lru_free l = butlast (lru_free l) @ [?x]" using False by simp
  then have "distinct (butlast (lru_free l)) \<and> ?x \<notin> set (butlast (lru_free l))"
    and "set (lru_free l) = insert ?x (set (butlast (lru_free l)))"
    using fr(1) by (metis distinct_butlast not_distinct_conv_prefix append_Nil2,
      metis set_append list.simps(15) Un_insert_right empty_set sup_bot.right_neutral)
  ultimately show ?thesis
    using False x fr(3)
    by (intro that [of ?x "(lru_entries l)[?x := e]" "butlast (lru_free l)"])
       (auto simp: lru_alloc_def)
qed

lemma lru_insert_repr:
  assumes r: "lru_repr l ps"
  obtains l' x where "lru_insert l key = Some (l', x)" "lru_repr l' (x # ps)" "x \<notin> set ps"
    "le_key (lru_entries l' ! x) = key"
    "\<And>i. i \<in> set ps \<Longrightarrow> le_key (lru_entries l' ! i) = le_key (lru_entries l ! i)"
proof -
  let ?e = "\<lparr>le_key = key, le_prev = None, le_next = lru_head l, le_active = True\<rparr>"
  from lru_alloc_repr [OF r, of ?e] obtain x es fl where
    al: "lru_alloc l ?e = Some (x, es, fl)" and x: "x \<notin> set ps" "x < length es" "es ! x = ?e"
    and ps: "set ps \<subseteq> {..<length es}" "\<And>i. i \<noteq> x \<Longrightarrow> i < length (lru_entries l) \<Longrightarrow> es ! i = lru_entries l ! i"
    and fl: "distinct fl" "insert x (set fl) = insert x (set (lru_free l))" "x \<notin> set fl"
    and es: "{..<length es} = insert x {..<length (lru_entries l)}"
    by metis
  from r have c: "lru_chain l ps" and sl: "lru_slots l ps" by (simp_all add: lru_repr_def)
  then have ps': "i \<in> set ps \<Longrightarrow> es ! i = lru_entries l ! i" for i
    using ps(2) [of i] x(1) unfolding lru_chain_def by (metis lessThan_iff subsetD)
  obtain es' where es':
    "(case lru_head l of None \<Rightarrow> Some es
      | Some h \<Rightarrow> vec_mod es h (\<lambda>e. e\<lparr>le_prev := Some x\<rparr>)) = Some es'"
    "lru_chain (l\<lparr>lru_entries := es', lru_head := Some x,
       lru_tail := (if lru_tail l = None then Some x else lru_tail l),
       lru_len := Suc (lru_len l), lru_free := fl\<rparr>) (x # ps)"
    "length es' = length es" "\<And>i. le_key (es' ! i) = le_key (es ! i)"
    "\<And>i. le_active (es' ! i) = le_active (es ! i)"
    by (rule lru_push_chain [OF c x(1,2) ps(1), where k = "Suc (lru_len l)" and fl = fl])
       (simp_all add: ps' x(3))
  define l' where "l' = l\<lparr>lru_entries := es', lru_head := Some x,
       lru_tail := (if lru_tail l = None then Some x else lru_tail l),
       lru_len := Suc (lru_len l), lru_free := fl\<rparr>"
  have bound: "i < length es \<longleftrightarrow> i = x \<or> i < length (lru_entries l)" for i
    using es by (metis insert_iff lessThan_iff)
  have active: "lru_active l i \<longleftrightarrow> i \<in> set ps" for i
    by (rule lru_active_iff [OF r])
  have act: "i < length es \<and> le_active (es ! i) \<longleftrightarrow> i \<in> set (x # ps)" for i
  proof (cases "i = x")
    case False
    with bound [of i] ps(2) [of i] active [of i] show ?thesis by (auto simp: lru_active_def)
  qed (use x in simp)
  have free: "i \<in> set fl \<longleftrightarrow> i < length es \<and> \<not> le_active (es ! i)" for i
  proof (cases "i = x")
    case False
    then have "i \<in> set fl \<longleftrightarrow> i \<in> set (lru_free l)" using fl(2) by blast
    also have "\<dots> \<longleftrightarrow> i < length (lru_entries l) \<and> \<not> le_active (lru_entries l ! i)"
      using sl unfolding lru_slots_def by blast
    finally show ?thesis using False bound [of i] ps(2) [of i] by auto
  qed (use fl(3) x in simp)
  have "lru_len l = length ps" using sl unfolding lru_slots_def by blast
  then have "lru_slots l' (x # ps)"
    using fl(1) act free es'(3,5)
    unfolding lru_slots_def lru_active_def l'_def by (simp add: set_eq_iff)
  moreover have "lru_chain l' (x # ps)" using es'(2) by (simp add: l'_def)
  ultimately have "lru_repr l' (x # ps)" by (simp add: lru_repr_def)
  moreover have "lru_insert l key = Some (l', x)"
    using al es'(1) by (simp add: lru_insert_def l'_def)
  ultimately show ?thesis
    using that [of l' x] x ps' es'(4) by (simp add: l'_def)
qed

lemma lru_touch_repr:
  assumes r: "lru_repr l ps" and x: "x \<in> set ps"
  obtains l' where "lru_touch l x = Some l'" "lru_repr l' (x # removeAll x ps)" "same_slots l l'"
proof (cases "lru_head l = Some x")
  case True
  with r x have "ps = x # removeAll x ps"
    by (cases ps) (auto simp: lru_repr_def lru_chain_def)
  with True r show ?thesis by (intro that [of l]) (auto simp: lru_touch_def)
next
  case False
  from x r obtain xs ys where ps: "ps = xs @ x # ys" and d: "distinct (xs @ x # ys)"
    by (metis split_list lru_chain_def lru_repr_def)
  then have rem: "removeAll x ps = xs @ ys" by auto
  from r ps have "lru_chain l (xs @ x # ys)" by (simp add: lru_repr_def)
  then obtain l1 where l1: "lru_unlink l x = Some l1" "lru_chain l1 (xs @ ys)" "same_slots l l1"
    by (rule lru_unlink_chain)
  let ?es = "(lru_entries l1)[x := (lru_entries l1 ! x)\<lparr>le_prev := None, le_next := lru_head l1\<rparr>]"
  have xl: "x < length (lru_entries l1)"
    using r ps l1(3) by (auto simp: lru_repr_def lru_chain_def same_slots_def)
  obtain es' where es':
    "(case lru_head l1 of None \<Rightarrow> Some ?es
      | Some h \<Rightarrow> vec_mod ?es h (\<lambda>e. e\<lparr>le_prev := Some x\<rparr>)) = Some es'"
    "lru_chain (l1\<lparr>lru_entries := es', lru_head := Some x,
       lru_tail := (if lru_tail l1 = None then Some x else lru_tail l1),
       lru_len := lru_len l1, lru_free := lru_free l1\<rparr>) (x # xs @ ys)"
    "length es' = length ?es" "\<And>i. le_key (es' ! i) = le_key (?es ! i)"
    "\<And>i. le_active (es' ! i) = le_active (?es ! i)"
  proof (rule lru_push_chain [OF l1(2), where x = x and es = ?es
      and k = "lru_len l1" and fl = "lru_free l1"])
    show "x \<notin> set (xs @ ys)" using d by simp
    show "set (xs @ ys) \<subseteq> {..<length ?es}" using l1(2) by (simp add: lru_chain_def)
    show "?es ! i = lru_entries l1 ! i" if "i \<in> set (xs @ ys)" for i
      using that d by (cases "i = x") auto
  qed (use xl in simp_all)
  let ?l' = "l1\<lparr>lru_entries := es', lru_head := Some x,
       lru_tail := (if lru_tail l1 = None then Some x else lru_tail l1)\<rparr>"
  have touch: "lru_touch l x = Some ?l'"
    using False l1(1) es'(1) xl lru_active_iff [OF r] x by (simp add: lru_touch_def)
  have "same_slots l1 ?l'"
    using es'(3,4,5) by (simp add: same_slots_def key_upd active_upd)
  with l1(3) have same: "same_slots l ?l'" by (rule same_slots_trans)
  moreover have "lru_slots ?l' (x # xs @ ys)"
    using r ps by (intro same_slots_lru_slots [OF same, of ps]) (auto simp: lru_repr_def)
  ultimately show ?thesis
    using touch es'(2) by (intro that [of ?l']) (simp_all add: rem lru_repr_def)
qed

lemma lru_remove_repr:
  assumes r: "lru_repr l ps" and x: "x \<in> set ps"
  obtains l' where "lru_remove l x = Some (l', Some (le_key (lru_entries l ! x)))"
    "lru_repr l' (removeAll x ps)" "\<And>i. le_key (lru_entries l' ! i) = le_key (lru_entries l ! i)"
proof -
  from x r obtain xs ys where ps: "ps = xs @ x # ys" and d: "distinct (xs @ x # ys)"
    by (metis split_list lru_chain_def lru_repr_def)
  then have rem: "removeAll x ps = xs @ ys" by auto
  from r ps have c: "lru_chain l (xs @ x # ys)" and sl: "lru_slots l (xs @ x # ys)"
    by (simp_all add: lru_repr_def)
  from c obtain l1 where l1: "lru_unlink l x = Some l1" "lru_chain l1 (xs @ ys)" "same_slots l l1"
    by (rule lru_unlink_chain)
  have xl: "x < length (lru_entries l1)"
    using c l1(3) by (auto simp: lru_chain_def same_slots_def)
  let ?es = "(lru_entries l1)[x := (lru_entries l1 ! x)\<lparr>le_active := False\<rparr>]"
  let ?l' = "l1\<lparr>lru_entries := ?es, lru_len := lru_len l1 - 1, lru_free := lru_free l1 @ [x]\<rparr>"
  have keys: "le_key (?es ! i) = le_key (lru_entries l ! i)" for i
    using l1(3) by (simp add: same_slots_def key_upd)
  have "lru_remove l x = Some (?l', Some (le_key (lru_entries l ! x)))"
    using l1 xl lru_active_iff [OF r] x by (simp add: lru_remove_def same_slots_def)
  moreover have "lru_chain ?l' (xs @ ys)"
    using l1(2) xl by (simp add: lru_chain_def)
  moreover have "lru_slots ?l' (xs @ ys)"
  proof -
    have sl1: "lru_slots l1 (xs @ x # ys)" by (rule same_slots_lru_slots [OF l1(3) refl sl])
    have act: "le_active (?es ! i) \<longleftrightarrow> i \<noteq> x \<and> le_active (lru_entries l1 ! i)" for i
      using xl by (cases "i = x") auto
    have "lru_active l1 i \<longleftrightarrow> i \<in> set (xs @ x # ys)" for i
      using sl1 unfolding lru_slots_def by blast
    then have "lru_active ?l' i \<longleftrightarrow> i \<in> set (xs @ ys)" for i
      using d act [of i] by (auto simp: lru_active_def)
    moreover have "i \<in> set (lru_free l1) \<longleftrightarrow> i < length (lru_entries l1) \<and> \<not> le_active (lru_entries l1 ! i)" for i
      using sl1 unfolding lru_slots_def by blast
    then have "i \<in> set (lru_free ?l') \<longleftrightarrow> i < length (lru_entries ?l') \<and> \<not> le_active (lru_entries ?l' ! i)" for i
      using xl act [of i] by auto
    moreover have "x \<notin> set (lru_free l1)" "distinct (lru_free l1)" "lru_len l1 = Suc (length (xs @ ys))"
      using sl1 unfolding lru_slots_def lru_active_def by auto
    ultimately show ?thesis unfolding lru_slots_def by (simp add: set_eq_iff)
  qed
  ultimately show ?thesis
    using keys by (intro that [of ?l']) (simp_all add: rem lru_repr_def)
qed

lemma lru_inactive:
  assumes "lru_repr l ps" "x \<notin> set ps"
  shows "lru_touch l x = Some l" "lru_remove l x = Some (l, None)"
  using assms lru_active_iff [of l ps x] by (simp_all add: lru_touch_def lru_remove_def)

lemma lru_evict_repr:
  assumes r: "lru_repr l (ps @ [x])"
  obtains l' where "lru_evict_oldest l = Some (l', Some (le_key (lru_entries l ! x)))"
    "lru_repr l' ps" "\<And>i. le_key (lru_entries l' ! i) = le_key (lru_entries l ! i)"
proof -
  from r have "lru_tail l = Some x" and d: "distinct (ps @ [x])"
    by (simp_all add: lru_repr_def lru_chain_def)
  moreover from d have "removeAll x (ps @ [x]) = ps" by auto
  ultimately show ?thesis
    using lru_remove_repr [OF r, of x] that by (auto simp: lru_evict_oldest_def)
qed

lemma lru_evict_empty: "lru_repr l [] \<Longrightarrow> lru_evict_oldest l = Some (l, None)"
  by (simp add: lru_repr_def lru_chain_def lru_evict_oldest_def)

section \<open>The list is a recency list\<close>

text \<open>
  Handles are the slot indices that \<open>insert\<close> hands out.  \<open>lru_evict_slot\<close> names the slot that
  \<open>evict_oldest\<close> frees, of which the code returns the key.
\<close>

definition lru_evict_slot :: "lru \<Rightarrow> (lru \<times> nat option) option" where
  "lru_evict_slot l = map_option (\<lambda>(l', _). (l', lru_tail l)) (lru_evict_oldest l)"

interpretation slru: recency_list "\<lambda>l. rev (lru_order l)" lru_inv "\<lambda>l i (_::unit). lru_touch l i"
  "\<lambda>l i. map_option fst (lru_remove l i)" lru_evict_slot
proof (unfold_locales, goal_cases)
  case (1 l)
  then show ?case by (simp add: lru_inv_def lru_repr_def lru_chain_def)
next
  case (2 l x u)
  then have r: "lru_repr l (lru_order l)" by (simp add: lru_inv_def)
  show ?case
  proof (cases "x \<in> set (lru_order l)")
    case True
    with r obtain l' where "lru_touch l x = Some l'" "lru_repr l' (x # removeAll x (lru_order l))"
      by (rule lru_touch_repr)
    with True show ?thesis by (auto dest!: lru_reprI simp: move_to_end_def rev_removeAll)
  qed (use 2 lru_inactive [OF r] in \<open>simp add: move_to_end_def\<close>)
next
  case (3 l x)
  then have r: "lru_repr l (lru_order l)" by (simp add: lru_inv_def)
  show ?case
  proof (cases "x \<in> set (lru_order l)")
    case True
    with r obtain l' where "lru_remove l x = Some (l', Some (le_key (lru_entries l ! x)))"
        "lru_repr l' (removeAll x (lru_order l))"
      by (rule lru_remove_repr)
    then show ?thesis by (auto dest!: lru_reprI simp: rev_removeAll)
  qed (use 3 lru_inactive [OF r] in simp)
next
  case (4 l)
  then have r: "lru_repr l (lru_order l)" by (simp add: lru_inv_def)
  show ?case
  proof (cases "lru_order l" rule: rev_cases)
    case Nil
    with r 4 show ?thesis
      by (auto simp: lru_evict_slot_def lru_evict_empty lru_repr_def lru_chain_def)
  next
    case (snoc ps x)
    with r have r': "lru_repr l (ps @ [x])" by simp
    then obtain l' where "lru_evict_oldest l = Some (l', Some (le_key (lru_entries l ! x)))" "lru_repr l' ps"
      by (rule lru_evict_repr)
    moreover from r' have "lru_tail l = Some x" by (simp add: lru_repr_def lru_chain_def)
    ultimately show ?thesis using snoc by (auto dest!: lru_reprI simp: lru_evict_slot_def)
  qed
qed

section \<open>Refinement to a list of keys\<close>

text \<open>
  The contract of the list, over pairs of a slot and its key, most recently used first.  Only the
  slot that an insertion picks is left open: it must not be in use.
\<close>

datatype lru_op = LInsert u64 | LTouch nat | LRemove nat | LEvict

datatype lru_out = OSlot nat | OUnit | OKey "u64 option"

inductive lru_spec :: "(nat \<times> u64) list \<Rightarrow> lru_op \<Rightarrow> lru_out \<Rightarrow> (nat \<times> u64) list \<Rightarrow> bool" where
  spec_insert: "i \<notin> fst ` set a \<Longrightarrow> lru_spec a (LInsert k) (OSlot i) ((i, k) # a)"
| spec_touch: "map_of a i = Some k \<Longrightarrow>
     lru_spec a (LTouch i) OUnit ((i, k) # filter (\<lambda>p. fst p \<noteq> i) a)"
| spec_touch_miss: "map_of a i = None \<Longrightarrow> lru_spec a (LTouch i) OUnit a"
| spec_remove: "lru_spec a (LRemove i) (OKey (map_of a i)) (filter (\<lambda>p. fst p \<noteq> i) a)"
| spec_evict: "lru_spec (a @ [(i, k)]) LEvict (OKey (Some k)) a"
| spec_evict_empty: "lru_spec [] LEvict (OKey None) []"

inductive lru_trace :: "(nat \<times> u64) list \<Rightarrow> (lru_op \<times> lru_out) list \<Rightarrow> (nat \<times> u64) list \<Rightarrow> bool" where
  trace_done: "lru_trace a [] a"
| trace_step: "lru_spec a c x b \<Longrightarrow> lru_trace b ts d \<Longrightarrow> lru_trace a ((c, x) # ts) d"

fun lru_step :: "lru \<Rightarrow> lru_op \<Rightarrow> (lru \<times> lru_out) option" where
  "lru_step l (LInsert k) = map_option (\<lambda>(l', i). (l', OSlot i)) (lru_insert l k)"
| "lru_step l (LTouch i) = map_option (\<lambda>l'. (l', OUnit)) (lru_touch l i)"
| "lru_step l (LRemove i) = map_option (\<lambda>(l', k). (l', OKey k)) (lru_remove l i)"
| "lru_step l LEvict = map_option (\<lambda>(l', k). (l', OKey k)) (lru_evict_oldest l)"

fun lru_run :: "lru \<Rightarrow> lru_op list \<Rightarrow> (lru \<times> lru_out list) option" where
  "lru_run l [] = Some (l, [])"
| "lru_run l (c # cs) = do {
     (l', x) \<leftarrow> lru_step l c;
     (l'', xs) \<leftarrow> lru_run l' cs;
     Some (l'', x # xs) }"

abbreviation slot_key :: "lru \<Rightarrow> nat \<Rightarrow> nat \<times> u64" where
  "slot_key l \<equiv> \<lambda>i. (i, le_key (lru_entries l ! i))"

definition lru_abs :: "lru \<Rightarrow> (nat \<times> u64) list" where
  "lru_abs l = map (slot_key l) (lru_order l)"

lemma lru_abs_repr: "lru_repr l ps \<Longrightarrow> lru_abs l = map (slot_key l) ps"
  by (simp add: lru_abs_def lru_repr_order)

lemma map_of_slots: "map_of (map (slot_key l) ps) i =
    (if i \<in> set ps then Some (le_key (lru_entries l ! i)) else None)"
  by (induction ps) auto

lemma filter_slots: "filter (\<lambda>p. fst p \<noteq> i) (map (slot_key l) ps) = map (slot_key l) (removeAll i ps)"
  by (induction ps) auto

lemma slots_cong:
  "(\<And>i. i \<in> set ps \<Longrightarrow> le_key (lru_entries l' ! i) = le_key (lru_entries l ! i)) \<Longrightarrow>
   map (slot_key l') ps = map (slot_key l) ps"
  by simp

lemma lru_step_sim:
  assumes r: "lru_repr l ps"
  shows "\<exists>l' x ps'. lru_step l c = Some (l', x) \<and> lru_repr l' ps' \<and> lru_spec (lru_abs l) c x (lru_abs l')"
proof (cases c)
  case (LInsert k)
  from r obtain l' x where *: "lru_insert l k = Some (l', x)" "lru_repr l' (x # ps)" "x \<notin> set ps"
    "le_key (lru_entries l' ! x) = k"
    "\<And>i. i \<in> set ps \<Longrightarrow> le_key (lru_entries l' ! i) = le_key (lru_entries l ! i)"
    by (rule lru_insert_repr) blast
  then have "lru_abs l' = (x, k) # lru_abs l"
    by (simp add: lru_abs_repr [OF r] lru_abs_repr [OF *(2)])
  moreover have "x \<notin> fst ` set (lru_abs l)" using *(3) by (auto simp: lru_abs_repr [OF r])
  ultimately show ?thesis using * LInsert by (auto intro: lru_spec.intros)
next
  case (LTouch i)
  show ?thesis
  proof (cases "i \<in> set ps")
    case True
    with r obtain l' where *: "lru_touch l i = Some l'" "lru_repr l' (i # removeAll i ps)" "same_slots l l'"
      by (rule lru_touch_repr)
    then have "lru_abs l' = (i, le_key (lru_entries l ! i)) # filter (\<lambda>p. fst p \<noteq> i) (lru_abs l)"
      by (simp add: lru_abs_repr [OF r] lru_abs_repr [OF *(2)] filter_slots same_slots_def)
    moreover have "map_of (lru_abs l) i = Some (le_key (lru_entries l ! i))"
      using True by (simp add: lru_abs_repr [OF r] map_of_slots)
    ultimately show ?thesis using * LTouch by (auto intro: lru_spec.intros)
  next
    case False
    then have "map_of (lru_abs l) i = None" by (simp add: lru_abs_repr [OF r] map_of_slots)
    with r False LTouch show ?thesis by (auto simp: lru_inactive intro: lru_spec.intros)
  qed
next
  case (LRemove i)
  show ?thesis
  proof (cases "i \<in> set ps")
    case True
    with r obtain l' where *: "lru_remove l i = Some (l', Some (le_key (lru_entries l ! i)))"
      "lru_repr l' (removeAll i ps)" "\<And>i. le_key (lru_entries l' ! i) = le_key (lru_entries l ! i)"
      by (rule lru_remove_repr) blast
    moreover have "lru_abs l' = filter (\<lambda>p. fst p \<noteq> i) (lru_abs l)"
      by (simp add: lru_abs_repr [OF r] lru_abs_repr [OF *(2)] filter_slots *(3))
    moreover have "map_of (lru_abs l) i = Some (le_key (lru_entries l ! i))"
      using True by (simp add: lru_abs_repr [OF r] map_of_slots)
    ultimately show ?thesis using LRemove lru_spec.spec_remove [of "lru_abs l" i] by auto
  next
    case False
    then have "map_of (lru_abs l) i = None" "filter (\<lambda>p. fst p \<noteq> i) (lru_abs l) = lru_abs l"
      by (simp_all add: lru_abs_repr [OF r] map_of_slots filter_slots)
    with r False LRemove lru_spec.spec_remove [of "lru_abs l" i] show ?thesis
      by (auto simp: lru_inactive)
  qed
next
  case LEvict
  show ?thesis
  proof (cases ps rule: rev_cases)
    case Nil
    with r LEvict show ?thesis
      by (auto simp: lru_evict_empty lru_abs_repr [OF r] intro: lru_spec.intros)
  next
    case (snoc qs i)
    with r have r': "lru_repr l (qs @ [i])" by simp
    then obtain l' where *: "lru_evict_oldest l = Some (l', Some (le_key (lru_entries l ! i)))"
      "lru_repr l' qs" "\<And>i. le_key (lru_entries l' ! i) = le_key (lru_entries l ! i)"
      by (rule lru_evict_repr) blast
    moreover have "lru_abs l = lru_abs l' @ [(i, le_key (lru_entries l ! i))]"
      by (simp add: lru_abs_repr [OF r'] lru_abs_repr [OF *(2)] *(3))
    ultimately show ?thesis using LEvict lru_spec.spec_evict [of "lru_abs l'" i] by auto
  qed
qed

lemma lru_run_sim:
  "lru_repr l ps \<Longrightarrow> \<exists>l' xs. lru_run l cs = Some (l', xs) \<and> lru_inv l' \<and> length xs = length cs \<and>
     lru_trace (lru_abs l) (zip cs xs) (lru_abs l')"
proof (induction cs arbitrary: l ps)
  case Nil
  then show ?case by (auto dest: lru_reprI intro: lru_trace.intros)
next
  case (Cons c cs)
  from lru_step_sim [OF Cons.prems, of c] obtain l' x ps' where
    "lru_step l c = Some (l', x)" "lru_repr l' ps'" "lru_spec (lru_abs l) c x (lru_abs l')"
    by blast
  with Cons.IH [of l' ps'] show ?case by (auto intro: lru_trace.intros)
qed

text \<open>
  C5: The index-based LRU list refines the abstract recency list.  Starting from an empty list, every
  sequence of insert, touch, remove and evict calls runs without an index out of bounds, its
  results are those of the list of slot and key pairs ordered by recency (\<open>evict_oldest\<close> returns the
  key at the least recently used end), the slots handed out are never in use, and \<open>len\<close> is the
  number of entries.
\<close>

theorem storage_lru_refines:
  "\<exists>l xs. lru_run lru_new cs = Some (l, xs) \<and> length xs = length cs \<and>
     lru_trace [] (zip cs xs) (lru_abs l) \<and> lru_len l = length (lru_abs l) \<and>
     (lru_is_empty l \<longleftrightarrow> lru_abs l = []) \<and>
     lru_peek_oldest l = Some (first_of (rev (map snd (lru_abs l))) None) \<and>
     lru_peek_newest l = Some (first_of (map snd (lru_abs l)) None)"
proof -
  have empty: "lru_abs lru_new = []" by (simp add: lru_abs_repr [OF lru_new_repr])
  from lru_run_sim [OF lru_new_repr, of cs] obtain l xs where *:
    "lru_run lru_new cs = Some (l, xs)" "lru_inv l" "length xs = length cs"
    "lru_trace [] (zip cs xs) (lru_abs l)"
    by (auto simp: empty)
  then have "lru_repr l (lru_order l)" by (simp add: lru_inv_def)
  then have "lru_len l = length (lru_abs l)" and "lru_head l = first_of (lru_order l) None"
    and "lru_tail l = last_of None (lru_order l)"
    and "set (lru_order l) \<subseteq> {..<length (lru_entries l)}"
    unfolding lru_repr_def lru_chain_def lru_slots_def lru_abs_def length_map by blast+
  moreover from this have "lru_peek_newest l = Some (first_of (map snd (lru_abs l)) None)"
    by (cases "lru_order l") (auto simp: lru_peek_newest_def lru_peek_def lru_abs_def)
  moreover from calculation have "lru_peek_oldest l = Some (first_of (rev (map snd (lru_abs l))) None)"
    by (cases "lru_order l" rule: rev_cases) (auto simp: lru_peek_oldest_def lru_peek_def lru_abs_def)
  ultimately have "lru_len l = length (lru_abs l) \<and> (lru_is_empty l \<longleftrightarrow> lru_abs l = []) \<and>
     lru_peek_oldest l = Some (first_of (rev (map snd (lru_abs l))) None) \<and>
     lru_peek_newest l = Some (first_of (map snd (lru_abs l)) None)"
    by (simp add: lru_is_empty_def)
  with * show ?thesis by blast
qed

end
