(* ===== verification/Cache_Lru.thy ===== *)
theory Cache_Lru
  imports Linked_Lists Digests
begin

text \<open>
  The sharded LRU tracker of \<^verbatim>\<open>rv-cache/src/lru.rs\<close>.  Each shard is an intrusive list of nodes that
  \<open>Box::into_raw\<close> allocated, reached by raw pointers; the model gives a shard the store of its live
  nodes, so that a dereference of a null, freed or foreign pointer is the value \<open>None\<close> and a node
  that is never freed stays in the store.  \<open>shard_repr s ps\<close> says that the store holds exactly the
  chain \<open>ps\<close>, oldest first; the shard operations keep it, hence they are memory safe and do not leak.

  The allocator is a parameter: given the live nodes it returns the address of a new one.
\<close>

section \<open>One shard\<close>

type_synonym ptr = nat

record lru_node =
  ln_digest :: digest
  ln_timestamp :: u64
  ln_prev :: "ptr option"
  ln_next :: "ptr option"

type_synonym node_heap = "ptr \<rightharpoonup> lru_node"

record lru_shard =
  sh_map :: "digest \<rightharpoonup> ptr"
  sh_head :: "ptr option"
  sh_tail :: "ptr option"
  sh_heap :: node_heap

definition shard_new :: lru_shard where
  "shard_new = \<lparr>sh_map = Map.empty, sh_head = None, sh_tail = None, sh_heap = Map.empty\<rparr>"

text \<open>\<open>(*p).field = v\<close> for a raw pointer.\<close>

definition node_write :: "lru_shard \<Rightarrow> ptr \<Rightarrow> (lru_node \<Rightarrow> lru_node) \<Rightarrow> lru_shard option" where
  "node_write s p f = (case sh_heap s p of None \<Rightarrow> None
     | Some n \<Rightarrow> Some (s\<lparr>sh_heap := (sh_heap s)(p \<mapsto> f n)\<rparr>))"

definition shard_unlink :: "lru_shard \<Rightarrow> ptr \<Rightarrow> lru_shard option" where
  "shard_unlink s node = do {
     n \<leftarrow> sh_heap s node;
     s1 \<leftarrow> (case ln_prev n of None \<Rightarrow> Some (s\<lparr>sh_head := ln_next n\<rparr>)
            | Some p \<Rightarrow> node_write s p (\<lambda>m. m\<lparr>ln_next := ln_next n\<rparr>));
     s2 \<leftarrow> (case ln_next n of None \<Rightarrow> Some (s1\<lparr>sh_tail := ln_prev n\<rparr>)
            | Some q \<Rightarrow> node_write s1 q (\<lambda>m. m\<lparr>ln_prev := ln_prev n\<rparr>));
     node_write s2 node (\<lambda>m. m\<lparr>ln_prev := None, ln_next := None\<rparr>) }"

definition shard_push_tail :: "lru_shard \<Rightarrow> ptr \<Rightarrow> lru_shard option" where
  "shard_push_tail s node = do {
     s1 \<leftarrow> node_write s node (\<lambda>m. m\<lparr>ln_prev := sh_tail s, ln_next := None\<rparr>);
     s2 \<leftarrow> (case sh_tail s1 of None \<Rightarrow> Some (s1\<lparr>sh_head := Some node\<rparr>)
            | Some t \<Rightarrow> node_write s1 t (\<lambda>m. m\<lparr>ln_next := Some node\<rparr>));
     Some (s2\<lparr>sh_tail := Some node\<rparr>) }"

definition shard_head_timestamp :: "lru_shard \<Rightarrow> u64 option option" where
  "shard_head_timestamp s =
     (case sh_head s of None \<Rightarrow> Some None
      | Some p \<Rightarrow> map_option (Some \<circ> ln_timestamp) (sh_heap s p))"

text \<open>\<open>drop(Box::from_raw(node))\<close> ends the life of the node.\<close>

definition node_free :: "lru_shard \<Rightarrow> ptr \<Rightarrow> lru_shard option" where
  "node_free s p = (if sh_heap s p = None then None else Some (s\<lparr>sh_heap := (sh_heap s)(p := None)\<rparr>))"

definition shard_pop_head :: "lru_shard \<Rightarrow> (lru_shard \<times> digest option) option" where
  "shard_pop_head s =
     (case sh_head s of None \<Rightarrow> Some (s, None)
      | Some node \<Rightarrow> do {
          n \<leftarrow> sh_heap s node;
          s1 \<leftarrow> shard_unlink s node;
          s2 \<leftarrow> node_free (s1\<lparr>sh_map := (sh_map s1)(ln_digest n := None)\<rparr>) node;
          Some (s2, Some (ln_digest n)) })"

definition shard_renew :: "lru_shard \<Rightarrow> ptr \<Rightarrow> u64 \<Rightarrow> lru_shard option" where
  "shard_renew s node timestamp = do {
     s1 \<leftarrow> node_write s node (\<lambda>m. m\<lparr>ln_timestamp := timestamp\<rparr>);
     s2 \<leftarrow> shard_unlink s1 node;
     shard_push_tail s2 node }"

definition shard_insert :: "(node_heap \<Rightarrow> ptr) \<Rightarrow> lru_shard \<Rightarrow> digest \<Rightarrow> u64 \<Rightarrow> lru_shard option" where
  "shard_insert alloc s digest timestamp =
     (case sh_map s digest of
        Some node \<Rightarrow> shard_renew s node timestamp
      | None \<Rightarrow>
          let node = alloc (sh_heap s);
              n = \<lparr>ln_digest = digest, ln_timestamp = timestamp, ln_prev = None, ln_next = None\<rparr>
          in do {
            s1 \<leftarrow> shard_push_tail (s\<lparr>sh_heap := (sh_heap s)(node \<mapsto> n)\<rparr>) node;
            Some (s1\<lparr>sh_map := (sh_map s1)(digest \<mapsto> node)\<rparr>) })"

definition shard_touch :: "lru_shard \<Rightarrow> digest \<Rightarrow> u64 \<Rightarrow> (lru_shard \<times> bool) option" where
  "shard_touch s digest timestamp =
     (case sh_map s digest of
        Some node \<Rightarrow> map_option (\<lambda>s'. (s', True)) (shard_renew s node timestamp)
      | None \<Rightarrow> Some (s, False))"

definition shard_remove :: "lru_shard \<Rightarrow> digest \<Rightarrow> (lru_shard \<times> bool) option" where
  "shard_remove s digest =
     (case sh_map s digest of
        Some node \<Rightarrow> do {
          s1 \<leftarrow> shard_unlink (s\<lparr>sh_map := (sh_map s)(digest := None)\<rparr>) node;
          s2 \<leftarrow> node_free s1 node;
          Some (s2, True) }
      | None \<Rightarrow> Some (s, False))"

definition shard_len :: "lru_shard \<Rightarrow> nat" where
  "shard_len s = card (dom (sh_map s))"

text \<open>The loop of \<open>Drop for LruShard\<close>; not returning is the value \<open>None\<close>.\<close>

partial_function (option) drop_nodes :: "node_heap \<Rightarrow> ptr option \<Rightarrow> node_heap option" where
  "drop_nodes h current =
     (case current of None \<Rightarrow> Some h
      | Some p \<Rightarrow> (case h p of None \<Rightarrow> None | Some n \<Rightarrow> drop_nodes (h(p := None)) (ln_next n)))"

definition shard_drop :: "lru_shard \<Rightarrow> node_heap option" where
  "shard_drop s = drop_nodes (sh_heap s) (sh_head s)"

section \<open>Representation of a shard\<close>

definition hnext :: "node_heap \<Rightarrow> ptr \<Rightarrow> ptr option" where
  "hnext h p = (case h p of None \<Rightarrow> None | Some n \<Rightarrow> ln_next n)"

definition hprev :: "node_heap \<Rightarrow> ptr \<Rightarrow> ptr option" where
  "hprev h p = (case h p of None \<Rightarrow> None | Some n \<Rightarrow> ln_prev n)"

definition hdigest :: "node_heap \<Rightarrow> ptr \<Rightarrow> digest" where
  "hdigest h p = (case h p of None \<Rightarrow> digest_ZERO | Some n \<Rightarrow> ln_digest n)"

definition htime :: "node_heap \<Rightarrow> ptr \<Rightarrow> u64" where
  "htime h p = (case h p of None \<Rightarrow> 0 | Some n \<Rightarrow> ln_timestamp n)"

lemmas heap_field_defs = hnext_def hprev_def hdigest_def htime_def

lemma heap_fields_upd [simp]:
  "hnext (h(p \<mapsto> n)) = (hnext h)(p := ln_next n)"
  "hprev (h(p \<mapsto> n)) = (hprev h)(p := ln_prev n)"
  "hdigest (h(p \<mapsto> n)) = (hdigest h)(p := ln_digest n)"
  "htime (h(p \<mapsto> n)) = (htime h)(p := ln_timestamp n)"
  by (auto simp: heap_field_defs fun_eq_iff)

lemma heap_fields_Some:
  assumes "h p = Some n"
  shows "ln_next n = hnext h p" "ln_prev n = hprev h p" "ln_digest n = hdigest h p" "ln_timestamp n = htime h p"
  using assms by (simp_all add: heap_field_defs)

lemma heap_fields_freed:
  "q \<noteq> p \<Longrightarrow> hnext (h(p := None)) q = hnext h q"
  "q \<noteq> p \<Longrightarrow> hprev (h(p := None)) q = hprev h q"
  "q \<noteq> p \<Longrightarrow> hdigest (h(p := None)) q = hdigest h q"
  "q \<noteq> p \<Longrightarrow> htime (h(p := None)) q = htime h q"
  by (simp_all add: heap_field_defs)

definition shard_chain :: "lru_shard \<Rightarrow> ptr list \<Rightarrow> bool" where
  "shard_chain s ps \<longleftrightarrow> distinct ps \<and> set ps \<subseteq> dom (sh_heap s) \<and>
     links (hnext (sh_heap s)) (hprev (sh_heap s)) None ps None \<and>
     sh_head s = first_of ps None \<and> sh_tail s = last_of None ps"

definition shard_index_ok :: "lru_shard \<Rightarrow> ptr list \<Rightarrow> bool" where
  "shard_index_ok s ps \<longleftrightarrow> distinct (map (hdigest (sh_heap s)) ps) \<and>
     (\<forall>p \<in> set ps. sh_map s (hdigest (sh_heap s) p) = Some p) \<and>
     dom (sh_map s) = hdigest (sh_heap s) ` set ps"

definition shard_repr :: "lru_shard \<Rightarrow> ptr list \<Rightarrow> bool" where
  "shard_repr s ps \<longleftrightarrow> shard_chain s ps \<and> shard_index_ok s ps \<and> dom (sh_heap s) = set ps"

definition shard_nodes :: "lru_shard \<Rightarrow> ptr list" where
  "shard_nodes s = follow (card (dom (sh_heap s))) (hnext (sh_heap s)) (sh_head s)"

text \<open>The tracked digests, oldest first, and those with their timestamps.\<close>

definition shard_order :: "lru_shard \<Rightarrow> digest list" where
  "shard_order s = map (hdigest (sh_heap s)) (shard_nodes s)"

definition shard_entries :: "lru_shard \<Rightarrow> (digest \<times> u64) list" where
  "shard_entries s = map (\<lambda>p. (hdigest (sh_heap s) p, htime (sh_heap s) p)) (shard_nodes s)"

definition shard_inv :: "lru_shard \<Rightarrow> bool" where
  "shard_inv s \<longleftrightarrow> shard_repr s (shard_nodes s)"

lemma shard_repr_nodes:
  assumes "shard_repr s ps"
  shows "shard_nodes s = ps"
proof -
  from assms have "length ps = card (dom (sh_heap s))"
    by (simp add: shard_repr_def shard_chain_def distinct_card)
  with assms show ?thesis
    unfolding shard_nodes_def shard_repr_def shard_chain_def by (auto intro: follow_links)
qed

lemma shard_reprI:
  assumes "shard_repr s ps"
  shows "shard_inv s" "shard_order s = map (hdigest (sh_heap s)) ps"
    "shard_entries s = map (\<lambda>p. (hdigest (sh_heap s) p, htime (sh_heap s) p)) ps"
  using assms shard_repr_nodes [OF assms]
  by (simp_all add: shard_inv_def shard_order_def shard_entries_def)

lemma shard_order_entries: "shard_order s = map fst (shard_entries s)"
  by (simp add: shard_order_def shard_entries_def)

section \<open>Effect of the shard operations\<close>

text \<open>What relinking leaves alone.\<close>

definition same_nodes :: "lru_shard \<Rightarrow> lru_shard \<Rightarrow> bool" where
  "same_nodes s s' \<longleftrightarrow> dom (sh_heap s') = dom (sh_heap s) \<and> sh_map s' = sh_map s \<and>
     hdigest (sh_heap s') = hdigest (sh_heap s) \<and> htime (sh_heap s') = htime (sh_heap s)"

lemma same_nodes_refl [simp]: "same_nodes s s"
  by (simp add: same_nodes_def)

lemma same_nodes_trans: "same_nodes s s' \<Longrightarrow> same_nodes s' s'' \<Longrightarrow> same_nodes s s''"
  by (simp add: same_nodes_def)

lemma node_write_Some [simp]:
  "p \<in> dom (sh_heap s) \<Longrightarrow>
   node_write s p f = Some (s\<lparr>sh_heap := (sh_heap s)(p \<mapsto> f (the (sh_heap s p)))\<rparr>)"
  by (auto simp: node_write_def)

lemma heap_fields_same [simp]:
  "p \<in> dom h \<Longrightarrow> (hnext h)(p := ln_next (the (h p))) = hnext h"
  "p \<in> dom h \<Longrightarrow> (hprev h)(p := ln_prev (the (h p))) = hprev h"
  "p \<in> dom h \<Longrightarrow> (hdigest h)(p := ln_digest (the (h p))) = hdigest h"
  "p \<in> dom h \<Longrightarrow> (htime h)(p := ln_timestamp (the (h p))) = htime h"
  by (auto simp: heap_field_defs fun_eq_iff)

lemma heap_same_dom [simp]: "p \<in> dom h \<Longrightarrow> insert p (dom h) = dom h"
  by auto

lemma shard_unlink_chain:
  assumes c: "shard_chain s (xs @ x # ys)"
  obtains s' where "shard_unlink s x = Some s'" "shard_chain s' (xs @ ys)" "same_nodes s s'"
proof -
  let ?h = "sh_heap s" and ?p = "last_of None xs" and ?n = "first_of ys None"
  from c have d: "distinct (xs @ x # ys)" and r: "set (xs @ x # ys) \<subseteq> dom ?h"
    and lk: "links (hnext ?h) (hprev ?h) None (xs @ x # ys) None"
    by (simp_all add: shard_chain_def)
  from r obtain n where n: "?h x = Some n" by auto
  have x: "ln_prev n = ?p" "ln_next n = ?n"
    using links_nodes [OF lk] by (simp_all add: heap_fields_Some [of ?h x n, OF n])
  have pd: "?p = Some a \<Longrightarrow> a \<in> dom ?h" for a
    using r by (auto simp: last_of_def split: if_splits dest!: last_in_set)
  have nd: "?n = Some b \<Longrightarrow> b \<in> dom ?h" for b
    using r by (cases ys) auto
  define h1 where "h1 = (case ?p of None \<Rightarrow> ?h | Some a \<Rightarrow> ?h(a \<mapsto> (the (?h a))\<lparr>ln_next := ?n\<rparr>))"
  define h2 where "h2 = (case ?n of None \<Rightarrow> h1 | Some b \<Rightarrow> h1(b \<mapsto> (the (h1 b))\<lparr>ln_prev := ?p\<rparr>))"
  define h3 where "h3 = h2(x \<mapsto> (the (h2 x))\<lparr>ln_prev := None, ln_next := None\<rparr>)"
  let ?s' = "s\<lparr>sh_heap := h3, sh_head := (if ?p = None then ?n else sh_head s),
               sh_tail := (if ?n = None then ?p else sh_tail s)\<rparr>"
  have d1: "dom h1 = dom ?h" using pd by (auto simp: h1_def split: option.splits)
  have d2: "dom h2 = dom ?h" using nd d1 by (auto simp: h2_def split: option.splits)
  have xd: "x \<in> dom ?h" "x \<in> dom h2" using r d2 by auto
  have f1: "hnext h1 = set_opt (hnext ?h) ?p ?n" "hprev h1 = hprev ?h"
      "hdigest h1 = hdigest ?h" "htime h1 = htime ?h"
    using pd by (auto simp: h1_def split: option.splits)
  have f2: "hnext h2 = hnext h1" "hprev h2 = set_opt (hprev h1) ?n ?p"
      "hdigest h2 = hdigest h1" "htime h2 = htime h1"
    using nd d1 by (auto simp: h2_def split: option.splits)
  have "hnext h3 = (hnext h2)(x := None)" "hprev h3 = (hprev h2)(x := None)"
      "hdigest h3 = hdigest h2" "htime h3 = htime h2" "dom h3 = dom h2"
    using xd by (simp_all add: h3_def)
  then have f3: "hnext h3 = (set_opt (hnext ?h) ?p ?n)(x := None)"
      "hprev h3 = (set_opt (hprev ?h) ?n ?p)(x := None)"
      "hdigest h3 = hdigest ?h" "htime h3 = htime ?h" "dom h3 = dom ?h"
    by (simp_all add: f1 f2 d2)
  have "shard_unlink s x = Some ?s'"
  proof (cases ?p; cases ?n)
    assume "?p = None" "?n = None"
    then show ?thesis using n x xd by (simp add: shard_unlink_def h1_def h2_def h3_def)
  next
    fix b assume "?p = None" "?n = Some b"
    then show ?thesis using n x xd nd [of b] by (simp add: shard_unlink_def h1_def h2_def h3_def)
  next
    fix a assume "?p = Some a" "?n = None"
    then show ?thesis using n x xd pd [of a] by (simp add: shard_unlink_def h1_def h2_def h3_def)
  next
    fix a b assume "?p = Some a" "?n = Some b"
    then show ?thesis using n x xd pd [of a] nd [of b] by (simp add: shard_unlink_def h1_def h2_def h3_def)
  qed
  moreover have "shard_chain ?s' (xs @ ys)"
    unfolding shard_chain_def
  proof (intro conjI)
    show "distinct (xs @ ys)" using d by simp
    show "set (xs @ ys) \<subseteq> dom (sh_heap ?s')" using r f3 by simp
    show "links (hnext (sh_heap ?s')) (hprev (sh_heap ?s')) None (xs @ ys) None"
      using links_unlink [OF lk d] by (simp add: f3)
    show "sh_head ?s' = first_of (xs @ ys) None"
      using c by (cases xs) (auto simp: shard_chain_def last_of_def)
    show "sh_tail ?s' = last_of None (xs @ ys)"
      using c by (cases ys) (auto simp: shard_chain_def)
  qed
  moreover have "same_nodes s ?s'" using f3 by (simp add: same_nodes_def)
  ultimately show ?thesis by (rule that)
qed

lemma shard_push_chain:
  assumes c: "shard_chain s ps" and x: "x \<notin> set ps" "x \<in> dom (sh_heap s)"
  obtains s' where "shard_push_tail s x = Some s'" "shard_chain s' (ps @ [x])" "same_nodes s s'"
proof -
  let ?h = "sh_heap s" and ?t = "last_of None ps"
  from c x have d: "distinct (ps @ [x])" and r: "set ps \<subseteq> dom ?h"
    and lk: "links (hnext ?h) (hprev ?h) None ps None" and tl: "sh_tail s = ?t" and hd: "sh_head s = first_of ps None"
    by (simp_all add: shard_chain_def)
  have td: "?t = Some a \<Longrightarrow> a \<in> dom ?h" for a
    using r by (auto simp: last_of_def split: if_splits dest!: last_in_set)
  define h1 where "h1 = ?h(x \<mapsto> (the (?h x))\<lparr>ln_prev := ?t, ln_next := None\<rparr>)"
  define h2 where "h2 = (case ?t of None \<Rightarrow> h1 | Some b \<Rightarrow> h1(b \<mapsto> (the (h1 b))\<lparr>ln_next := Some x\<rparr>))"
  let ?s' = "s\<lparr>sh_heap := h2, sh_head := (if ?t = None then Some x else sh_head s), sh_tail := Some x\<rparr>"
  have f1: "hnext h1 = (hnext ?h)(x := None)" "hprev h1 = (hprev ?h)(x := ?t)"
      "hdigest h1 = hdigest ?h" "htime h1 = htime ?h" "dom h1 = dom ?h"
    using x by (simp_all add: h1_def)
  have td1: "?t = Some a \<Longrightarrow> a \<in> dom h1" for a
    using td f1(5) by simp
  have "hnext h2 = set_opt (hnext h1) ?t (Some x)" "hprev h2 = hprev h1"
      "hdigest h2 = hdigest h1" "htime h2 = htime h1" "dom h2 = dom h1"
    using td1 by (cases ?t; simp add: h2_def)+
  then have f2: "hnext h2 = set_opt ((hnext ?h)(x := None)) ?t (Some x)" "hprev h2 = (hprev ?h)(x := ?t)"
      "hdigest h2 = hdigest ?h" "htime h2 = htime ?h" "dom h2 = dom ?h"
    by (simp_all add: f1)
  have "shard_push_tail s x = Some ?s'"
  proof (cases ?t)
    case None
    then show ?thesis using x tl by (simp add: shard_push_tail_def h1_def h2_def)
  next
    case (Some a)
    then show ?thesis using x tl td [of a] by (simp add: shard_push_tail_def h1_def h2_def)
  qed
  moreover have "shard_chain ?s' (ps @ [x])"
    unfolding shard_chain_def
  proof (intro conjI)
    show "distinct (ps @ [x])" by (rule d)
    show "set (ps @ [x]) \<subseteq> dom (sh_heap ?s')" using r x(2) f2(5) by simp
    show "links (hnext (sh_heap ?s')) (hprev (sh_heap ?s')) None (ps @ [x]) None"
      using links_push_back [OF lk d] by (simp add: f2)
    show "sh_head ?s' = first_of (ps @ [x]) None"
      using hd by (cases ps) (auto simp: last_of_def)
  qed simp
  moreover have "same_nodes s ?s'" using f2 by (simp add: same_nodes_def)
  ultimately show ?thesis by (rule that)
qed

text \<open>The operations of a shard on the represented chain.\<close>

lemma shard_new_repr: "shard_repr shard_new []"
  by (simp add: shard_repr_def shard_chain_def shard_index_ok_def shard_new_def)

lemma shard_repr_lookup:
  assumes "shard_repr s ps"
  shows "sh_map s d = None \<longleftrightarrow> d \<notin> hdigest (sh_heap s) ` set ps"
    and "sh_map s d = Some p \<Longrightarrow> p \<in> set ps \<and> hdigest (sh_heap s) p = d"
    and "p \<in> set ps \<Longrightarrow> sh_map s (hdigest (sh_heap s) p) = Some p"
proof -
  from assms have dm: "dom (sh_map s) = hdigest (sh_heap s) ` set ps"
    and all: "\<forall>p \<in> set ps. sh_map s (hdigest (sh_heap s) p) = Some p"
    by (simp_all add: shard_repr_def shard_index_ok_def)
  show "sh_map s d = None \<longleftrightarrow> d \<notin> hdigest (sh_heap s) ` set ps"
    using dm by blast
  show "p \<in> set ps \<Longrightarrow> sh_map s (hdigest (sh_heap s) p) = Some p"
    using all by blast
  assume *: "sh_map s d = Some p"
  then have "d \<in> hdigest (sh_heap s) ` set ps" using dm by blast
  then obtain q where "q \<in> set ps" "d = hdigest (sh_heap s) q" by blast
  with * all show "p \<in> set ps \<and> hdigest (sh_heap s) p = d" by auto
qed

lemma same_nodes_index:
  "same_nodes s s' \<Longrightarrow> mset ps' = mset ps \<Longrightarrow> shard_index_ok s ps \<Longrightarrow> shard_index_ok s' ps'"
  unfolding shard_index_ok_def same_nodes_def
  by (metis mset_eq_setD mset_map mset_eq_imp_distinct_iff)

lemma shard_renew_repr:
  assumes r: "shard_repr s (xs @ x # ys)"
  obtains s' where "shard_renew s x ts = Some s'" "shard_repr s' (xs @ ys @ [x])"
    "hdigest (sh_heap s') = hdigest (sh_heap s)" "htime (sh_heap s') = (htime (sh_heap s))(x := ts)"
proof -
  from r have c: "shard_chain s (xs @ x # ys)" and i: "shard_index_ok s (xs @ x # ys)"
    and dm: "dom (sh_heap s) = set (xs @ x # ys)" and d: "distinct (xs @ x # ys)"
    by (simp_all add: shard_repr_def shard_chain_def)
  then have x: "x \<in> dom (sh_heap s)" by simp
  define s1 where "s1 = s\<lparr>sh_heap := (sh_heap s)(x \<mapsto> (the (sh_heap s x))\<lparr>ln_timestamp := ts\<rparr>)\<rparr>"
  have f1: "hnext (sh_heap s1) = hnext (sh_heap s)" "hprev (sh_heap s1) = hprev (sh_heap s)"
      "hdigest (sh_heap s1) = hdigest (sh_heap s)" "htime (sh_heap s1) = (htime (sh_heap s))(x := ts)"
      "dom (sh_heap s1) = dom (sh_heap s)" "sh_map s1 = sh_map s" "sh_head s1 = sh_head s" "sh_tail s1 = sh_tail s"
    using x by (simp_all add: s1_def)
  from c have "shard_chain s1 (xs @ x # ys)" unfolding shard_chain_def f1 .
  then obtain s2 where s2: "shard_unlink s1 x = Some s2" "shard_chain s2 (xs @ ys)" "same_nodes s1 s2"
    by (rule shard_unlink_chain)
  have "x \<notin> set (xs @ ys)" using d by simp
  moreover have "x \<in> dom (sh_heap s2)" using s2(3) x f1(5) by (simp add: same_nodes_def)
  ultimately obtain s3 where s3: "shard_push_tail s2 x = Some s3" "shard_chain s3 ((xs @ ys) @ [x])" "same_nodes s2 s3"
    by (rule shard_push_chain [OF s2(2)])
  have same: "same_nodes s1 s3" using s2(3) s3(3) by (rule same_nodes_trans)
  have "shard_renew s x ts = Some s3"
    using x s2(1) s3(1) by (simp add: shard_renew_def s1_def)
  moreover have "shard_index_ok s1 (xs @ x # ys)"
    using i unfolding shard_index_ok_def f1 .
  then have "shard_index_ok s3 (xs @ ys @ [x])" by (rule same_nodes_index [OF same, rotated]) simp
  moreover have "dom (sh_heap s3) = set (xs @ ys @ [x])"
    using same dm f1(5) by (auto simp: same_nodes_def)
  ultimately show ?thesis
    using s3(2) same f1(3,4) by (intro that [of s3]) (simp_all add: shard_repr_def same_nodes_def)
qed

lemma shard_append_repr:
  assumes r: "shard_repr s ps" and d: "sh_map s d = None"
    and fresh: "sh_heap s (alloc (sh_heap s)) = None"
  obtains s' x where "shard_insert alloc s d ts = Some s'" "shard_repr s' (ps @ [x])" "x \<notin> set ps"
    "hdigest (sh_heap s') = (hdigest (sh_heap s))(x := d)" "htime (sh_heap s') = (htime (sh_heap s))(x := ts)"
proof -
  let ?x = "alloc (sh_heap s)"
  let ?n = "\<lparr>ln_digest = d, ln_timestamp = ts, ln_prev = None, ln_next = None\<rparr>"
  define s1 where "s1 = s\<lparr>sh_heap := (sh_heap s)(?x \<mapsto> ?n)\<rparr>"
  from r have c: "shard_chain s ps" and i: "shard_index_ok s ps" and dm: "dom (sh_heap s) = set ps"
    by (simp_all add: shard_repr_def)
  have x: "?x \<notin> set ps" using fresh dm by blast
  have f1: "hdigest (sh_heap s1) = (hdigest (sh_heap s))(?x := d)"
      "htime (sh_heap s1) = (htime (sh_heap s))(?x := ts)" "sh_map s1 = sh_map s"
      "dom (sh_heap s1) = insert ?x (set ps)"
    using dm by (simp_all add: s1_def)
  have "shard_chain s1 ps"
    using c x unfolding shard_chain_def s1_def by auto
  moreover have "?x \<in> dom (sh_heap s1)" using f1(4) by simp
  ultimately obtain s2 where s2: "shard_push_tail s1 ?x = Some s2" "shard_chain s2 (ps @ [?x])" "same_nodes s1 s2"
    using x shard_push_chain by blast
  let ?s' = "s2\<lparr>sh_map := (sh_map s2)(d \<mapsto> ?x)\<rparr>"
  have "shard_insert alloc s d ts = Some ?s'"
    using d s2(1) by (simp add: shard_insert_def Let_def s1_def)
  moreover have "shard_chain ?s' (ps @ [?x])" using s2(2) by (simp add: shard_chain_def)
  moreover have dn: "d \<notin> hdigest (sh_heap s) ` set ps" using d shard_repr_lookup(1) [OF r] by blast
  have "shard_index_ok ?s' (ps @ [?x])"
  proof -
    have f2: "hdigest (sh_heap ?s') = (hdigest (sh_heap s))(?x := d)" "sh_map ?s' = (sh_map s)(d \<mapsto> ?x)"
      using s2(3) f1 by (simp_all add: same_nodes_def)
    show ?thesis using i x dn unfolding shard_index_ok_def f2 by (auto simp: image_iff)
  qed
  ultimately show ?thesis
    using x s2(3) f1 by (intro that [of ?s' ?x]) (simp_all add: shard_repr_def same_nodes_def)
qed

lemma shard_free_repr:
  assumes r: "shard_repr s (xs @ x # ys)" and s0: "s0 = s \<or> s0 = s\<lparr>sh_map := (sh_map s)(hdigest (sh_heap s) x := None)\<rparr>"
  obtains s1 s2 where "shard_unlink s0 x = Some s1"
    "node_free (s1\<lparr>sh_map := (sh_map s1)(hdigest (sh_heap s) x := None)\<rparr>) x = Some s2"
    "sh_map s1 = sh_map s0" "shard_repr s2 (xs @ ys)"
    "\<And>p. p \<noteq> x \<Longrightarrow> hdigest (sh_heap s2) p = hdigest (sh_heap s) p"
    "\<And>p. p \<noteq> x \<Longrightarrow> htime (sh_heap s2) p = htime (sh_heap s) p"
proof -
  let ?d = "hdigest (sh_heap s) x"
  from r s0 have c: "shard_chain s0 (xs @ x # ys)" by (auto simp: shard_repr_def shard_chain_def)
  from r have i: "shard_index_ok s (xs @ x # ys)" and dm: "dom (sh_heap s) = set (xs @ x # ys)"
    and d: "distinct (xs @ x # ys)"
    by (simp_all add: shard_repr_def shard_chain_def)
  from c obtain s1 where s1: "shard_unlink s0 x = Some s1" "shard_chain s1 (xs @ ys)" "same_nodes s0 s1"
    by (rule shard_unlink_chain)
  let ?s2 = "s1\<lparr>sh_map := (sh_map s1)(?d := None), sh_heap := (sh_heap s1)(x := None)\<rparr>"
  have heap1: "dom (sh_heap s1) = dom (sh_heap s)" "hdigest (sh_heap s1) = hdigest (sh_heap s)"
      "htime (sh_heap s1) = htime (sh_heap s)" "(sh_map s1)(?d := None) = (sh_map s)(?d := None)"
    using s1(3) s0 by (auto simp: same_nodes_def)
  have freed: "\<And>p. p \<noteq> x \<Longrightarrow> hdigest (sh_heap ?s2) p = hdigest (sh_heap s) p"
      "\<And>p. p \<noteq> x \<Longrightarrow> htime (sh_heap ?s2) p = htime (sh_heap s) p"
    using heap1 by (simp_all add: heap_fields_freed)
  have out: "x \<notin> set (xs @ ys)" using d by simp
  have "node_free (s1\<lparr>sh_map := (sh_map s1)(?d := None)\<rparr>) x = Some ?s2"
  proof -
    have "x \<in> dom (sh_heap s1)" using heap1(1) dm by simp
    then show ?thesis by (auto simp: node_free_def)
  qed
  moreover have "shard_chain ?s2 (xs @ ys)"
  proof -
    have "links (hnext (sh_heap ?s2)) (hprev (sh_heap ?s2)) None (xs @ ys) None =
        links (hnext (sh_heap s1)) (hprev (sh_heap s1)) None (xs @ ys) None"
    proof (rule links_cong)
      fix z assume "z \<in> set (xs @ ys)"
      with out have "z \<noteq> x" by blast
      then show "hnext (sh_heap ?s2) z = hnext (sh_heap s1) z \<and> hprev (sh_heap ?s2) z = hprev (sh_heap s1) z"
        by (simp add: heap_fields_freed)
    qed
    with s1(2) out show ?thesis by (auto simp: shard_chain_def)
  qed
  moreover have "shard_index_ok ?s2 (xs @ ys)"
  proof -
    have eq: "map (hdigest (sh_heap ?s2)) (xs @ ys) = map (hdigest (sh_heap s)) (xs @ ys)"
    proof (rule map_cong [OF refl])
      fix p assume "p \<in> set (xs @ ys)"
      with out have "p \<noteq> x" by blast
      then show "hdigest (sh_heap ?s2) p = hdigest (sh_heap s) p" by (rule freed(1))
    qed
    have "?d \<notin> hdigest (sh_heap s) ` set (xs @ ys)"
      using i by (auto simp: shard_index_ok_def)
    then have ne: "p \<in> set (xs @ ys) \<Longrightarrow> hdigest (sh_heap s) p \<noteq> ?d" for p
      by (metis imageI)
    have "distinct (map (hdigest (sh_heap ?s2)) (xs @ ys))"
      using i unfolding eq by (simp add: shard_index_ok_def)
    moreover have "\<forall>p \<in> set (xs @ ys). sh_map ?s2 (hdigest (sh_heap ?s2) p) = Some p"
    proof
      fix p assume p: "p \<in> set (xs @ ys)"
      then have "p \<noteq> x" using out by blast
      moreover have "sh_map s (hdigest (sh_heap s) p) = Some p"
        using i p by (auto simp: shard_index_ok_def)
      ultimately show "sh_map ?s2 (hdigest (sh_heap ?s2) p) = Some p"
        using ne [OF p] freed(1) [of p] heap1(4) by simp
    qed
    moreover have "dom (sh_map ?s2) = hdigest (sh_heap s) ` set (xs @ ys)"
      using i heap1(4) ne by (auto simp: shard_index_ok_def)
    moreover have "hdigest (sh_heap s) ` set (xs @ ys) = hdigest (sh_heap ?s2) ` set (xs @ ys)"
      using eq by (metis list.set_map)
    ultimately show ?thesis by (simp only: shard_index_ok_def)
  qed
  moreover have "dom (sh_heap ?s2) = set (xs @ ys)"
    using heap1(1) dm out by auto
  moreover have "sh_map s1 = sh_map s0" using s1(3) by (simp add: same_nodes_def)
  ultimately show ?thesis
    using s1(1) freed by (intro that [of s1 ?s2]) (simp_all only: shard_repr_def)
qed

section \<open>The operations on the tracked digests\<close>

text \<open>
  Each operation, on the list of tracked digests with their timestamps.  \<open>stamp d t es\<close> moves \<open>d\<close>
  to the end with timestamp \<open>t\<close>, appending it when it is not tracked.
\<close>

definition drop_digest :: "digest \<Rightarrow> (digest \<times> 'a) list \<Rightarrow> (digest \<times> 'a) list" where
  "drop_digest d es = filter (\<lambda>e. fst e \<noteq> d) es"

definition stamp :: "digest \<Rightarrow> 'a \<Rightarrow> (digest \<times> 'a) list \<Rightarrow> (digest \<times> 'a) list" where
  "stamp d t es = drop_digest d es @ [(d, t)]"

abbreviation entry :: "lru_shard \<Rightarrow> ptr \<Rightarrow> digest \<times> u64" where
  "entry s \<equiv> \<lambda>p. (hdigest (sh_heap s) p, htime (sh_heap s) p)"

lemma shard_inv_repr: "shard_inv s \<Longrightarrow> shard_repr s (shard_nodes s)"
  by (simp add: shard_inv_def)

lemma drop_digest_absent: "d \<notin> fst ` set es \<Longrightarrow> drop_digest d es = es"
  by (auto simp: drop_digest_def intro!: filter_True)

lemma drop_digest_mid:
  assumes "shard_repr s (xs @ x # ys)"
  shows "drop_digest (hdigest (sh_heap s) x) (map (entry s) (xs @ x # ys)) = map (entry s) (xs @ ys)"
proof -
  have "hdigest (sh_heap s) x \<notin> hdigest (sh_heap s) ` set (xs @ ys)"
    using assms by (auto simp: shard_repr_def shard_index_ok_def)
  then have "drop_digest (hdigest (sh_heap s) x) (map (entry s) (xs @ ys)) = map (entry s) (xs @ ys)"
    by (intro drop_digest_absent) auto
  then show ?thesis by (simp add: drop_digest_def)
qed

lemma shard_tracked_cases [consumes 1, case_names absent present]:
  assumes "shard_inv s"
  obtains (absent) "sh_map s d = None" "d \<notin> fst ` set (shard_entries s)"
  | (present) xs x ys where "sh_map s d = Some x" "shard_repr s (xs @ x # ys)" "hdigest (sh_heap s) x = d"
      "shard_entries s = map (entry s) (xs @ x # ys)" "d \<in> fst ` set (shard_entries s)"
proof -
  note r = shard_inv_repr [OF assms]
  note es = shard_reprI(3) [OF r]
  show thesis
  proof (cases "sh_map s d")
    case None
    with shard_repr_lookup(1) [OF r] show thesis
      by (intro absent) (auto simp: es image_image)
  next
    case (Some x)
    with shard_repr_lookup(2) [OF r] have x: "x \<in> set (shard_nodes s)" "hdigest (sh_heap s) x = d"
      by auto
    then obtain xs ys where "shard_nodes s = xs @ x # ys" by (meson split_list)
    with Some r x es show thesis by (intro present [of x xs ys]) (auto simp: image_image)
  qed
qed

lemma shard_renew_entries:
  assumes r: "shard_repr s (xs @ x # ys)" and d: "hdigest (sh_heap s) x = d"
  obtains s' where "shard_renew s x ts = Some s'" "shard_inv s'" "shard_entries s' = stamp d ts (shard_entries s)"
proof -
  from r obtain s' where s': "shard_renew s x ts = Some s'" "shard_repr s' (xs @ ys @ [x])"
    "hdigest (sh_heap s') = hdigest (sh_heap s)" "htime (sh_heap s') = (htime (sh_heap s))(x := ts)"
    by (rule shard_renew_repr)
  have "x \<notin> set (xs @ ys)" using r by (auto simp: shard_repr_def shard_chain_def)
  then have "map (entry s') (xs @ ys @ [x]) = map (entry s) (xs @ ys) @ [(d, ts)]"
    using d s'(3,4) by auto
  then have "shard_entries s' = stamp d ts (shard_entries s)"
    using drop_digest_mid [OF r] d by (simp add: stamp_def shard_reprI(3) [OF r] shard_reprI(3) [OF s'(2)])
  with s' show ?thesis by (intro that [of s']) (simp_all add: shard_reprI)
qed

lemma shard_insert_entries:
  assumes i: "shard_inv s" and fresh: "sh_heap s (alloc (sh_heap s)) = None"
  obtains s' where "shard_insert alloc s d ts = Some s'" "shard_inv s'"
    "shard_entries s' = stamp d ts (shard_entries s)"
using i
proof (cases rule: shard_tracked_cases [where d = d])
  case absent
  from absent(1) fresh obtain s' x where s': "shard_insert alloc s d ts = Some s'"
    "shard_repr s' (shard_nodes s @ [x])" "x \<notin> set (shard_nodes s)"
    "hdigest (sh_heap s') = (hdigest (sh_heap s))(x := d)" "htime (sh_heap s') = (htime (sh_heap s))(x := ts)"
    by (rule shard_append_repr [OF shard_inv_repr [OF i]])
  then have "map (entry s') (shard_nodes s @ [x]) = map (entry s) (shard_nodes s) @ [(d, ts)]"
    by auto
  then have "shard_entries s' = stamp d ts (shard_entries s)"
    using absent(2) by (simp add: stamp_def drop_digest_absent shard_reprI(3) [OF s'(2)])
       (simp add: shard_entries_def)
  with s' show ?thesis by (intro that [of s']) (simp_all add: shard_reprI)
next
  case (present xs x ys)
  from present(2,3) obtain s' where "shard_renew s x ts = Some s'" "shard_inv s'"
      "shard_entries s' = stamp d ts (shard_entries s)"
    by (rule shard_renew_entries)
  with present(1) show ?thesis by (intro that [of s']) (simp_all add: shard_insert_def)
qed

lemma shard_touch_entries:
  assumes i: "shard_inv s"
  obtains s' where "shard_touch s d ts = Some (s', d \<in> fst ` set (shard_entries s))" "shard_inv s'"
    "shard_entries s' = (if d \<in> fst ` set (shard_entries s) then stamp d ts (shard_entries s) else shard_entries s)"
using i
proof (cases rule: shard_tracked_cases [where d = d])
  case absent
  with i show ?thesis by (intro that [of s]) (simp_all add: shard_touch_def)
next
  case (present xs x ys)
  from present(2,3) obtain s' where "shard_renew s x ts = Some s'" "shard_inv s'"
      "shard_entries s' = stamp d ts (shard_entries s)"
    by (rule shard_renew_entries)
  with present(1,5) show ?thesis by (intro that [of s']) (simp_all add: shard_touch_def)
qed

lemma shard_free_entries:
  assumes r: "shard_repr s (xs @ x # ys)" and d: "hdigest (sh_heap s) x = d"
    and s0: "s0 = s \<or> s0 = s\<lparr>sh_map := (sh_map s)(d := None)\<rparr>"
  obtains s1 s2 where "shard_unlink s0 x = Some s1"
    "node_free (s1\<lparr>sh_map := (sh_map s1)(d := None)\<rparr>) x = Some s2" "sh_map s1 = sh_map s0"
    "shard_inv s2" "shard_entries s2 = drop_digest d (shard_entries s)"
proof -
  from s0 d have "s0 = s \<or> s0 = s\<lparr>sh_map := (sh_map s)(hdigest (sh_heap s) x := None)\<rparr>" by simp
  with r obtain s1 s2 where s2: "shard_unlink s0 x = Some s1"
    "node_free (s1\<lparr>sh_map := (sh_map s1)(hdigest (sh_heap s) x := None)\<rparr>) x = Some s2"
    "sh_map s1 = sh_map s0" "shard_repr s2 (xs @ ys)"
    "\<And>p. p \<noteq> x \<Longrightarrow> hdigest (sh_heap s2) p = hdigest (sh_heap s) p"
    "\<And>p. p \<noteq> x \<Longrightarrow> htime (sh_heap s2) p = htime (sh_heap s) p"
    by (rule shard_free_repr) blast
  have "x \<notin> set (xs @ ys)" using r by (auto simp: shard_repr_def shard_chain_def)
  then have "\<And>p. p \<in> set (xs @ ys) \<Longrightarrow> entry s2 p = entry s p"
    using s2(5,6) by metis
  then have "map (entry s2) (xs @ ys) = map (entry s) (xs @ ys)" by (intro map_cong) auto
  then have "shard_entries s2 = drop_digest d (shard_entries s)"
    using drop_digest_mid [OF r] d by (simp only: shard_reprI(3) [OF r] shard_reprI(3) [OF s2(4)])
  with s2(1-4) d shard_reprI(1) [OF s2(4)] show ?thesis by (intro that [of s1 s2]) simp_all
qed

lemma shard_remove_entries:
  assumes i: "shard_inv s"
  obtains s' where "shard_remove s d = Some (s', d \<in> fst ` set (shard_entries s))" "shard_inv s'"
    "shard_entries s' = drop_digest d (shard_entries s)"
using i
proof (cases rule: shard_tracked_cases [where d = d])
  case absent
  with i show ?thesis by (intro that [of s]) (simp_all add: shard_remove_def drop_digest_absent)
next
  case (present xs x ys)
  let ?s0 = "s\<lparr>sh_map := (sh_map s)(d := None)\<rparr>"
  have "?s0 = s \<or> ?s0 = s\<lparr>sh_map := (sh_map s)(d := None)\<rparr>" by simp
  with present(2,3) obtain s1 s2 where s2:
    "shard_unlink (s\<lparr>sh_map := (sh_map s)(d := None)\<rparr>) x = Some s1"
    "node_free (s1\<lparr>sh_map := (sh_map s1)(d := None)\<rparr>) x = Some s2"
    "sh_map s1 = sh_map (s\<lparr>sh_map := (sh_map s)(d := None)\<rparr>)"
    "shard_inv s2" "shard_entries s2 = drop_digest d (shard_entries s)"
    by (rule shard_free_entries)
  from s2(3) have "(sh_map s1)(d := None) = sh_map s1" by simp
  with s2(2) have "node_free s1 x = Some s2" by simp
  with s2(1,4,5) present(1,5) show ?thesis by (intro that [of s2]) (simp_all add: shard_remove_def)
qed

lemma shard_repr_head:
  assumes "shard_repr s ps"
  shows "sh_head s = first_of ps None"
  using assms by (simp add: shard_repr_def shard_chain_def)

lemma shard_pop_entries:
  assumes i: "shard_inv s"
  obtains s' where "shard_pop_head s = Some (s', first_of (map fst (shard_entries s)) None)"
    "shard_inv s'" "shard_entries s' = tl (shard_entries s)"
proof (cases "shard_nodes s")
  case Nil
  with shard_repr_head [OF shard_inv_repr [OF i]] i show ?thesis
    by (intro that [of s]) (simp_all add: shard_pop_head_def shard_entries_def)
next
  case (Cons x ys)
  with shard_inv_repr [OF i] have r: "shard_repr s ([] @ x # ys)" by simp
  then have "x \<in> dom (sh_heap s)" by (simp add: shard_repr_def)
  then obtain n where n: "sh_heap s x = Some n" by auto
  from r refl obtain s1 s2 where s2: "shard_unlink s x = Some s1"
    "node_free (s1\<lparr>sh_map := (sh_map s1)(hdigest (sh_heap s) x := None)\<rparr>) x = Some s2"
    "shard_inv s2" "shard_entries s2 = drop_digest (hdigest (sh_heap s) x) (shard_entries s)"
    by (rule shard_free_entries [where s0 = s]) blast+
  moreover have "drop_digest (hdigest (sh_heap s) x) (shard_entries s) = tl (shard_entries s)"
    using drop_digest_mid [OF r] by (simp add: shard_reprI(3) [OF r])
  moreover have "sh_head s = Some x" using shard_repr_head [OF r] by simp
  ultimately show ?thesis
    using n shard_reprI(3) [OF r] heap_fields_Some(3) [of "sh_heap s" x n]
    by (intro that [of s2]) (simp_all add: shard_pop_head_def)
qed

lemma shard_head_timestamp_entries:
  assumes i: "shard_inv s"
  shows "shard_head_timestamp s = Some (first_of (map snd (shard_entries s)) None)"
proof (cases "shard_nodes s")
  case Nil
  with shard_repr_head [OF shard_inv_repr [OF i]] show ?thesis
    by (simp add: shard_head_timestamp_def shard_entries_def)
next
  case (Cons x ys)
  with shard_inv_repr [OF i] have r: "shard_repr s (x # ys)" by simp
  then have "x \<in> dom (sh_heap s)" by (simp add: shard_repr_def)
  then obtain n where n: "sh_heap s x = Some n" by auto
  with shard_repr_head [OF r] shard_reprI(3) [OF r] heap_fields_Some(4) [of "sh_heap s" x n]
  show ?thesis by (simp add: shard_head_timestamp_def)
qed

lemma shard_len_entries:
  assumes "shard_inv s"
  shows "shard_len s = length (shard_entries s)"
proof -
  have "shard_index_ok s (shard_nodes s)"
    using shard_inv_repr [OF assms] by (simp add: shard_repr_def)
  then have "dom (sh_map s) = set (map (hdigest (sh_heap s)) (shard_nodes s))"
    and "distinct (map (hdigest (sh_heap s)) (shard_nodes s))"
    by (simp_all add: shard_index_ok_def)
  then show ?thesis
    unfolding shard_len_def shard_entries_def by (metis distinct_card length_map)
qed

lemma shard_heap_finite: "shard_inv s \<Longrightarrow> finite (dom (sh_heap s))"
  by (simp add: shard_inv_def shard_repr_def)

lemma shard_order_distinct: "shard_inv s \<Longrightarrow> distinct (shard_order s)"
  by (simp add: shard_inv_def shard_repr_def shard_index_ok_def shard_order_def)

text \<open>Dropping a shard frees every node and returns.\<close>

lemma drop_nodes_chain:
  "links (hnext h) pr p ps None \<Longrightarrow> distinct ps \<Longrightarrow> set ps \<subseteq> dom h \<Longrightarrow>
   drop_nodes h (first_of ps None) = Some (h |` (- set ps))"
proof (induction ps arbitrary: h p)
  case Nil
  then show ?case by (simp add: drop_nodes.simps [of h None])
next
  case (Cons x ps)
  then obtain n where n: "h x = Some n" by auto
  let ?h = "h(x := None)"
  have eq: "y \<in> set ps \<Longrightarrow> hnext ?h y = hnext h y" for y
    using Cons.prems(2) by (intro heap_fields_freed) auto
  then have "links (hnext ?h) pr (Some x) ps None"
    using Cons.prems(1) links_cong [of ps "hnext ?h" "hnext h" pr pr] by simp
  moreover have "set ps \<subseteq> dom ?h" using Cons.prems by auto
  ultimately have "drop_nodes ?h (first_of ps None) = Some (?h |` (- set ps))"
    using Cons.IH [of ?h "Some x"] Cons.prems(2) by (metis distinct.simps(2))
  moreover have "ln_next n = first_of ps None"
    using Cons.prems(1) heap_fields_Some(1) [of h x n, OF n] by simp
  moreover have "?h |` (- set ps) = h |` (- set (x # ps))"
    by (auto simp: restrict_map_def fun_eq_iff)
  ultimately show ?case using n by (simp add: drop_nodes.simps [of h "Some x"])
qed

lemma shard_drop_empty: "shard_inv s \<Longrightarrow> shard_drop s = Some Map.empty"
proof -
  assume "shard_inv s"
  then have "links (hnext (sh_heap s)) (hprev (sh_heap s)) None (shard_nodes s) None"
      "distinct (shard_nodes s)" "sh_head s = first_of (shard_nodes s) None"
    and dm: "dom (sh_heap s) = set (shard_nodes s)"
    by (simp_all add: shard_inv_def shard_repr_def shard_chain_def)
  then have "shard_drop s = Some (sh_heap s |` (- dom (sh_heap s)))"
    unfolding shard_drop_def by (simp add: drop_nodes_chain)
  then show ?thesis by (simp add: restrict_map_def fun_eq_iff domIff)
qed

section \<open>A shard is a recency list\<close>

lemma map_fst_drop_digest: "map fst (drop_digest d es) = removeAll d (map fst es)"
  by (induction es) (auto simp: drop_digest_def)

interpretation shard: recency_list shard_order shard_inv
  "\<lambda>s d ts. map_option fst (shard_touch s d ts)" "\<lambda>s d. map_option fst (shard_remove s d)" shard_pop_head
proof (unfold_locales, goal_cases)
  case (1 s)
  then show ?case by (rule shard_order_distinct)
next
  case (2 s d ts)
  then obtain s' where "shard_touch s d ts = Some (s', d \<in> fst ` set (shard_entries s))" "shard_inv s'"
    "shard_entries s' = (if d \<in> fst ` set (shard_entries s) then stamp d ts (shard_entries s) else shard_entries s)"
    by (rule shard_touch_entries)
  then show ?case by (simp add: shard_order_entries stamp_def move_to_end_def map_fst_drop_digest)
next
  case (3 s d)
  then obtain s' where "shard_remove s d = Some (s', d \<in> fst ` set (shard_entries s))" "shard_inv s'"
    "shard_entries s' = drop_digest d (shard_entries s)"
    by (rule shard_remove_entries)
  then show ?case by (simp add: shard_order_entries map_fst_drop_digest)
next
  case (4 s)
  then obtain s' where "shard_pop_head s = Some (s', first_of (map fst (shard_entries s)) None)"
    "shard_inv s'" "shard_entries s' = tl (shard_entries s)"
    by (rule shard_pop_entries)
  then show ?case by (simp add: shard_order_entries map_tl)
qed

end
