(* ===== verification/Sharded_Lru.thy ===== *)
theory Sharded_Lru
  imports Cache_Lru
begin

text \<open>
  \<open>ShardedLru\<close> of \<^verbatim>\<open>rv-cache/src/lru.rs\<close>: 64 shards and a global clock that stamps every insertion
  and access.  The theory shows that the shards together implement one global recency list: the
  eviction, which compares the oldest timestamps of the shards, returns the globally least recently
  used digest.
\<close>

section \<open>The tracker\<close>

definition N_SHARDS :: nat where
  "N_SHARDS = 64"

record sharded_lru =
  sl_shards :: "lru_shard list"
  sl_capacity :: usize
  sl_clock :: u64

definition sharded_new :: "usize \<Rightarrow> sharded_lru" where
  "sharded_new capacity =
     \<lparr>sl_shards = replicate N_SHARDS shard_new, sl_capacity = capacity, sl_clock = 0\<rparr>"

text \<open>\<open>clock.fetch_add(1)\<close>.\<close>

definition next_timestamp :: "sharded_lru \<Rightarrow> sharded_lru \<times> u64" where
  "next_timestamp l = (l\<lparr>sl_clock := sl_clock l + 1\<rparr>, sl_clock l)"

definition shard_index :: "digest \<Rightarrow> nat" where
  "shard_index d = unat (bytes d ! 0) mod N_SHARDS"

definition sharded_insert :: "(node_heap \<Rightarrow> ptr) \<Rightarrow> sharded_lru \<Rightarrow> digest \<Rightarrow> sharded_lru option" where
  "sharded_insert alloc l d = (case next_timestamp l of (l1, ts) \<Rightarrow> do {
     s \<leftarrow> vec_get (sl_shards l1) (shard_index d);
     s' \<leftarrow> shard_insert alloc s d ts;
     ss \<leftarrow> vec_set (sl_shards l1) (shard_index d) s';
     Some (l1\<lparr>sl_shards := ss\<rparr>) })"

definition sharded_touch :: "sharded_lru \<Rightarrow> digest \<Rightarrow> sharded_lru option" where
  "sharded_touch l d = (case next_timestamp l of (l1, ts) \<Rightarrow> do {
     s \<leftarrow> vec_get (sl_shards l1) (shard_index d);
     (s', found) \<leftarrow> shard_touch s d ts;
     ss \<leftarrow> vec_set (sl_shards l1) (shard_index d) s';
     Some (l1\<lparr>sl_shards := ss\<rparr>) })"

definition sharded_remove :: "sharded_lru \<Rightarrow> digest \<Rightarrow> sharded_lru option" where
  "sharded_remove l d = do {
     s \<leftarrow> vec_get (sl_shards l) (shard_index d);
     (s', found) \<leftarrow> shard_remove s d;
     ss \<leftarrow> vec_set (sl_shards l) (shard_index d) s';
     Some (l\<lparr>sl_shards := ss\<rparr>) }"

text \<open>The two passes of \<open>evict_oldest\<close>: the scan over the heads, and the pop from the winner.\<close>

fun evict_scan :: "nat \<Rightarrow> lru_shard list \<Rightarrow> nat option \<Rightarrow> u64 \<Rightarrow> (nat option \<times> u64) option" where
  "evict_scan i [] oldest_shard oldest_ts = Some (oldest_shard, oldest_ts)"
| "evict_scan i (s # ss) oldest_shard oldest_ts = do {
     h \<leftarrow> shard_head_timestamp s;
     (case h of None \<Rightarrow> evict_scan (Suc i) ss oldest_shard oldest_ts
      | Some ts \<Rightarrow> if ts < oldest_ts then evict_scan (Suc i) ss (Some i) ts
                  else evict_scan (Suc i) ss oldest_shard oldest_ts) }"

definition evict_pop :: "sharded_lru \<Rightarrow> nat option \<Rightarrow> (sharded_lru \<times> digest option) option" where
  "evict_pop l winner =
     (case winner of None \<Rightarrow> Some (l, None)
      | Some i \<Rightarrow> do {
          s \<leftarrow> vec_get (sl_shards l) i;
          (s', d) \<leftarrow> shard_pop_head s;
          ss \<leftarrow> vec_set (sl_shards l) i s';
          Some (l\<lparr>sl_shards := ss\<rparr>, d) })"

definition sharded_evict_oldest :: "sharded_lru \<Rightarrow> (sharded_lru \<times> digest option) option" where
  "sharded_evict_oldest l = do {
     (winner, ts) \<leftarrow> evict_scan 0 (sl_shards l) None (-1);
     evict_pop l winner }"

definition sharded_len :: "sharded_lru \<Rightarrow> nat" where
  "sharded_len l = sum_list (map shard_len (sl_shards l))"

definition sharded_is_empty :: "sharded_lru \<Rightarrow> bool" where
  "sharded_is_empty l \<longleftrightarrow> (\<forall>s \<in> set (sl_shards l). shard_len s = 0)"

section \<open>The global order\<close>

text \<open>
  \<open>sharded_repr l g\<close>: the shards hold the entries of \<open>g\<close>, a list of digests with timestamps in
  strictly increasing order, below the clock.
\<close>

abbreviation of_shard :: "nat \<Rightarrow> (digest \<times> u64) list \<Rightarrow> (digest \<times> u64) list" where
  "of_shard i g \<equiv> filter (\<lambda>e. shard_index (fst e) = i) g"

definition sharded_repr :: "sharded_lru \<Rightarrow> (digest \<times> u64) list \<Rightarrow> bool" where
  "sharded_repr l g \<longleftrightarrow> length (sl_shards l) = N_SHARDS \<and>
     (\<forall>i < N_SHARDS. shard_inv (sl_shards l ! i) \<and> shard_entries (sl_shards l ! i) = of_shard i g) \<and>
     sorted_wrt (<) (map snd g) \<and> (\<forall>e \<in> set g. snd e < sl_clock l) \<and> distinct (map fst g)"

lemma shard_index_less [simp]: "shard_index d < N_SHARDS"
  by (simp add: shard_index_def N_SHARDS_def)

lemma sharded_new_repr: "sharded_repr (sharded_new capacity) []"
  using shard_reprI [OF shard_new_repr] by (simp add: sharded_repr_def sharded_new_def)

lemma sharded_reprD:
  assumes "sharded_repr l g" "i < N_SHARDS"
  shows "i < length (sl_shards l)" "shard_inv (sl_shards l ! i)"
    "shard_entries (sl_shards l ! i) = of_shard i g"
  using assms by (simp_all add: sharded_repr_def)

lemma sharded_repr_update:
  assumes r: "sharded_repr l g" and i: "i < N_SHARDS" "shard_inv s'" "shard_entries s' = of_shard i g'"
    and others: "\<And>j. j \<noteq> i \<Longrightarrow> of_shard j g' = of_shard j g"
    and g': "sorted_wrt (<) (map snd g')" "\<And>e. e \<in> set g' \<Longrightarrow> snd e < c" "distinct (map fst g')"
  shows "sharded_repr (l\<lparr>sl_clock := c, sl_shards := (sl_shards l)[i := s']\<rparr>) g'"
  using r i others g' by (auto simp: sharded_repr_def nth_list_update)

lemma of_shard_drop: "of_shard i (drop_digest d g) = drop_digest d (of_shard i g)"
  by (induction g) (auto simp: drop_digest_def)

lemma of_shard_drop_other: "j \<noteq> shard_index d \<Longrightarrow> of_shard j (drop_digest d g) = of_shard j g"
  by (induction g) (auto simp: drop_digest_def)

lemma drop_digest_props:
  "sorted_wrt (<) (map snd g) \<Longrightarrow> sorted_wrt (<) (map snd (drop_digest d g))"
  "set (drop_digest d g) \<subseteq> set g"
  "distinct (map fst g) \<Longrightarrow> distinct (map fst (drop_digest d g))"
  "d \<notin> fst ` set (drop_digest d g)"
proof -
  show "sorted_wrt (<) (map snd g) \<Longrightarrow> sorted_wrt (<) (map snd (drop_digest d g))"
    unfolding drop_digest_def by (simp add: sorted_wrt_map sorted_wrt_filter)
  show "distinct (map fst g) \<Longrightarrow> distinct (map fst (drop_digest d g))"
    unfolding drop_digest_def by (rule distinct_map_filter)
qed (auto simp: drop_digest_def)

lemma stamp_repr:
  assumes r: "sharded_repr l g" and c: "sl_clock l \<noteq> (-1)"
    and s': "shard_inv s'" "shard_entries s' = stamp d (sl_clock l) (of_shard (shard_index d) g)"
  shows "sharded_repr (l\<lparr>sl_clock := sl_clock l + 1, sl_shards := (sl_shards l)[shard_index d := s']\<rparr>)
           (stamp d (sl_clock l) g)"
proof (rule sharded_repr_update [OF r shard_index_less s'(1)])
  let ?c = "sl_clock l"
  from r have g: "sorted_wrt (<) (map snd g)" "\<And>e. e \<in> set g \<Longrightarrow> snd e < ?c" "distinct (map fst g)"
    by (simp_all add: sharded_repr_def)
  have lt: "?c < ?c + 1"
    using c inc_less_eq_triv_imp [of ?c] by (meson not_le)
  show "shard_entries s' = of_shard (shard_index d) (stamp d ?c g)"
    using s'(2) by (simp add: stamp_def of_shard_drop)
  show "of_shard j (stamp d ?c g) = of_shard j g" if "j \<noteq> shard_index d" for j
    using that by (simp add: stamp_def of_shard_drop_other)
  show "sorted_wrt (<) (map snd (stamp d ?c g))"
    using drop_digest_props(1) [of g d] drop_digest_props(2) [of d g] g(1,2) by (auto simp: stamp_def sorted_wrt_append)
  show "snd e < ?c + 1" if "e \<in> set (stamp d ?c g)" for e
    using that drop_digest_props(2) [of d g] g(2) [of e] lt by (auto simp: stamp_def dest: less_trans)
  show "distinct (map fst (stamp d ?c g))"
    using drop_digest_props(3) [of g d] drop_digest_props(4) [of d g] g(3) by (auto simp: stamp_def)
qed

section \<open>Eviction\<close>

lemma evict_scan_keep:
  assumes "\<And>s. s \<in> set ss \<Longrightarrow> shard_inv s"
    and "\<And>s e. s \<in> set ss \<Longrightarrow> e \<in> set (shard_entries s) \<Longrightarrow> t < snd e"
  shows "evict_scan i ss w t = Some (w, t)"
  using assms
proof (induction ss arbitrary: i)
  case (Cons s ss)
  then have "shard_head_timestamp s = Some (first_of (map snd (shard_entries s)) None)"
    by (simp add: shard_head_timestamp_entries)
  with Cons show ?case by (cases "shard_entries s") force+
qed simp

lemma evict_scan_min:
  assumes "\<And>s. s \<in> set ss \<Longrightarrow> shard_inv s"
    and "j < length ss" "shard_entries (ss ! j) = e # es" "snd e < t0"
    and "\<And>k e'. k < length ss \<Longrightarrow> k \<noteq> j \<Longrightarrow> e' \<in> set (shard_entries (ss ! k)) \<Longrightarrow> snd e < snd e'"
  shows "evict_scan i ss w t0 = Some (Some (i + j), snd e)"
  using assms
proof (induction ss arbitrary: i j w t0)
  case (Cons s ss)
  have head: "shard_head_timestamp s = Some (first_of (map snd (shard_entries s)) None)"
    using Cons.prems(1) by (simp add: shard_head_timestamp_entries)
  show ?case
  proof (cases j)
    case 0
    have "evict_scan (Suc i) ss (Some i) (snd e) = Some (Some i, snd e)"
    proof (rule evict_scan_keep)
      show "shard_inv s'" if "s' \<in> set ss" for s' using Cons.prems(1) that by simp
      fix s' e' assume s': "s' \<in> set ss" "e' \<in> set (shard_entries s')"
      then obtain k where "k < length ss" "s' = ss ! k" by (metis in_set_conv_nth)
      with s' 0 Cons.prems(5) [of "Suc k" e'] show "snd e < snd e'" by simp
    qed
    with head 0 Cons.prems(3,4) show ?thesis by simp
  next
    case (Suc j')
    have IH: "evict_scan (Suc i) ss w' t = Some (Some (i + j), snd e)" if "snd e < t" for w' t
    proof -
      have "evict_scan (Suc i) ss w' t = Some (Some (Suc i + j'), snd e)"
      proof (rule Cons.IH)
        show "shard_inv s'" if "s' \<in> set ss" for s' using Cons.prems(1) that by simp
        show "snd e < snd e'" if "k < length ss" "k \<noteq> j'" "e' \<in> set (shard_entries (ss ! k))" for k e'
          using Cons.prems(5) [of "Suc k" e'] that Suc by simp
      qed (use Cons.prems Suc that in simp_all)
      then show ?thesis using Suc by simp
    qed
    have first: "snd e < snd e'" if "e' \<in> set (shard_entries s)" for e'
      using Cons.prems(5) [of 0 e'] that Suc by simp
    show ?thesis
    proof (cases "shard_entries s")
      case Nil
      with head IH Cons.prems(4) show ?thesis by simp
    next
      case (Cons e' es')
      with first have "snd e < snd e'" by simp
      with head IH Cons Cons.prems(4) \<open>snd e < t0\<close> show ?thesis by simp
    qed
  qed
qed simp

lemma evict_scan_empty:
  "(\<And>s. s \<in> set ss \<Longrightarrow> shard_inv s \<and> shard_entries s = []) \<Longrightarrow> evict_scan i ss w t = Some (w, t)"
  by (rule evict_scan_keep) auto

lemma sharded_evict_repr:
  assumes r: "sharded_repr l g"
  obtains l' where "sharded_evict_oldest l = Some (l', first_of (map fst g) None)"
    "sharded_repr l' (tl g)" "sl_clock l' = sl_clock l"
proof -
  from r have inv: "s \<in> set (sl_shards l) \<Longrightarrow> shard_inv s" for s
    by (metis in_set_conv_nth sharded_repr_def)
  show ?thesis
  proof (cases g)
    case Nil
    with r have "s \<in> set (sl_shards l) \<Longrightarrow> shard_inv s \<and> shard_entries s = []" for s
      by (metis filter.simps(1) in_set_conv_nth sharded_repr_def)
    then have "evict_scan 0 (sl_shards l) None (-1) = Some (None, -1)"
      by (rule evict_scan_empty)
    with Nil r show ?thesis
      by (intro that [of l]) (simp_all add: sharded_evict_oldest_def evict_pop_def)
  next
    case (Cons e g')
    let ?j = "shard_index (fst e)"
    note j = sharded_reprD [OF r shard_index_less [of "fst e"]]
    from r have g: "sorted_wrt (<) (map snd g)" "\<And>e. e \<in> set g \<Longrightarrow> snd e < sl_clock l" "distinct (map fst g)"
      by (simp_all add: sharded_repr_def)
    have ej: "shard_entries (sl_shards l ! ?j) = e # of_shard ?j g'" using j(3) Cons by simp
    have scan: "evict_scan 0 (sl_shards l) None (-1) = Some (Some (0 + ?j), snd e)"
    proof (rule evict_scan_min)
      show "shard_entries (sl_shards l ! ?j) = e # of_shard ?j g'" by (rule ej)
      show "snd e < - 1"
        using g(2) [of e] Cons by (metis list.set_intros(1) order_less_le_trans word_order.extremum)
      fix k e' assume k: "k < length (sl_shards l)" "k \<noteq> ?j" "e' \<in> set (shard_entries (sl_shards l ! k))"
      then have "e' \<in> set (of_shard k g)" using r by (simp add: sharded_repr_def)
      with k(2) Cons g(1) show "snd e < snd e'" by auto
    qed (use inv j in auto)
    from j(2) obtain s' where s': "shard_pop_head (sl_shards l ! ?j) =
        Some (s', first_of (map fst (shard_entries (sl_shards l ! ?j))) None)"
        "shard_inv s'" "shard_entries s' = tl (shard_entries (sl_shards l ! ?j))"
      by (rule shard_pop_entries)
    have "sharded_repr (l\<lparr>sl_clock := sl_clock l, sl_shards := (sl_shards l)[?j := s']\<rparr>) g'"
      using Cons g ej s' by (intro sharded_repr_update [OF r shard_index_less]) auto
    moreover have "sharded_evict_oldest l = Some (l\<lparr>sl_shards := (sl_shards l)[?j := s']\<rparr>, Some (fst e))"
      using scan s'(1) ej j(1) by (simp add: sharded_evict_oldest_def evict_pop_def)
    ultimately show ?thesis
      using Cons by (intro that [of "l\<lparr>sl_shards := (sl_shards l)[?j := s']\<rparr>"]) simp_all
  qed
qed

section \<open>Refinement to a global recency list\<close>

datatype slru_op = SInsert digest | STouch digest | SRemove digest | SEvict

text \<open>The contract: one list of digests, least recently used first.\<close>

fun slru_spec :: "digest list \<Rightarrow> slru_op \<Rightarrow> digest list \<times> digest option" where
  "slru_spec ds (SInsert d) = (removeAll d ds @ [d], None)"
| "slru_spec ds (STouch d) = (move_to_end d ds, None)"
| "slru_spec ds (SRemove d) = (removeAll d ds, None)"
| "slru_spec ds SEvict = (tl ds, first_of ds None)"

fun slru_step :: "(node_heap \<Rightarrow> ptr) \<Rightarrow> sharded_lru \<Rightarrow> slru_op \<Rightarrow> (sharded_lru \<times> digest option) option" where
  "slru_step alloc l (SInsert d) = map_option (\<lambda>l'. (l', None)) (sharded_insert alloc l d)"
| "slru_step alloc l (STouch d) = map_option (\<lambda>l'. (l', None)) (sharded_touch l d)"
| "slru_step alloc l (SRemove d) = map_option (\<lambda>l'. (l', None)) (sharded_remove l d)"
| "slru_step alloc l SEvict = sharded_evict_oldest l"

fun slru_run :: "(node_heap \<Rightarrow> ptr) \<Rightarrow> sharded_lru \<Rightarrow> slru_op list \<Rightarrow> (sharded_lru \<times> digest option list) option" where
  "slru_run alloc l [] = Some (l, [])"
| "slru_run alloc l (c # cs) = do {
     (l', x) \<leftarrow> slru_step alloc l c;
     (l'', xs) \<leftarrow> slru_run alloc l' cs;
     Some (l'', x # xs) }"

text \<open>The allocator returns an address that is not in use.\<close>

definition fresh_alloc :: "(node_heap \<Rightarrow> ptr) \<Rightarrow> bool" where
  "fresh_alloc alloc \<longleftrightarrow> (\<forall>h. finite (dom h) \<longrightarrow> h (alloc h) = None)"

lemma of_shard_mem: "d \<in> fst ` set (of_shard (shard_index d) g) \<longleftrightarrow> d \<in> fst ` set g"
  by auto

lemma map_fst_stamp: "map fst (stamp d t g) = removeAll d (map fst g) @ [d]"
  by (simp add: stamp_def map_fst_drop_digest)

lemma drop_clock_repr:
  assumes "sharded_repr l g" "sl_clock l \<noteq> -1"
  shows "sharded_repr (l\<lparr>sl_clock := sl_clock l + 1\<rparr>) g"
proof -
  have "sl_clock l < sl_clock l + 1"
    using assms(2) inc_less_eq_triv_imp [of "sl_clock l"] by (meson not_le)
  with assms(1) show ?thesis by (auto simp: sharded_repr_def dest: less_trans)
qed

lemma slru_step_sim:
  assumes r: "sharded_repr l g" and c: "sl_clock l \<noteq> -1" and alloc: "fresh_alloc alloc"
  shows "\<exists>l' g' x. slru_step alloc l op = Some (l', x) \<and> sharded_repr l' g' \<and>
     slru_spec (map fst g) op = (map fst g', x) \<and>
     (sl_clock l' = sl_clock l \<or> sl_clock l' = sl_clock l + 1)"
proof (cases op)
  case (SInsert d)
  note j = sharded_reprD [OF r shard_index_less [of d]]
  have "sh_heap (sl_shards l ! shard_index d) (alloc (sh_heap (sl_shards l ! shard_index d))) = None"
    using alloc shard_heap_finite [OF j(2)] by (simp add: fresh_alloc_def)
  with j(2) obtain s' where s': "shard_insert alloc (sl_shards l ! shard_index d) d (sl_clock l) = Some s'"
      "shard_inv s'" "shard_entries s' = stamp d (sl_clock l) (shard_entries (sl_shards l ! shard_index d))"
    by (rule shard_insert_entries)
  from stamp_repr [OF r c s'(2)] s' j show ?thesis
    by (auto simp: SInsert sharded_insert_def next_timestamp_def map_fst_stamp
        intro!: exI [of _ "stamp d (sl_clock l) g"])
next
  case (STouch d)
  note j = sharded_reprD [OF r shard_index_less [of d]]
  from j(2) obtain s' where s': "shard_touch (sl_shards l ! shard_index d) d (sl_clock l) =
        Some (s', d \<in> fst ` set (shard_entries (sl_shards l ! shard_index d)))"
      "shard_inv s'" "shard_entries s' = (if d \<in> fst ` set (shard_entries (sl_shards l ! shard_index d))
         then stamp d (sl_clock l) (shard_entries (sl_shards l ! shard_index d))
         else shard_entries (sl_shards l ! shard_index d))"
    by (rule shard_touch_entries)
  let ?l' = "l\<lparr>sl_clock := sl_clock l + 1, sl_shards := (sl_shards l)[shard_index d := s']\<rparr>"
  have step: "slru_step alloc l op = Some (?l', None)"
    using s'(1) j(1) by (simp add: STouch sharded_touch_def next_timestamp_def)
  show ?thesis
  proof (cases "d \<in> fst ` set g")
    case True
    then have "shard_entries s' = stamp d (sl_clock l) (of_shard (shard_index d) g)"
      using s'(3) j(3) of_shard_mem [of d g] by simp
    from stamp_repr [OF r c s'(2) this] step True show ?thesis
      by (auto simp: STouch map_fst_stamp move_to_end_def intro!: exI [of _ "stamp d (sl_clock l) g"])
  next
    case False
    then have e: "shard_entries s' = of_shard (shard_index d) g"
      using s'(3) j(3) of_shard_mem [of d g] by simp
    from drop_clock_repr [OF r c] have "sharded_repr ?l' g"
      using s'(2) e by (auto simp: sharded_repr_def nth_list_update)
    with step False show ?thesis by (auto simp: STouch move_to_end_def)
  qed
next
  case (SRemove d)
  note j = sharded_reprD [OF r shard_index_less [of d]]
  from j(2) obtain s' where s': "shard_remove (sl_shards l ! shard_index d) d =
        Some (s', d \<in> fst ` set (shard_entries (sl_shards l ! shard_index d)))"
      "shard_inv s'" "shard_entries s' = drop_digest d (shard_entries (sl_shards l ! shard_index d))"
    by (rule shard_remove_entries)
  have "sharded_repr (l\<lparr>sl_clock := sl_clock l, sl_shards := (sl_shards l)[shard_index d := s']\<rparr>) (drop_digest d g)"
  proof (rule sharded_repr_update [OF r shard_index_less s'(2)])
    show "shard_entries s' = of_shard (shard_index d) (drop_digest d g)"
      using s'(3) j(3) by (simp add: of_shard_drop)
    show "of_shard i (drop_digest d g) = of_shard i g" if "i \<noteq> shard_index d" for i
      using that by (rule of_shard_drop_other)
  qed (use r drop_digest_props(1,3) [of g d] drop_digest_props(2) [of d g] in \<open>auto simp: sharded_repr_def\<close>)
  then show ?thesis
    using s'(1) j(1)
    by (auto simp: SRemove sharded_remove_def map_fst_drop_digest intro!: exI [of _ "drop_digest d g"])
next
  case SEvict
  from r obtain l' where "sharded_evict_oldest l = Some (l', first_of (map fst g) None)"
      "sharded_repr l' (tl g)" "sl_clock l' = sl_clock l"
    by (rule sharded_evict_repr)
  then show ?thesis by (auto simp: SEvict map_tl)
qed

lemma slru_run_sim:
  assumes "sharded_repr l g" "unat (sl_clock l) + length cs < 2 ^ 64" "fresh_alloc alloc"
  shows "\<exists>l' g' xs. slru_run alloc l cs = Some (l', xs) \<and> sharded_repr l' g' \<and>
     run slru_spec (map fst g) cs = (map fst g', xs)"
  using assms
proof (induction cs arbitrary: l g)
  case (Cons c cs)
  have clock: "sl_clock l \<noteq> -1"
  proof
    assume "sl_clock l = -1"
    with Cons.prems(2) show False by (simp add: unsigned_minus_1_eq_mask mask_eq_exp_minus_1)
  qed
  from slru_step_sim [OF Cons.prems(1) clock Cons.prems(3), of c] obtain l1 g1 x where
    l1: "slru_step alloc l c = Some (l1, x)" "sharded_repr l1 g1" "slru_spec (map fst g) c = (map fst g1, x)"
    and c1: "sl_clock l1 = sl_clock l \<or> sl_clock l1 = sl_clock l + 1"
    by blast
  from clock have "1 + sl_clock l \<noteq> 0" by (metis add.commute eq_neg_iff_add_eq_0)
  then have "unat (sl_clock l + 1) = Suc (unat (sl_clock l))"
    by (metis unatSuc add.commute)
  with c1 Cons.prems(2) have "unat (sl_clock l1) + length cs < 2 ^ 64" by auto
  with Cons.IH [OF l1(2)] Cons.prems(3) l1 show ?case by (auto split: prod.splits)
qed auto

lemma sum_of_shards: "sum_list (map (\<lambda>i. length (of_shard i g)) [0..<N_SHARDS]) = length g"
proof (induction g)
  case (Cons e g)
  have one: "sum_list (map (\<lambda>i. if k = i then 1 else 0) [0..<n]) = (if k < n then 1 else (0::nat))" for k n :: nat
    by (induction n) auto
  have "map (\<lambda>i. length (of_shard i (e # g))) [0..<N_SHARDS] =
      map (\<lambda>i. (if shard_index (fst e) = i then 1 else 0) + length (of_shard i g)) [0..<N_SHARDS]"
    by simp
  then show ?case
    using Cons one [of "shard_index (fst e)" N_SHARDS] by (simp only: sum_list_addf) simp
qed (simp add: sum_list_0)

lemma sharded_len_repr:
  assumes r: "sharded_repr l g"
  shows "sharded_len l = length g" "sharded_is_empty l \<longleftrightarrow> g = []"
proof -
  from r have len: "length (sl_shards l) = N_SHARDS" by (simp add: sharded_repr_def)
  have "map shard_len (sl_shards l) = map (\<lambda>i. length (of_shard i g)) [0..<N_SHARDS]"
    using sharded_reprD [OF r] len by (intro nth_equalityI) (simp_all add: shard_len_entries)
  then show eq: "sharded_len l = length g"
    unfolding sharded_len_def by (simp only: sum_of_shards)
  show "sharded_is_empty l \<longleftrightarrow> g = []"
  proof -
    have "g = [] \<longleftrightarrow> sharded_len l = 0" using eq by simp
    then show ?thesis by (simp add: sharded_is_empty_def sharded_len_def sum_list_eq_0_iff)
  qed
qed

text \<open>
  C6: The sharded tracker implements one global recency list.  Whatever allocator returns unused
  addresses, and for any sequence of fewer than \<open>2\<^sup>6\<^sup>4\<close> calls on a new tracker, every call returns (no
  invalid pointer is followed), the digests that \<open>evict_oldest\<close> returns are those at the least
  recently used end of a single list of digests, and \<open>len\<close> and \<open>is_empty\<close> describe that list.
\<close>

theorem sharded_lru_refines:
  assumes "fresh_alloc alloc" and "length cs < 2 ^ 64"
  shows "\<exists>l ds xs. slru_run alloc (sharded_new capacity) cs = Some (l, xs) \<and>
     run slru_spec [] cs = (ds, xs) \<and> sharded_len l = length ds \<and> (sharded_is_empty l \<longleftrightarrow> ds = [])"
proof -
  have "unat (sl_clock (sharded_new capacity)) + length cs < 2 ^ 64"
    using assms(2) by (simp add: sharded_new_def)
  from slru_run_sim [OF sharded_new_repr this assms(1)] obtain l g xs where
    "slru_run alloc (sharded_new capacity) cs = Some (l, xs)" "sharded_repr l g"
    "run slru_spec [] cs = (map fst g, xs)"
    by auto
  with sharded_len_repr [of l g] show ?thesis by simp
qed

definition bump_alloc :: "node_heap \<Rightarrow> ptr" where
  "bump_alloc h = (if dom h = {} then 0 else Suc (Max (dom h)))"

lemma fresh_bump_alloc: "fresh_alloc bump_alloc"
proof -
  have "h (bump_alloc h) = None" if "finite (dom h)" for h
  proof (rule ccontr)
    assume "h (bump_alloc h) \<noteq> None"
    then have b: "bump_alloc h \<in> dom h" by auto
    with that have "bump_alloc h \<le> Max (dom h)" by simp
    with b show False by (auto simp: bump_alloc_def split: if_splits)
  qed
  then show ?thesis by (simp add: fresh_alloc_def)
qed

theorem sharded_lru_refines_witness:
  "fresh_alloc bump_alloc \<and>
   (\<exists>l. slru_run bump_alloc (sharded_new 8)
      [SInsert (make_digest 1), SInsert (make_digest 65), STouch (make_digest 1), SEvict]
    = Some (l, [None, None, None, Some (make_digest 65)]) \<and> sharded_len l = 1)"
  using sharded_lru_refines [OF fresh_bump_alloc,
      of "[SInsert (make_digest 1), SInsert (make_digest 65), STouch (make_digest 1), SEvict]" 8]
    fresh_bump_alloc
  by (auto simp: move_to_end_def)

text \<open>
  C7: A shard of the tracker is memory safe and does not leak.  In every shard whose nodes are exactly
  its chain, evicting as many times as there are entries follows no invalid pointer and returns the
  digests oldest first, after which no node is left allocated; and dropping the shard visits and
  frees every node once and returns.
\<close>

theorem shard_drain_and_drop:
  assumes "shard_inv s"
  shows "\<exists>s'. evict_n shard_pop_head (length (shard_order s)) s = Some (s', map Some (shard_order s)) \<and>
           sh_heap s' = Map.empty \<and> shard_drop s = Some Map.empty"
proof -
  from shard.evict_n_order [OF assms, of "length (shard_order s)"] obtain s' where
    s': "evict_n shard_pop_head (length (shard_order s)) s = Some (s', map Some (shard_order s))"
      "shard_inv s'" "shard_order s' = []"
    by auto
  from s'(2,3) have "dom (sh_heap s') = {}"
    by (simp add: shard_inv_def shard_repr_def shard_order_def)
  with s'(1) shard_drop_empty [OF assms] show ?thesis by auto
qed

definition demo_shard :: lru_shard where
  "demo_shard = the (shard_insert (\<lambda>_. 1) (the (shard_insert (\<lambda>_. 0) shard_new (make_digest 7) 0)) (make_digest 9) 1)"

lemma demo_shard_eq:
  "demo_shard = \<lparr>sh_map = [make_digest 7 \<mapsto> 0, make_digest 9 \<mapsto> 1], sh_head = Some 0, sh_tail = Some 1,
     sh_heap = [0 \<mapsto> \<lparr>ln_digest = make_digest 7, ln_timestamp = 0, ln_prev = None, ln_next = Some 1\<rparr>,
                1 \<mapsto> \<lparr>ln_digest = make_digest 9, ln_timestamp = 1, ln_prev = Some 0, ln_next = None\<rparr>]\<rparr>"
  by (simp add: demo_shard_def shard_new_def shard_insert_def shard_push_tail_def node_write_def Let_def)
     (auto simp: fun_eq_iff)

lemma demo_shard_repr: "shard_repr demo_shard [0, 1]"
  by (auto simp: demo_shard_eq shard_repr_def shard_chain_def shard_index_ok_def heap_field_defs)

theorem shard_drain_and_drop_witness:
  "shard_inv demo_shard \<and> shard_order demo_shard = [make_digest 7, make_digest 9] \<and>
   (\<exists>s'. evict_n shard_pop_head 2 demo_shard = Some (s', [Some (make_digest 7), Some (make_digest 9)]) \<and>
      shard_drop demo_shard = Some Map.empty)"
proof -
  have order: "shard_order demo_shard = [make_digest 7, make_digest 9]"
    by (simp add: shard_reprI(2) [OF demo_shard_repr]) (simp add: demo_shard_eq hdigest_def)
  show ?thesis
    using shard_drain_and_drop [OF shard_reprI(1) [OF demo_shard_repr]] shard_reprI(1) [OF demo_shard_repr]
    unfolding order by (auto simp: eval_nat_numeral)
qed

end
