(* ===== verification/Log_Tags.thy ===== *)
theory Log_Tags
  imports Rust_Prelude
begin

text \<open>
  The log tags of \<^verbatim>\<open>rv-types/src/vsl.rs\<close>, with their names and codes, and the transaction ids.  A
  constructor has the name of the Rust variant behind the prefix \<open>LT_\<close>.
\<close>

section \<open>Log tags and transaction ids\<close>

datatype (plugins only: code) log_tag =
  LT_SessOpen | LT_SessClose | LT_ReqStart | LT_ReqMethod | LT_ReqURL | LT_ReqProtocol
  | LT_ReqStatus | LT_ReqAcct | LT_ReqEnd | LT_ReqHeader | LT_ReqUnset | LT_RespStatus
  | LT_RespReason | LT_RespProtocol | LT_RespHeader | LT_RespUnset | LT_BereqMethod | LT_BereqURL
  | LT_BereqProtocol | LT_BereqHeader | LT_BereqUnset | LT_BerespStatus | LT_BerespReason
  | LT_BerespProtocol | LT_BerespHeader | LT_BerespUnset | LT_ObjStatus | LT_ObjReason
  | LT_ObjProtocol | LT_ObjHeader | LT_ObjUnset | LT_VclCall | LT_VclReturn | LT_VclLog
  | LT_VclError | LT_Hit | LT_HitMiss | LT_HitPass | LT_Miss | LT_Pass | LT_Pipe | LT_Backend
  | LT_BackendOpen | LT_BackendClose | LT_BackendReuse | LT_Timestamp | LT_Length | LT_Hash
  | LT_BanLurker | LT_Debug | LT_Error | LT_Fetch | LT_FetchError | LT_Gzip | LT_Esi | LT_VfpAcct
  | LT_VdpAcct | LT_H2RxHdr | LT_H2RxBody | LT_H2TxHdr | LT_H2TxBody | LT_Proxy | LT_Link | LT_Begin
  | LT_End | LT_Storage | LT_TTL | LT_ExpBan | LT_ExpKill

primrec log_tag_code :: "log_tag \<Rightarrow> u16" where
  "log_tag_code LT_SessOpen = 1"
| "log_tag_code LT_SessClose = 2"
| "log_tag_code LT_ReqStart = 3"
| "log_tag_code LT_ReqMethod = 4"
| "log_tag_code LT_ReqURL = 5"
| "log_tag_code LT_ReqProtocol = 6"
| "log_tag_code LT_ReqStatus = 7"
| "log_tag_code LT_ReqAcct = 8"
| "log_tag_code LT_ReqEnd = 9"
| "log_tag_code LT_ReqHeader = 15"
| "log_tag_code LT_ReqUnset = 16"
| "log_tag_code LT_RespStatus = 10"
| "log_tag_code LT_RespReason = 11"
| "log_tag_code LT_RespProtocol = 12"
| "log_tag_code LT_RespHeader = 13"
| "log_tag_code LT_RespUnset = 14"
| "log_tag_code LT_BereqMethod = 20"
| "log_tag_code LT_BereqURL = 21"
| "log_tag_code LT_BereqProtocol = 22"
| "log_tag_code LT_BereqHeader = 23"
| "log_tag_code LT_BereqUnset = 24"
| "log_tag_code LT_BerespStatus = 30"
| "log_tag_code LT_BerespReason = 31"
| "log_tag_code LT_BerespProtocol = 32"
| "log_tag_code LT_BerespHeader = 33"
| "log_tag_code LT_BerespUnset = 34"
| "log_tag_code LT_ObjStatus = 40"
| "log_tag_code LT_ObjReason = 41"
| "log_tag_code LT_ObjProtocol = 42"
| "log_tag_code LT_ObjHeader = 43"
| "log_tag_code LT_ObjUnset = 44"
| "log_tag_code LT_VclCall = 50"
| "log_tag_code LT_VclReturn = 51"
| "log_tag_code LT_VclLog = 52"
| "log_tag_code LT_VclError = 53"
| "log_tag_code LT_Hit = 60"
| "log_tag_code LT_HitMiss = 61"
| "log_tag_code LT_HitPass = 62"
| "log_tag_code LT_Miss = 63"
| "log_tag_code LT_Pass = 64"
| "log_tag_code LT_Pipe = 65"
| "log_tag_code LT_Backend = 70"
| "log_tag_code LT_BackendOpen = 71"
| "log_tag_code LT_BackendClose = 72"
| "log_tag_code LT_BackendReuse = 73"
| "log_tag_code LT_Timestamp = 80"
| "log_tag_code LT_Length = 81"
| "log_tag_code LT_Hash = 90"
| "log_tag_code LT_BanLurker = 100"
| "log_tag_code LT_Debug = 110"
| "log_tag_code LT_Error = 111"
| "log_tag_code LT_Fetch = 120"
| "log_tag_code LT_FetchError = 121"
| "log_tag_code LT_Gzip = 130"
| "log_tag_code LT_Esi = 140"
| "log_tag_code LT_VfpAcct = 150"
| "log_tag_code LT_VdpAcct = 151"
| "log_tag_code LT_H2RxHdr = 160"
| "log_tag_code LT_H2RxBody = 161"
| "log_tag_code LT_H2TxHdr = 162"
| "log_tag_code LT_H2TxBody = 163"
| "log_tag_code LT_Proxy = 170"
| "log_tag_code LT_Link = 180"
| "log_tag_code LT_Begin = 181"
| "log_tag_code LT_End = 182"
| "log_tag_code LT_Storage = 190"
| "log_tag_code LT_TTL = 200"
| "log_tag_code LT_ExpBan = 210"
| "log_tag_code LT_ExpKill = 211"

primrec log_tag_name :: "log_tag \<Rightarrow> string" where
  "log_tag_name LT_SessOpen = ''SessOpen''"
| "log_tag_name LT_SessClose = ''SessClose''"
| "log_tag_name LT_ReqStart = ''ReqStart''"
| "log_tag_name LT_ReqMethod = ''ReqMethod''"
| "log_tag_name LT_ReqURL = ''ReqURL''"
| "log_tag_name LT_ReqProtocol = ''ReqProtocol''"
| "log_tag_name LT_ReqStatus = ''ReqStatus''"
| "log_tag_name LT_ReqAcct = ''ReqAcct''"
| "log_tag_name LT_ReqEnd = ''ReqEnd''"
| "log_tag_name LT_ReqHeader = ''ReqHeader''"
| "log_tag_name LT_ReqUnset = ''ReqUnset''"
| "log_tag_name LT_RespStatus = ''RespStatus''"
| "log_tag_name LT_RespReason = ''RespReason''"
| "log_tag_name LT_RespProtocol = ''RespProtocol''"
| "log_tag_name LT_RespHeader = ''RespHeader''"
| "log_tag_name LT_RespUnset = ''RespUnset''"
| "log_tag_name LT_BereqMethod = ''BereqMethod''"
| "log_tag_name LT_BereqURL = ''BereqURL''"
| "log_tag_name LT_BereqProtocol = ''BereqProtocol''"
| "log_tag_name LT_BereqHeader = ''BereqHeader''"
| "log_tag_name LT_BereqUnset = ''BereqUnset''"
| "log_tag_name LT_BerespStatus = ''BerespStatus''"
| "log_tag_name LT_BerespReason = ''BerespReason''"
| "log_tag_name LT_BerespProtocol = ''BerespProtocol''"
| "log_tag_name LT_BerespHeader = ''BerespHeader''"
| "log_tag_name LT_BerespUnset = ''BerespUnset''"
| "log_tag_name LT_ObjStatus = ''ObjStatus''"
| "log_tag_name LT_ObjReason = ''ObjReason''"
| "log_tag_name LT_ObjProtocol = ''ObjProtocol''"
| "log_tag_name LT_ObjHeader = ''ObjHeader''"
| "log_tag_name LT_ObjUnset = ''ObjUnset''"
| "log_tag_name LT_VclCall = ''VCL_call''"
| "log_tag_name LT_VclReturn = ''VCL_return''"
| "log_tag_name LT_VclLog = ''VCL_Log''"
| "log_tag_name LT_VclError = ''VCL_Error''"
| "log_tag_name LT_Hit = ''Hit''"
| "log_tag_name LT_HitMiss = ''HitMiss''"
| "log_tag_name LT_HitPass = ''HitPass''"
| "log_tag_name LT_Miss = ''Miss''"
| "log_tag_name LT_Pass = ''Pass''"
| "log_tag_name LT_Pipe = ''Pipe''"
| "log_tag_name LT_Backend = ''Backend''"
| "log_tag_name LT_BackendOpen = ''BackendOpen''"
| "log_tag_name LT_BackendClose = ''BackendClose''"
| "log_tag_name LT_BackendReuse = ''BackendReuse''"
| "log_tag_name LT_Timestamp = ''Timestamp''"
| "log_tag_name LT_Length = ''Length''"
| "log_tag_name LT_Hash = ''Hash''"
| "log_tag_name LT_BanLurker = ''BanLurker''"
| "log_tag_name LT_Debug = ''Debug''"
| "log_tag_name LT_Error = ''Error''"
| "log_tag_name LT_Fetch = ''Fetch''"
| "log_tag_name LT_FetchError = ''FetchError''"
| "log_tag_name LT_Gzip = ''Gzip''"
| "log_tag_name LT_Esi = ''ESI''"
| "log_tag_name LT_VfpAcct = ''VfpAcct''"
| "log_tag_name LT_VdpAcct = ''VdpAcct''"
| "log_tag_name LT_H2RxHdr = ''H2RxHdr''"
| "log_tag_name LT_H2RxBody = ''H2RxBody''"
| "log_tag_name LT_H2TxHdr = ''H2TxHdr''"
| "log_tag_name LT_H2TxBody = ''H2TxBody''"
| "log_tag_name LT_Proxy = ''Proxy''"
| "log_tag_name LT_Link = ''Link''"
| "log_tag_name LT_Begin = ''Begin''"
| "log_tag_name LT_End = ''End''"
| "log_tag_name LT_Storage = ''Storage''"
| "log_tag_name LT_TTL = ''TTL''"
| "log_tag_name LT_ExpBan = ''ExpBan''"
| "log_tag_name LT_ExpKill = ''ExpKill''"

type_synonym vxid = u64

definition vxid_is_zero :: "vxid \<Rightarrow> bool" where
  "vxid_is_zero v \<longleftrightarrow> v = 0"

section \<open>Tags are identified by name and by code\<close>

definition all_log_tags :: "log_tag list" where
  "all_log_tags =
     [LT_SessOpen, LT_SessClose, LT_ReqStart, LT_ReqMethod, LT_ReqURL, LT_ReqProtocol, LT_ReqStatus
      , LT_ReqAcct, LT_ReqEnd, LT_ReqHeader, LT_ReqUnset, LT_RespStatus, LT_RespReason
      , LT_RespProtocol, LT_RespHeader, LT_RespUnset, LT_BereqMethod, LT_BereqURL, LT_BereqProtocol
      , LT_BereqHeader, LT_BereqUnset, LT_BerespStatus, LT_BerespReason, LT_BerespProtocol
      , LT_BerespHeader, LT_BerespUnset, LT_ObjStatus, LT_ObjReason, LT_ObjProtocol, LT_ObjHeader
      , LT_ObjUnset, LT_VclCall, LT_VclReturn, LT_VclLog, LT_VclError, LT_Hit, LT_HitMiss
      , LT_HitPass, LT_Miss, LT_Pass, LT_Pipe, LT_Backend, LT_BackendOpen, LT_BackendClose
      , LT_BackendReuse, LT_Timestamp, LT_Length, LT_Hash, LT_BanLurker, LT_Debug, LT_Error
      , LT_Fetch, LT_FetchError, LT_Gzip, LT_Esi, LT_VfpAcct, LT_VdpAcct, LT_H2RxHdr, LT_H2RxBody
      , LT_H2TxHdr, LT_H2TxBody, LT_Proxy, LT_Link, LT_Begin, LT_End, LT_Storage, LT_TTL, LT_ExpBan
      , LT_ExpKill]"

lemma all_log_tags: "t \<in> set all_log_tags"
  by (cases t) (simp_all add: all_log_tags_def)

lemma inj_of_distinct: "(\<And>x. x \<in> set xs) \<Longrightarrow> distinct (map f xs) \<Longrightarrow> inj f"
  by (metis (no_types, lifting) UNIV_eq_I distinct_map inj_on_def)

lemma log_tag_name_inj: "inj log_tag_name"
proof (rule inj_of_distinct [OF all_log_tags])
  show "distinct (map log_tag_name all_log_tags)" by (simp add: all_log_tags_def)
qed

lemma log_tag_code_inj: "inj log_tag_code"
proof (rule inj_of_distinct [OF all_log_tags])
  show "distinct (map log_tag_code all_log_tags)" by (simp add: all_log_tags_def)
qed

end
