(* ===== verification/Rust_F64.thy ===== *)
theory Rust_F64
  imports Complex_Main Rust_Prelude
begin

text \<open>
  The \<open>f64\<close> values that the source uses for times and durations.  The special values and the
  comparisons follow IEEE 754: a comparison with a NaN is false, and NaN is not equal to itself.
  Finite values are rationals with exact arithmetic; rounding and overflow of sums are not modelled.
  Only the conversion from a decimal literal maps values beyond the largest double to an infinity.
\<close>

datatype f64 = NaN | NInf | PInf | Num rat

definition f_neg :: "f64 \<Rightarrow> f64" where
  "f_neg a = (case a of NaN \<Rightarrow> NaN | NInf \<Rightarrow> PInf | PInf \<Rightarrow> NInf | Num x \<Rightarrow> Num (- x))"

fun f_add :: "f64 \<Rightarrow> f64 \<Rightarrow> f64" where
  "f_add NaN b = NaN"
| "f_add a NaN = NaN"
| "f_add PInf NInf = NaN"
| "f_add NInf PInf = NaN"
| "f_add PInf b = PInf"
| "f_add a PInf = PInf"
| "f_add NInf b = NInf"
| "f_add a NInf = NInf"
| "f_add (Num x) (Num y) = Num (x + y)"

definition f_sub :: "f64 \<Rightarrow> f64 \<Rightarrow> f64" where
  "f_sub a b = f_add a (f_neg b)"

fun f_lt :: "f64 \<Rightarrow> f64 \<Rightarrow> bool" where
  "f_lt NaN b = False"
| "f_lt a NaN = False"
| "f_lt a NInf = False"
| "f_lt NInf b = True"
| "f_lt PInf b = False"
| "f_lt a PInf = True"
| "f_lt (Num x) (Num y) = (x < y)"

definition f_eq :: "f64 \<Rightarrow> f64 \<Rightarrow> bool" where
  "f_eq a b \<longleftrightarrow> a \<noteq> NaN \<and> a = b"

definition f_le :: "f64 \<Rightarrow> f64 \<Rightarrow> bool" where
  "f_le a b \<longleftrightarrow> f_lt a b \<or> f_eq a b"

abbreviation f_gt :: "f64 \<Rightarrow> f64 \<Rightarrow> bool" where
  "f_gt a b \<equiv> f_lt b a"

abbreviation f_ge :: "f64 \<Rightarrow> f64 \<Rightarrow> bool" where
  "f_ge a b \<equiv> f_le b a"

text \<open>\<open>f64::max\<close> ignores a NaN argument.\<close>

definition f_max :: "f64 \<Rightarrow> f64 \<Rightarrow> f64" where
  "f_max a b = (if a = NaN then b else if b = NaN then a else if f_lt a b then b else a)"

text \<open>Scaling by a finite constant.\<close>

fun f_scale :: "rat \<Rightarrow> f64 \<Rightarrow> f64" where
  "f_scale c NaN = NaN"
| "f_scale c PInf = (if c > 0 then PInf else if c < 0 then NInf else NaN)"
| "f_scale c NInf = (if c > 0 then NInf else if c < 0 then PInf else NaN)"
| "f_scale c (Num x) = Num (c * x)"

text \<open>Conversion of an exact decimal: values from \<open>2\<^sup>1\<^sup>0\<^sup>2\<^sup>4 - 2\<^sup>9\<^sup>7\<^sup>0\<close> on round to infinity.\<close>

definition f_of_exact :: "rat \<Rightarrow> f64" where
  "f_of_exact v = (if v \<ge> 2 ^ 1024 - 2 ^ 970 then PInf
     else if v \<le> - (2 ^ 1024 - 2 ^ 970) then NInf else Num v)"

abbreviation f_of_int :: "int \<Rightarrow> f64" where
  "f_of_int i \<equiv> Num (of_int i)"

definition is_num :: "f64 \<Rightarrow> bool" where
  "is_num a \<longleftrightarrow> (\<exists>x. a = Num x)"

lemma is_num_simps [simp]:
  "is_num (Num x)" "\<not> is_num NaN" "\<not> is_num PInf" "\<not> is_num NInf"
  by (auto simp: is_num_def)

lemma f_neg_simps [simp]:
  "f_neg NaN = NaN" "f_neg NInf = PInf" "f_neg PInf = NInf" "f_neg (Num x) = Num (- x)"
  by (simp_all add: f_neg_def)

lemma f_sub_simps [simp]:
  "f_sub (Num x) (Num y) = Num (x - y)" "f_sub NaN b = NaN" "f_sub a NaN = NaN"
  by (cases a; simp add: f_sub_def)+

lemma f_add_NaN [simp]: "f_add a NaN = NaN"
  by (cases a) simp_all

lemma f_lt_NaN [simp]: "\<not> f_lt a NaN"
  by (cases a) simp_all

lemma f_le_simps [simp]:
  "f_le (Num x) (Num y) \<longleftrightarrow> x \<le> y" "\<not> f_le NaN b" "\<not> f_le a NaN"
  by (auto simp: f_le_def f_eq_def)

lemma f_eq_simps [simp]:
  "f_eq (Num x) (Num y) \<longleftrightarrow> x = y" "\<not> f_eq NaN b" "\<not> f_eq a NaN"
  by (auto simp: f_eq_def)

lemma f_lt_irrefl [simp]: "\<not> f_lt a a"
  by (cases a) simp_all

lemma f_lt_trans: "f_lt a b \<Longrightarrow> f_lt b c \<Longrightarrow> f_lt a c"
  by (cases a; cases b; cases c; simp)

lemma f_lt_asym: "f_lt a b \<Longrightarrow> \<not> f_lt b a"
  by (cases a; cases b; simp)

lemma f_not_lt: "a \<noteq> NaN \<Longrightarrow> b \<noteq> NaN \<Longrightarrow> \<not> f_lt a b \<longleftrightarrow> f_le b a"
  by (cases a; cases b; auto simp: f_le_def f_eq_def)

lemma f_le_trans: "f_le a b \<Longrightarrow> f_le b c \<Longrightarrow> f_le a c"
  by (cases a; cases b; cases c; auto simp: f_le_def f_eq_def)

lemma f_le_lt_trans: "f_le a b \<Longrightarrow> f_lt b c \<Longrightarrow> f_lt a c"
  by (cases a; cases b; cases c; auto simp: f_le_def f_eq_def)

end
