(* ===== verification/Rust_Str.thy ===== *)
theory Rust_Str
  imports Rust_F64
begin

text \<open>
  The \<open>str\<close> operations that the parsers of the source call.  A string is the list of its UTF-8
  bytes, one \<open>char\<close> each.  White space is the Unicode property \<open>White_Space\<close>, as in
  \<open>char::is_whitespace\<close>, given by the UTF-8 encodings of its 25 members.
\<close>

section \<open>ASCII case\<close>

definition ascii_lower :: "char \<Rightarrow> char" where
  "ascii_lower c = (let n = of_char c :: nat in if 65 \<le> n \<and> n \<le> 90 then char_of (n + 32) else c)"

definition to_ascii_lowercase :: "string \<Rightarrow> string" where
  "to_ascii_lowercase s = map ascii_lower s"

definition eq_ignore_ascii_case :: "string \<Rightarrow> string \<Rightarrow> bool" where
  "eq_ignore_ascii_case a b \<longleftrightarrow> to_ascii_lowercase a = to_ascii_lowercase b"

lemma ascii_lower_idem [simp]: "ascii_lower (ascii_lower c) = ascii_lower c"
  by (auto simp: ascii_lower_def Let_def)

lemma to_ascii_lowercase_idem [simp]: "to_ascii_lowercase (to_ascii_lowercase s) = to_ascii_lowercase s"
  by (simp add: to_ascii_lowercase_def)

lemma length_to_ascii_lowercase [simp]: "length (to_ascii_lowercase s) = length s"
  by (simp add: to_ascii_lowercase_def)

lemma eq_ignore_refl [simp]: "eq_ignore_ascii_case a a"
  by (simp add: eq_ignore_ascii_case_def)

lemma eq_ignore_sym: "eq_ignore_ascii_case a b \<longleftrightarrow> eq_ignore_ascii_case b a"
  by (auto simp: eq_ignore_ascii_case_def)

lemma eq_ignore_trans: "eq_ignore_ascii_case a b \<Longrightarrow> eq_ignore_ascii_case b c \<Longrightarrow> eq_ignore_ascii_case a c"
  by (simp add: eq_ignore_ascii_case_def)

section \<open>Prefixes, suffixes and splitting\<close>

definition strip_prefix :: "string \<Rightarrow> string \<Rightarrow> string option" where
  "strip_prefix p s = (if prefix p s then Some (drop (length p) s) else None)"

definition strip_suffix :: "string \<Rightarrow> string \<Rightarrow> string option" where
  "strip_suffix p s = (if suffix p s then Some (take (length s - length p) s) else None)"

lemma strip_prefix_append [simp]: "strip_prefix p (p @ s) = Some s"
  by (simp add: strip_prefix_def)

text \<open>\<open>s.split(c)\<close>: the pieces between the occurrences of a character, at least one.\<close>

fun split_char :: "char \<Rightarrow> string \<Rightarrow> string list" where
  "split_char c [] = [[]]"
| "split_char c (x # xs) =
     (if x = c then [] # split_char c xs
      else (case split_char c xs of [] \<Rightarrow> [[x]] | p # ps \<Rightarrow> (x # p) # ps))"

text \<open>\<open>s.split_once(pat)\<close> for a non-empty pattern.\<close>

fun split_once :: "string \<Rightarrow> string \<Rightarrow> (string \<times> string) option" where
  "split_once pat [] = None"
| "split_once pat (x # xs) =
     (if prefix pat (x # xs) then Some ([], drop (length pat) (x # xs))
      else map_option (\<lambda>(a, b). (x # a, b)) (split_once pat xs))"

lemma split_char_ne [simp]: "split_char c s \<noteq> []"
  by (induction s) (auto split: list.splits)

lemma split_char_none: "c \<notin> set s \<Longrightarrow> split_char c s = [s]"
  by (induction s) auto

lemma split_char_append:
  "c \<notin> set a \<Longrightarrow> split_char c (a @ c # b) = a # split_char c b"
  by (induction a) auto

lemma split_once_char:
  "c \<notin> set a \<Longrightarrow> split_once [c] (a @ c # b) = Some (a, b)"
  by (induction a) auto

lemma split_once_none: "c \<notin> set a \<Longrightarrow> split_once [c] a = None"
  by (induction a) auto

section \<open>White space\<close>

definition WHITESPACE :: "string list" where
  "WHITESPACE =
     [[CHR 0x09], [CHR 0x0A], [CHR 0x0B], [CHR 0x0C], [CHR 0x0D], [CHR 0x20],
      [CHR 0xC2, CHR 0x85], [CHR 0xC2, CHR 0xA0], [CHR 0xE1, CHR 0x9A, CHR 0x80],
      [CHR 0xE2, CHR 0x80, CHR 0x80], [CHR 0xE2, CHR 0x80, CHR 0x81],
      [CHR 0xE2, CHR 0x80, CHR 0x82], [CHR 0xE2, CHR 0x80, CHR 0x83],
      [CHR 0xE2, CHR 0x80, CHR 0x84], [CHR 0xE2, CHR 0x80, CHR 0x85],
      [CHR 0xE2, CHR 0x80, CHR 0x86], [CHR 0xE2, CHR 0x80, CHR 0x87],
      [CHR 0xE2, CHR 0x80, CHR 0x88], [CHR 0xE2, CHR 0x80, CHR 0x89],
      [CHR 0xE2, CHR 0x80, CHR 0x8A], [CHR 0xE2, CHR 0x80, CHR 0xA8],
      [CHR 0xE2, CHR 0x80, CHR 0xA9], [CHR 0xE2, CHR 0x80, CHR 0xAF],
      [CHR 0xE2, CHR 0x81, CHR 0x9F], [CHR 0xE3, CHR 0x80, CHR 0x80]]"

text \<open>The white space character a string starts with.\<close>

definition ws_at :: "string list \<Rightarrow> string \<Rightarrow> string option" where
  "ws_at ws s = find (\<lambda>w. w \<noteq> [] \<and> prefix w s) ws"

lemma ws_at_Some: "ws_at ws s = Some w \<Longrightarrow> w \<noteq> [] \<and> prefix w s"
  by (auto simp: ws_at_def find_Some_iff)

lemma ws_at_shorter: "ws_at ws s = Some w \<Longrightarrow> length (drop (length w) s) < length s"
  by (drule ws_at_Some) (auto simp: prefix_def)

function strip_ws :: "string list \<Rightarrow> string \<Rightarrow> string" where
  "strip_ws ws s = (case ws_at ws s of None \<Rightarrow> s | Some w \<Rightarrow> strip_ws ws (drop (length w) s))"
  by auto
termination
  by (relation "measure (\<lambda>(ws, s). length s)") (auto dest: ws_at_shorter)

declare strip_ws.simps [simp del]

definition trim_start :: "string \<Rightarrow> string" where
  "trim_start s = strip_ws WHITESPACE s"

definition trim_end :: "string \<Rightarrow> string" where
  "trim_end s = rev (strip_ws (map rev WHITESPACE) (rev s))"

definition trim :: "string \<Rightarrow> string" where
  "trim s = trim_end (trim_start s)"

text \<open>\<open>s.trim_matches(c)\<close>.\<close>

definition trim_matches :: "char \<Rightarrow> string \<Rightarrow> string" where
  "trim_matches c s = rev (dropWhile (\<lambda>x. x = c) (rev (dropWhile (\<lambda>x. x = c) s)))"

text \<open>\<open>s.split_whitespace()\<close>; \<open>acc\<close> is the current word.\<close>

function split_words :: "string \<Rightarrow> string \<Rightarrow> string list" where
  "split_words acc s =
     (case ws_at WHITESPACE s of
        Some w \<Rightarrow> (if acc = [] then [] else [acc]) @ split_words [] (drop (length w) s)
      | None \<Rightarrow> (case s of [] \<Rightarrow> (if acc = [] then [] else [acc]) | c # cs \<Rightarrow> split_words (acc @ [c]) cs))"
  by auto
termination
  by (relation "measure (\<lambda>(acc, s). length s)") (auto dest: ws_at_shorter)

declare split_words.simps [simp del]

definition split_whitespace :: "string \<Rightarrow> string list" where
  "split_whitespace s = split_words [] s"

text \<open>A printable ASCII string is its own trimmed form when it neither starts nor ends with a space.\<close>

definition graphic :: "char \<Rightarrow> bool" where
  "graphic c \<longleftrightarrow> (let n = of_char c :: nat in 33 \<le> n \<and> n \<le> 126)"

lemma whitespace_bytes: "w \<in> set WHITESPACE \<Longrightarrow> x \<in> set w \<Longrightarrow> \<not> graphic x"
  unfolding WHITESPACE_def graphic_def Let_def by auto

lemma ws_at_graphic:
  assumes "graphic c" and "\<And>w x. w \<in> set ws \<Longrightarrow> x \<in> set w \<Longrightarrow> \<not> graphic x"
  shows "ws_at ws (c # s) = None"
  unfolding ws_at_def find_None_iff
proof
  assume "\<exists>w. w \<in> set ws \<and> w \<noteq> [] \<and> prefix w (c # s)"
  then obtain w where w: "w \<in> set ws" "w \<noteq> []" "prefix w (c # s)" by blast
  from w(2,3) have "c \<in> set w" by (cases w) auto
  with assms w(1) show False by blast
qed

lemma ws_at_Nil [simp]: "ws_at ws [] = None"
  by (auto simp: ws_at_def find_None_iff)

lemma trim_start_graphic: "s = [] \<or> graphic (hd s) \<Longrightarrow> trim_start s = s"
proof (cases s)
  case (Cons c cs)
  assume "s = [] \<or> graphic (hd s)"
  with Cons have "ws_at WHITESPACE s = None"
    by (auto intro: ws_at_graphic dest: whitespace_bytes)
  then show ?thesis by (simp add: trim_start_def strip_ws.simps)
qed (simp add: trim_start_def strip_ws.simps)

lemma trim_end_graphic: "s = [] \<or> graphic (last s) \<Longrightarrow> trim_end s = s"
proof (cases s rule: rev_cases)
  case (snoc cs c)
  assume "s = [] \<or> graphic (last s)"
  with snoc have "ws_at (map rev WHITESPACE) (rev s) = None"
    by (auto intro!: ws_at_graphic) (meson whitespace_bytes)
  then show ?thesis by (simp add: trim_end_def strip_ws.simps)
qed (simp add: trim_end_def strip_ws.simps)

lemma trim_graphic: "s = [] \<or> graphic (hd s) \<and> graphic (last s) \<Longrightarrow> trim s = s"
  by (auto simp: trim_def trim_start_graphic trim_end_graphic)

section \<open>Numbers\<close>

definition is_digit :: "char \<Rightarrow> bool" where
  "is_digit c \<longleftrightarrow> (let n = of_char c :: nat in 48 \<le> n \<and> n \<le> 57)"

definition digit_val :: "char \<Rightarrow> nat" where
  "digit_val c = of_char c - 48"

definition digit_char :: "nat \<Rightarrow> char" where
  "digit_char d = char_of (48 + d)"

definition digits_val :: "string \<Rightarrow> nat" where
  "digits_val s = foldl (\<lambda>n c. 10 * n + digit_val c) 0 s"

text \<open>\<open>str::parse\<close> for an unsigned integer type with maximal value \<open>m\<close>: an optional \<open>+\<close>, then digits.\<close>

definition parse_uint :: "nat \<Rightarrow> string \<Rightarrow> nat option" where
  "parse_uint m s =
     (let ds = (case strip_prefix ''+'' s of Some r \<Rightarrow> r | None \<Rightarrow> s)
      in if ds \<noteq> [] \<and> list_all is_digit ds \<and> digits_val ds \<le> m then Some (digits_val ds) else None)"

definition parse_u16 :: "string \<Rightarrow> u16 option" where
  "parse_u16 s = map_option of_nat (parse_uint (2 ^ 16 - 1) s)"

definition parse_u32 :: "string \<Rightarrow> u32 option" where
  "parse_u32 s = map_option of_nat (parse_uint (2 ^ 32 - 1) s)"

definition parse_u64 :: "string \<Rightarrow> u64 option" where
  "parse_u64 s = map_option of_nat (parse_uint (2 ^ 64 - 1) s)"

text \<open>\<open>Display\<close> of an unsigned integer.\<close>

fun show_nat :: "nat \<Rightarrow> string" where
  "show_nat n = (if n < 10 then [digit_char n] else show_nat (n div 10) @ [digit_char (n mod 10)])"

declare show_nat.simps [simp del]

lemma digit_char_props:
  assumes "d < 10"
  shows "is_digit (digit_char d)" "digit_val (digit_char d) = d" "graphic (digit_char d)"
    "digit_char d \<noteq> CHR ''+''" "digit_char d \<noteq> CHR ''-''" "digit_char d \<noteq> CHR '',''"
proof -
  have n: "of_char (digit_char d) = 48 + d" using assms by (simp add: digit_char_def)
  then show "is_digit (digit_char d)" "digit_val (digit_char d) = d" "graphic (digit_char d)"
    using assms by (simp_all add: is_digit_def digit_val_def graphic_def)
  have "digit_char d \<noteq> c" if "(of_char c :: nat) < 48" for c
    using n that by auto
  then show "digit_char d \<noteq> CHR ''+''" "digit_char d \<noteq> CHR ''-''" "digit_char d \<noteq> CHR '',''"
    by simp_all
qed

lemma digits_val_snoc: "digits_val (s @ [c]) = 10 * digits_val s + digit_val c"
  by (simp add: digits_val_def)

lemma show_nat_props:
  "show_nat n \<noteq> [] \<and> list_all is_digit (show_nat n) \<and> digits_val (show_nat n) = n"
proof (induction n rule: show_nat.induct)
  case (1 n)
  show ?case
  proof (cases "n < 10")
    case True
    then show ?thesis by (simp add: show_nat.simps [of n] digits_val_def digit_char_props)
  next
    case False
    with 1 have IH: "list_all is_digit (show_nat (n div 10))" "digits_val (show_nat (n div 10)) = n div 10"
      by simp_all
    have "n mod 10 < 10" by simp
    with False IH show ?thesis
      by (simp add: show_nat.simps [of n] digits_val_snoc digit_char_props)
  qed
qed

lemma is_digit_not: "is_digit c \<Longrightarrow> c \<noteq> CHR ''+'' \<and> c \<noteq> CHR ''-'' \<and> c \<noteq> CHR '','' \<and> graphic c"
  by (auto simp: is_digit_def graphic_def Let_def)

lemma show_nat_chars: "c \<in> set (show_nat n) \<Longrightarrow> is_digit c"
  using show_nat_props [of n] by (auto simp: list_all_iff)

lemma parse_uint_show: "parse_uint m (show_nat n) = (if n \<le> m then Some n else None)"
proof -
  have "hd (show_nat n) \<in> set (show_nat n)" using show_nat_props [of n] by simp
  then have "hd (show_nat n) \<noteq> CHR ''+''" using show_nat_chars is_digit_not by blast
  then have "strip_prefix ''+'' (show_nat n) = None"
    by (cases "show_nat n") (auto simp: strip_prefix_def)
  then show ?thesis using show_nat_props [of n] by (simp add: parse_uint_def)
qed

lemma parse_u64_show: "parse_u64 (show_nat (unat w)) = Some w"
proof -
  have "unat w < 2 ^ LENGTH(64)" by (rule unsigned_less)
  then show ?thesis by (simp add: parse_u64_def parse_uint_show)
qed

lemma parse_u32_show: "parse_u32 (show_nat (unat w)) = Some w"
proof -
  have "unat w < 2 ^ LENGTH(32)" by (rule unsigned_less)
  then show ?thesis by (simp add: parse_u32_def parse_uint_show)
qed

text \<open>
  \<open>str::parse::<f64>\<close>: an optional sign, then \<open>inf\<close>, \<open>infinity\<close> or \<open>nan\<close> in any case, or a decimal
  with an optional fraction and exponent and at least one digit.
\<close>

definition parse_exponent :: "string \<Rightarrow> int option" where
  "parse_exponent s =
     (let (neg, ds) = (case s of [] \<Rightarrow> (False, [])
            | c # cs \<Rightarrow> if c = CHR ''-'' then (True, cs) else if c = CHR ''+'' then (False, cs) else (False, s))
      in if ds \<noteq> [] \<and> list_all is_digit ds
         then Some (if neg then - int (digits_val ds) else int (digits_val ds)) else None)"

definition parse_decimal :: "string \<Rightarrow> rat option" where
  "parse_decimal s =
     (let int_part = takeWhile is_digit s; r1 = dropWhile is_digit s;
          (frac, r2) = (case r1 of c # cs \<Rightarrow> if c = CHR ''.'' then (takeWhile is_digit cs, dropWhile is_digit cs) else ([], r1)
                        | [] \<Rightarrow> ([], []));
          m = of_nat (digits_val (int_part @ frac)); k = int (length frac)
      in if int_part @ frac = [] then None
         else (case r2 of [] \<Rightarrow> Some (m * (10 powi (- k)))
               | c # cs \<Rightarrow> if c = CHR ''e'' \<or> c = CHR ''E''
                   then map_option (\<lambda>e. m * (10 powi (e - k))) (parse_exponent cs) else None))"

definition parse_f64 :: "string \<Rightarrow> f64 option" where
  "parse_f64 s =
     (let (neg, r) = (case s of [] \<Rightarrow> (False, [])
            | c # cs \<Rightarrow> if c = CHR ''-'' then (True, cs) else if c = CHR ''+'' then (False, cs) else (False, s));
          sgn = (\<lambda>v. if neg then f_neg v else v); l = to_ascii_lowercase r
      in if l = ''inf'' \<or> l = ''infinity'' then Some (sgn PInf)
         else if l = ''nan'' then Some NaN
         else map_option (\<lambda>v. sgn (f_of_exact v)) (parse_decimal r))"

section \<open>UTF-8\<close>

text \<open>\<open>std::str::from_utf8\<close>: well-formed UTF-8 (no overlong forms, surrogates or values past U+10FFFF).\<close>

definition in_range :: "nat \<Rightarrow> nat \<Rightarrow> char \<Rightarrow> bool" where
  "in_range a b c \<longleftrightarrow> (let n = of_char c in a \<le> n \<and> n \<le> b)"

abbreviation cont_byte :: "char \<Rightarrow> bool" where
  "cont_byte \<equiv> in_range 128 191"

fun utf8_valid :: "string \<Rightarrow> bool" where
  "utf8_valid [] \<longleftrightarrow> True"
| "utf8_valid (a # s) \<longleftrightarrow>
     (if in_range 0 127 a then utf8_valid s
      else if in_range 194 223 a then
        (case s of b # t \<Rightarrow> cont_byte b \<and> utf8_valid t | _ \<Rightarrow> False)
      else if in_range 224 239 a then
        (case s of b # c # t \<Rightarrow>
           in_range (if of_char a = (224::nat) then 160 else 128) (if of_char a = (237::nat) then 159 else 191) b
           \<and> cont_byte c \<and> utf8_valid t | _ \<Rightarrow> False)
      else if in_range 240 244 a then
        (case s of b # c # d # t \<Rightarrow>
           in_range (if of_char a = (240::nat) then 144 else 128) (if of_char a = (244::nat) then 143 else 191) b
           \<and> cont_byte c \<and> cont_byte d \<and> utf8_valid t | _ \<Rightarrow> False)
      else False)"

definition ascii_str :: "string \<Rightarrow> bool" where
  "ascii_str s \<longleftrightarrow> list_all (in_range 0 127) s"

lemma ascii_utf8_valid: "ascii_str s \<Longrightarrow> utf8_valid s"
  unfolding ascii_str_def by (induction s) auto

section \<open>Evaluation of closed terms\<close>

lemmas trim_eval = trim_def trim_start_def trim_end_def strip_ws.simps ws_at_def WHITESPACE_def
lemmas lower_eval = to_ascii_lowercase_def ascii_lower_def char_of_def bit_Suc_0_iff
lemmas words_eval = split_whitespace_def split_words.simps ws_at_def WHITESPACE_def
lemmas uint_eval = parse_u64_def parse_u32_def parse_u16_def parse_uint_def strip_prefix_def
  is_digit_def digits_val_def digit_val_def
lemmas f64_eval = parse_f64_def parse_decimal_def parse_exponent_def is_digit_def digits_val_def
  digit_val_def f_of_exact_def

end
