(* ===== verification/Rv_Types.thy ===== *)
theory Rv_Types
  imports Rust_Str
begin

text \<open>
  The other enumerations of \<^verbatim>\<open>rv-types\<close> with their names, and the time types.  A constructor has the
  name of the Rust variant behind a prefix for its type.
\<close>

section \<open>Body, object and stream states\<close>

datatype body_status =
  BS_None | BS_Error | BS_Chunked | BS_Length | BS_Eof | BS_Taken | BS_Cached

primrec body_status_name :: "body_status \<Rightarrow> string" where
  "body_status_name BS_None = ''none''"
| "body_status_name BS_Error = ''error''"
| "body_status_name BS_Chunked = ''chunked''"
| "body_status_name BS_Length = ''length''"
| "body_status_name BS_Eof = ''eof''"
| "body_status_name BS_Taken = ''taken''"
| "body_status_name BS_Cached = ''cached''"

primrec body_status_available :: "body_status \<Rightarrow> int" where
  "body_status_available BS_None = 0"
| "body_status_available BS_Error = -1"
| "body_status_available BS_Chunked = 1"
| "body_status_available BS_Length = 1"
| "body_status_available BS_Eof = 1"
| "body_status_available BS_Taken = 0"
| "body_status_available BS_Cached = 2"

definition body_status_length_known :: "body_status \<Rightarrow> bool" where
  "body_status_length_known b \<longleftrightarrow> b \<in> {BS_None, BS_Length, BS_Cached}"

datatype boc_state =
  Boc_Invalid | Boc_ReqDone | Boc_Stream | Boc_Finished | Boc_Failed

primrec boc_state_name :: "boc_state \<Rightarrow> string" where
  "boc_state_name Boc_Invalid = ''invalid''"
| "boc_state_name Boc_ReqDone = ''req_done''"
| "boc_state_name Boc_Stream = ''stream''"
| "boc_state_name Boc_Finished = ''finished''"
| "boc_state_name Boc_Failed = ''failed''"

definition boc_is_terminal :: "boc_state \<Rightarrow> bool" where
  "boc_is_terminal b \<longleftrightarrow> b \<in> {Boc_Finished, Boc_Failed}"

datatype obj_attr =
  OA_Len | OA_Vxid | OA_Flags | OA_GzipBits | OA_LastModified | OA_Vary | OA_Headers | OA_EsiData

primrec obj_attr_fixed_size :: "obj_attr \<Rightarrow> nat option" where
  "obj_attr_fixed_size OA_Len = Some 8"
| "obj_attr_fixed_size OA_Vxid = Some 8"
| "obj_attr_fixed_size OA_Flags = Some 1"
| "obj_attr_fixed_size OA_GzipBits = Some 32"
| "obj_attr_fixed_size OA_LastModified = Some 8"
| "obj_attr_fixed_size OA_Vary = None"
| "obj_attr_fixed_size OA_Headers = None"
| "obj_attr_fixed_size OA_EsiData = None"

definition obj_attr_is_fixed :: "obj_attr \<Rightarrow> bool" where
  "obj_attr_is_fixed a \<longleftrightarrow> obj_attr_fixed_size a \<noteq> None"

definition obj_attr_is_variable :: "obj_attr \<Rightarrow> bool" where
  "obj_attr_is_variable a \<longleftrightarrow> a \<in> {OA_Vary, OA_Headers}"

definition obj_attr_is_auxiliary :: "obj_attr \<Rightarrow> bool" where
  "obj_attr_is_auxiliary a \<longleftrightarrow> a = OA_EsiData"

primrec obj_attr_name :: "obj_attr \<Rightarrow> string" where
  "obj_attr_name OA_Len = ''len''"
| "obj_attr_name OA_Vxid = ''vxid''"
| "obj_attr_name OA_Flags = ''flags''"
| "obj_attr_name OA_GzipBits = ''gzipbits''"
| "obj_attr_name OA_LastModified = ''lastmodified''"
| "obj_attr_name OA_Vary = ''vary''"
| "obj_attr_name OA_Headers = ''headers''"
| "obj_attr_name OA_EsiData = ''esidata''"

datatype (plugins only: code) stream_close =
  SC_RemClose | SC_ReqClose | SC_ReqHttp10 | SC_RxBad | SC_RxBody | SC_RxJunk | SC_RxOverflow
  | SC_RxTimeout | SC_RxCloseIdle | SC_TxPipe | SC_TxError | SC_TxEof | SC_RespClose | SC_Overload
  | SC_PipeOverflow | SC_RangeShort | SC_ReqHttp20 | SC_VclFailure | SC_RapidReset | SC_Bankrupt

primrec stream_close_name :: "stream_close \<Rightarrow> string" where
  "stream_close_name SC_RemClose = ''rem_close''"
| "stream_close_name SC_ReqClose = ''req_close''"
| "stream_close_name SC_ReqHttp10 = ''req_http10''"
| "stream_close_name SC_RxBad = ''rx_bad''"
| "stream_close_name SC_RxBody = ''rx_body''"
| "stream_close_name SC_RxJunk = ''rx_junk''"
| "stream_close_name SC_RxOverflow = ''rx_overflow''"
| "stream_close_name SC_RxTimeout = ''rx_timeout''"
| "stream_close_name SC_RxCloseIdle = ''rx_close_idle''"
| "stream_close_name SC_TxPipe = ''tx_pipe''"
| "stream_close_name SC_TxError = ''tx_error''"
| "stream_close_name SC_TxEof = ''tx_eof''"
| "stream_close_name SC_RespClose = ''resp_close''"
| "stream_close_name SC_Overload = ''overload''"
| "stream_close_name SC_PipeOverflow = ''pipe_overflow''"
| "stream_close_name SC_RangeShort = ''range_short''"
| "stream_close_name SC_ReqHttp20 = ''req_http20''"
| "stream_close_name SC_VclFailure = ''vcl_failure''"
| "stream_close_name SC_RapidReset = ''rapid_reset''"
| "stream_close_name SC_Bankrupt = ''bankrupt''"

primrec stream_close_description :: "stream_close \<Rightarrow> string" where
  "stream_close_description SC_RemClose = ''Peer Closed''"
| "stream_close_description SC_ReqClose = ''Peer requested close''"
| "stream_close_description SC_ReqHttp10 = ''Proto < HTTP/1.1''"
| "stream_close_description SC_RxBad = ''Received bad req/resp''"
| "stream_close_description SC_RxBody = ''Failure receiving body''"
| "stream_close_description SC_RxJunk = ''Received junk data''"
| "stream_close_description SC_RxOverflow = ''Received buffer overflow''"
| "stream_close_description SC_RxTimeout = ''Receive timeout''"
| "stream_close_description SC_RxCloseIdle = ''timeout_idle reached''"
| "stream_close_description SC_TxPipe = ''Piped transaction''"
| "stream_close_description SC_TxError = ''Error transaction''"
| "stream_close_description SC_TxEof = ''EOF transmission''"
| "stream_close_description SC_RespClose = ''Backend/VCL requested close''"
| "stream_close_description SC_Overload = ''Out of some resource''"
| "stream_close_description SC_PipeOverflow = ''Session pipe overflow''"
| "stream_close_description SC_RangeShort = ''Insufficient data for range''"
| "stream_close_description SC_ReqHttp20 = ''HTTP2 not accepted''"
| "stream_close_description SC_VclFailure = ''VCL failure''"
| "stream_close_description SC_RapidReset = ''HTTP2 rapid reset''"
| "stream_close_description SC_Bankrupt = ''HTTP2 credit bankruptcy''"

definition stream_close_is_error :: "stream_close \<Rightarrow> bool" where
  "stream_close_is_error c \<longleftrightarrow>
     c \<notin> {SC_RemClose, SC_ReqClose, SC_RxCloseIdle, SC_TxPipe, SC_TxEof, SC_RespClose}"

section \<open>Sessions, tasks and locks\<close>

datatype sess_attr =
  SA_Transport | SA_RemoteAddr | SA_LocalAddr | SA_ClientAddr | SA_ServerAddr | SA_ClientIp
  | SA_ClientPort | SA_ProxyTlv | SA_ProtoPriv

primrec sess_attr_name :: "sess_attr \<Rightarrow> string" where
  "sess_attr_name SA_Transport = ''transport''"
| "sess_attr_name SA_RemoteAddr = ''remote_addr''"
| "sess_attr_name SA_LocalAddr = ''local_addr''"
| "sess_attr_name SA_ClientAddr = ''client_addr''"
| "sess_attr_name SA_ServerAddr = ''server_addr''"
| "sess_attr_name SA_ClientIp = ''client_ip''"
| "sess_attr_name SA_ClientPort = ''client_port''"
| "sess_attr_name SA_ProxyTlv = ''proxy_tlv''"
| "sess_attr_name SA_ProtoPriv = ''proto_priv''"

datatype task_priority =
  TP_BackendOp | TP_Rush | TP_Request | TP_Stream | TP_Vca | TP_Background

primrec task_priority_name :: "task_priority \<Rightarrow> string" where
  "task_priority_name TP_BackendOp = ''BO''"
| "task_priority_name TP_Rush = ''RUSH''"
| "task_priority_name TP_Request = ''REQ''"
| "task_priority_name TP_Stream = ''STR''"
| "task_priority_name TP_Vca = ''VCA''"
| "task_priority_name TP_Background = ''BG''"

datatype (plugins only: code) lock_kind =
  LK_Ban | LK_BusyObj | LK_Cli | LK_Director | LK_Exp | LK_Hcb | LK_Lru | LK_Mempool | LK_ObjHdr
  | LK_PerPool | LK_PipeStat | LK_Probe | LK_Sess | LK_ConnPool | LK_DeadPool | LK_Vbe | LK_VcaPace
  | LK_VcaShut | LK_Vcl | LK_Vxid | LK_Waiter | LK_Wq | LK_Wstat

primrec lock_kind_name :: "lock_kind \<Rightarrow> string" where
  "lock_kind_name LK_Ban = ''ban''"
| "lock_kind_name LK_BusyObj = ''busyobj''"
| "lock_kind_name LK_Cli = ''cli''"
| "lock_kind_name LK_Director = ''director''"
| "lock_kind_name LK_Exp = ''exp''"
| "lock_kind_name LK_Hcb = ''hcb''"
| "lock_kind_name LK_Lru = ''lru''"
| "lock_kind_name LK_Mempool = ''mempool''"
| "lock_kind_name LK_ObjHdr = ''objhdr''"
| "lock_kind_name LK_PerPool = ''perpool''"
| "lock_kind_name LK_PipeStat = ''pipestat''"
| "lock_kind_name LK_Probe = ''probe''"
| "lock_kind_name LK_Sess = ''sess''"
| "lock_kind_name LK_ConnPool = ''conn_pool''"
| "lock_kind_name LK_DeadPool = ''dead_pool''"
| "lock_kind_name LK_Vbe = ''vbe''"
| "lock_kind_name LK_VcaPace = ''vcapace''"
| "lock_kind_name LK_VcaShut = ''vcashut''"
| "lock_kind_name LK_Vcl = ''vcl''"
| "lock_kind_name LK_Vxid = ''vxid''"
| "lock_kind_name LK_Waiter = ''waiter''"
| "lock_kind_name LK_Wq = ''wq''"
| "lock_kind_name LK_Wstat = ''wstat''"

section \<open>Methods\<close>

datatype http_method =
  M_Get | M_Head | M_Post | M_Put | M_Delete | M_Options | M_Trace | M_Patch | M_Connect | M_Unknown

primrec method_name :: "http_method \<Rightarrow> string" where
  "method_name M_Get = ''GET''"
| "method_name M_Head = ''HEAD''"
| "method_name M_Post = ''POST''"
| "method_name M_Put = ''PUT''"
| "method_name M_Delete = ''DELETE''"
| "method_name M_Options = ''OPTIONS''"
| "method_name M_Trace = ''TRACE''"
| "method_name M_Patch = ''PATCH''"
| "method_name M_Connect = ''CONNECT''"
| "method_name M_Unknown = ''UNKNOWN''"

definition parse_method :: "string \<Rightarrow> http_method" where
  "parse_method s = (case map_of
     [(''GET'', M_Get),
      (''HEAD'', M_Head),
      (''POST'', M_Post),
      (''PUT'', M_Put),
      (''DELETE'', M_Delete),
      (''OPTIONS'', M_Options),
      (''TRACE'', M_Trace),
      (''PATCH'', M_Patch),
      (''CONNECT'', M_Connect)] s
     of Some m \<Rightarrow> m | None \<Rightarrow> M_Unknown)"

definition method_is_safe :: "http_method \<Rightarrow> bool" where
  "method_is_safe m \<longleftrightarrow> m \<in> {M_Get, M_Head, M_Options, M_Trace}"

definition method_is_idempotent :: "http_method \<Rightarrow> bool" where
  "method_is_idempotent m \<longleftrightarrow> m \<in> {M_Get, M_Head, M_Put, M_Delete, M_Options, M_Trace}"

definition method_may_have_body :: "http_method \<Rightarrow> bool" where
  "method_may_have_body m \<longleftrightarrow> m \<in> {M_Post, M_Put, M_Patch}"

section \<open>VCL subroutines and actions\<close>

datatype (plugins only: code) vcl_subroutine =
  VclRecv | VclHash | VclHit | VclMiss | VclPass | VclDeliver | VclSynth | VclPurge | VclPipe
  | VclBackendFetch | VclBackendResponse | VclBackendError | VclInit | VclFini

datatype (plugins only: code) vcl_action =
  A_Deliver | A_Pass | A_Pipe | A_Hash | A_Lookup | A_Fetch | A_Synth | A_Purge | A_Restart
  | A_Retry | A_Abandon | A_Fail | A_Error | A_Ok

primrec vcl_subroutine_name :: "vcl_subroutine \<Rightarrow> string" where
  "vcl_subroutine_name VclRecv = ''vcl_recv''"
| "vcl_subroutine_name VclHash = ''vcl_hash''"
| "vcl_subroutine_name VclHit = ''vcl_hit''"
| "vcl_subroutine_name VclMiss = ''vcl_miss''"
| "vcl_subroutine_name VclPass = ''vcl_pass''"
| "vcl_subroutine_name VclDeliver = ''vcl_deliver''"
| "vcl_subroutine_name VclSynth = ''vcl_synth''"
| "vcl_subroutine_name VclPurge = ''vcl_purge''"
| "vcl_subroutine_name VclPipe = ''vcl_pipe''"
| "vcl_subroutine_name VclBackendFetch = ''vcl_backend_fetch''"
| "vcl_subroutine_name VclBackendResponse = ''vcl_backend_response''"
| "vcl_subroutine_name VclBackendError = ''vcl_backend_error''"
| "vcl_subroutine_name VclInit = ''vcl_init''"
| "vcl_subroutine_name VclFini = ''vcl_fini''"

primrec vcl_action_name :: "vcl_action \<Rightarrow> string" where
  "vcl_action_name A_Deliver = ''deliver''"
| "vcl_action_name A_Pass = ''pass''"
| "vcl_action_name A_Pipe = ''pipe''"
| "vcl_action_name A_Hash = ''hash''"
| "vcl_action_name A_Lookup = ''lookup''"
| "vcl_action_name A_Fetch = ''fetch''"
| "vcl_action_name A_Synth = ''synth''"
| "vcl_action_name A_Purge = ''purge''"
| "vcl_action_name A_Restart = ''restart''"
| "vcl_action_name A_Retry = ''retry''"
| "vcl_action_name A_Abandon = ''abandon''"
| "vcl_action_name A_Fail = ''fail''"
| "vcl_action_name A_Error = ''error''"
| "vcl_action_name A_Ok = ''ok''"

primrec valid_returns :: "vcl_subroutine \<Rightarrow> vcl_action list" where
  "valid_returns VclRecv = [A_Pass, A_Pipe, A_Hash, A_Synth, A_Purge, A_Fail]"
| "valid_returns VclHash = [A_Lookup]"
| "valid_returns VclHit = [A_Deliver, A_Pass, A_Restart, A_Synth, A_Fail]"
| "valid_returns VclMiss = [A_Fetch, A_Pass, A_Restart, A_Synth, A_Fail]"
| "valid_returns VclPass = [A_Fetch, A_Restart, A_Synth, A_Fail]"
| "valid_returns VclDeliver = [A_Deliver, A_Restart, A_Synth]"
| "valid_returns VclSynth = [A_Deliver, A_Restart]"
| "valid_returns VclPurge = [A_Synth, A_Restart]"
| "valid_returns VclPipe = [A_Pipe]"
| "valid_returns VclBackendFetch = [A_Fetch, A_Abandon, A_Fail, A_Error]"
| "valid_returns VclBackendResponse = [A_Deliver, A_Retry, A_Abandon, A_Fail, A_Error, A_Pass]"
| "valid_returns VclBackendError = [A_Deliver, A_Retry, A_Abandon, A_Fail]"
| "valid_returns VclInit = [A_Ok, A_Fail]"
| "valid_returns VclFini = [A_Ok]"

datatype vcl_event =
  VE_Load | VE_Warm | VE_Cold | VE_Discard | VE_Use

primrec vcl_event_name :: "vcl_event \<Rightarrow> string" where
  "vcl_event_name VE_Load = ''load''"
| "vcl_event_name VE_Warm = ''warm''"
| "vcl_event_name VE_Cold = ''cold''"
| "vcl_event_name VE_Discard = ''discard''"
| "vcl_event_name VE_Use = ''use''"

section \<open>Time\<close>

text \<open>\<open>VtimMono\<close>, \<open>VtimReal\<close> and \<open>VtimDur\<close> wrap a number of seconds.\<close>

type_synonym vtim_mono = f64
type_synonym vtim_real = f64
type_synonym vtim_dur = f64

definition dur_from_millis :: "f64 \<Rightarrow> vtim_dur" where
  "dur_from_millis ms = f_scale (1 / 1000) ms"

definition dur_as_millis :: "vtim_dur \<Rightarrow> f64" where
  "dur_as_millis d = f_scale 1000 d"

definition dur_is_zero :: "vtim_dur \<Rightarrow> bool" where
  "dur_is_zero d \<longleftrightarrow> f_eq d (Num 0)"

definition dur_is_positive :: "vtim_dur \<Rightarrow> bool" where
  "dur_is_positive d \<longleftrightarrow> f_gt d (Num 0)"

definition elapsed_since :: "vtim_real \<Rightarrow> vtim_real \<Rightarrow> vtim_dur" where
  "elapsed_since t earlier = f_sub t earlier"

definition real_add :: "vtim_real \<Rightarrow> vtim_dur \<Rightarrow> vtim_real" where
  "real_add t d = f_add t d"

definition real_sub :: "vtim_real \<Rightarrow> vtim_dur \<Rightarrow> vtim_real" where
  "real_sub t d = f_sub t d"

text \<open>
  \<open>Duration::from(d)\<close> in seconds: \<open>Duration::from_secs_f64\<close> panics (\<open>None\<close>) on a NaN, on an infinity
  and on values of \<open>2\<^sup>6\<^sup>4\<close> seconds and more.
\<close>

definition duration_from_dur :: "vtim_dur \<Rightarrow> rat option" where
  "duration_from_dur d =
     (if f_le d (Num 0) then Some 0
      else (case d of Num x \<Rightarrow> (if x < 2 ^ 64 then Some x else None) | _ \<Rightarrow> None))"

section \<open>Laws\<close>

lemma parse_method_name [simp]: "parse_method (method_name m) = m"
  by (cases m) (simp_all add: parse_method_def)

lemma method_safe_idempotent: "method_is_safe m \<Longrightarrow> method_is_idempotent m"
  by (auto simp: method_is_safe_def method_is_idempotent_def)

lemma obj_attr_kinds:
  "obj_attr_is_fixed a \<longleftrightarrow> \<not> obj_attr_is_variable a \<and> \<not> obj_attr_is_auxiliary a"
  by (cases a) (simp_all add: obj_attr_is_fixed_def obj_attr_is_variable_def obj_attr_is_auxiliary_def)

lemma dur_millis_round_trip: "is_num d \<Longrightarrow> dur_as_millis (dur_from_millis d) = d"
  by (cases d) (simp_all add: dur_as_millis_def dur_from_millis_def)

text \<open>The derived order of \<open>TaskPriority\<close>.\<close>

primrec task_priority_code :: "task_priority \<Rightarrow> nat" where
  "task_priority_code TP_BackendOp = 0"
| "task_priority_code TP_Rush = 1"
| "task_priority_code TP_Request = 2"
| "task_priority_code TP_Stream = 3"
| "task_priority_code TP_Vca = 4"
| "task_priority_code TP_Background = 5"

lemma task_priority_code_inj: "task_priority_code a = task_priority_code b \<Longrightarrow> a = b"
  by (cases a; cases b) simp_all

instantiation task_priority :: linorder
begin

definition less_eq_task_priority :: "task_priority \<Rightarrow> task_priority \<Rightarrow> bool" where
  "a \<le> b \<longleftrightarrow> task_priority_code a \<le> task_priority_code b"

definition less_task_priority :: "task_priority \<Rightarrow> task_priority \<Rightarrow> bool" where
  "a < b \<longleftrightarrow> task_priority_code a < task_priority_code b"

instance
  by standard (auto simp: less_eq_task_priority_def less_task_priority_def dest: task_priority_code_inj)

end

end
