(* ===== verification/Log_Ring.thy ===== *)
theory Log_Ring
  imports Log_Tags Rv_Types "HOL-Library.Monad_Syntax"
begin

text \<open>
  The shared log of \<^verbatim>\<open>rv-log\<close>: records, the ring buffer with its 64-bit counter, the writer and the
  reader with its cursor.  The buffer is related to the list of all records ever written; a read
  returns the part of that list that the ring still holds.  The wall clock is an argument \<open>now\<close>.
\<close>

section \<open>Records and the ring buffer\<close>

record log_record =
  rec_tag :: log_tag
  rec_vxid :: vxid
  rec_timestamp :: vtim_real
  rec_data :: string

definition log_record_new :: "vtim_real \<Rightarrow> log_tag \<Rightarrow> vxid \<Rightarrow> string \<Rightarrow> log_record" where
  "log_record_new now tag v data = \<lparr>rec_tag = tag, rec_vxid = v, rec_timestamp = now, rec_data = data\<rparr>"

record ring_buffer =
  rb_slots :: "log_record option list"
  rb_write_pos :: nat
  rb_total_written :: u64
  rb_capacity :: nat

text \<open>\<open>RingBuffer::new\<close> panics on capacity zero.\<close>

definition ring_new :: "nat \<Rightarrow> ring_buffer option" where
  "ring_new capacity =
     (if capacity = 0 then None
      else Some \<lparr>rb_slots = replicate capacity None, rb_write_pos = 0, rb_total_written = 0,
                 rb_capacity = capacity\<rparr>)"

definition ring_write :: "ring_buffer \<Rightarrow> log_record \<Rightarrow> ring_buffer option" where
  "ring_write b r = do {
     slots \<leftarrow> vec_set (rb_slots b) (rb_write_pos b) (Some r);
     Some (b\<lparr>rb_slots := slots, rb_write_pos := (rb_write_pos b + 1) mod rb_capacity b,
             rb_total_written := rb_total_written b + 1\<rparr>) }"

text \<open>The loop of \<open>read_from\<close> over the offsets from the effective start.\<close>

fun read_slots :: "ring_buffer \<Rightarrow> u64 \<Rightarrow> nat list \<Rightarrow> log_record list option" where
  "read_slots b start [] = Some []"
| "read_slots b start (i # is) = do {
     slot \<leftarrow> vec_get (rb_slots b) (unat ((start + of_nat i) mod of_nat (rb_capacity b)));
     rest \<leftarrow> read_slots b start is;
     Some (case slot of None \<Rightarrow> rest | Some r \<Rightarrow> r # rest) }"

definition ring_read_from :: "ring_buffer \<Rightarrow> u64 \<Rightarrow> (log_record list \<times> u64) option" where
  "ring_read_from b pos =
     (let total = rb_total_written b in
      if pos \<ge> total then Some ([], total)
      else let stored = min total (of_nat (rb_capacity b));
               oldest_available = total - stored;
               effective_start = max pos oldest_available;
               n_records = unat (total - effective_start)
           in do { records \<leftarrow> read_slots b effective_start [0..<n_records]; Some (records, total) })"

definition ring_len :: "ring_buffer \<Rightarrow> nat" where
  "ring_len b = min (unat (rb_total_written b)) (rb_capacity b)"

definition ring_is_empty :: "ring_buffer \<Rightarrow> bool" where
  "ring_is_empty b \<longleftrightarrow> ring_len b = 0"

definition ring_is_full :: "ring_buffer \<Rightarrow> bool" where
  "ring_is_full b \<longleftrightarrow> rb_total_written b \<ge> of_nat (rb_capacity b)"

section \<open>Writer and reader\<close>

definition writer_log :: "vtim_real \<Rightarrow> ring_buffer \<Rightarrow> log_tag \<Rightarrow> vxid \<Rightarrow> string \<Rightarrow> ring_buffer option" where
  "writer_log now b tag v data = ring_write b (log_record_new now tag v data)"

definition writer_log_fmt :: "vtim_real \<Rightarrow> ring_buffer \<Rightarrow> log_tag \<Rightarrow> vxid \<Rightarrow> string \<Rightarrow> ring_buffer option" where
  "writer_log_fmt now b tag v text = ring_write b (log_record_new now tag v text)"

definition writer_debug :: "vtim_real \<Rightarrow> ring_buffer \<Rightarrow> vxid \<Rightarrow> string \<Rightarrow> ring_buffer option" where
  "writer_debug now b v msg = writer_log now b LT_Debug v msg"

definition writer_error :: "vtim_real \<Rightarrow> ring_buffer \<Rightarrow> vxid \<Rightarrow> string \<Rightarrow> ring_buffer option" where
  "writer_error now b v msg = ring_write b (log_record_new now LT_Error v msg)"

record log_reader =
  lr_position :: u64

definition reader_new :: "ring_buffer \<Rightarrow> log_reader" where
  "reader_new b = \<lparr>lr_position = rb_total_written b\<rparr>"

definition reader_from_start :: "ring_buffer \<Rightarrow> log_reader" where
  "reader_from_start b = \<lparr>lr_position = 0\<rparr>"

definition reader_read_new :: "ring_buffer \<Rightarrow> log_reader \<Rightarrow> (log_reader \<times> log_record list) option" where
  "reader_read_new b r = do {
     (records, new_pos) \<leftarrow> ring_read_from b (lr_position r);
     Some (r\<lparr>lr_position := new_pos\<rparr>, records) }"

definition reader_read_all :: "ring_buffer \<Rightarrow> log_record list option" where
  "reader_read_all b = map_option fst (ring_read_from b 0)"

definition reader_tail :: "ring_buffer \<Rightarrow> u64 \<Rightarrow> log_record list option" where
  "reader_tail b n_records =
     (let total = rb_total_written b;
          capacity = of_nat (rb_capacity b);
          stored = min total capacity;
          skip = (if stored > n_records then total - n_records else total - stored)
      in map_option fst (ring_read_from b skip))"

definition filter_by_tag :: "log_record list \<Rightarrow> log_tag \<Rightarrow> log_record list" where
  "filter_by_tag records tag = filter (\<lambda>r. rec_tag r = tag) records"

definition filter_by_vxid :: "log_record list \<Rightarrow> vxid \<Rightarrow> log_record list" where
  "filter_by_vxid records v = filter (\<lambda>r. rec_vxid r = v) records"

definition reader_skip_to_end :: "ring_buffer \<Rightarrow> log_reader \<Rightarrow> log_reader" where
  "reader_skip_to_end b r = r\<lparr>lr_position := rb_total_written b\<rparr>"

definition reader_reset :: "log_reader \<Rightarrow> log_reader" where
  "reader_reset r = r\<lparr>lr_position := 0\<rparr>"

section \<open>The buffer and the list of all records\<close>

definition ring_repr :: "ring_buffer \<Rightarrow> log_record list \<Rightarrow> bool" where
  "ring_repr b ws \<longleftrightarrow> 0 < rb_capacity b \<and> rb_capacity b < 2 ^ 64 \<and> length (rb_slots b) = rb_capacity b \<and>
     length ws < 2 ^ 64 \<and> rb_total_written b = of_nat (length ws) \<and>
     rb_write_pos b = length ws mod rb_capacity b \<and>
     (\<forall>i < length ws. length ws \<le> i + rb_capacity b \<longrightarrow> rb_slots b ! (i mod rb_capacity b) = Some (ws ! i))"

text \<open>The records that are still held from a position on.\<close>

definition held_from :: "nat \<Rightarrow> nat \<Rightarrow> log_record list \<Rightarrow> log_record list" where
  "held_from capacity p ws = drop (max p (length ws - capacity)) ws"

lemma ring_new_repr:
  assumes "0 < capacity" "capacity < 2 ^ 64"
  obtains b where "ring_new capacity = Some b" "ring_repr b []"
  using assms by (auto simp: ring_new_def ring_repr_def)

lemma mod_eq_near:
  fixes i c n :: nat
  assumes "i mod c = n mod c" "i < n" "n < i + c"
  shows False
proof -
  have "c dvd n - i" using assms(1,2) mod_eq_dvd_iff_nat [of i n c] by simp
  with assms(2,3) show False by (auto dest: dvd_imp_le)
qed

lemma ring_write_repr:
  assumes r: "ring_repr b ws" and len: "Suc (length ws) < 2 ^ 64"
  obtains b' where "ring_write b x = Some b'" "ring_repr b' (ws @ [x])" "rb_capacity b' = rb_capacity b"
proof -
  let ?c = "rb_capacity b" and ?n = "length ws"
  let ?b' = "b\<lparr>rb_slots := (rb_slots b)[?n mod ?c := Some x], rb_write_pos := Suc ?n mod ?c,
               rb_total_written := of_nat (Suc ?n)\<rparr>"
  from r have c: "0 < ?c" "length (rb_slots b) = ?c" "rb_write_pos b = ?n mod ?c"
      "rb_total_written b = of_nat ?n" "?c < 2 ^ 64"
    and held: "\<And>i. i < ?n \<Longrightarrow> ?n \<le> i + ?c \<Longrightarrow> rb_slots b ! (i mod ?c) = Some (ws ! i)"
    by (simp_all add: ring_repr_def)
  have "(?n mod ?c + 1) mod ?c = Suc ?n mod ?c" by (simp add: mod_Suc_eq)
  then have "ring_write b x = Some ?b'"
    using c by (simp add: ring_write_def add.commute)
  moreover have "rb_slots ?b' ! (i mod ?c) = Some ((ws @ [x]) ! i)"
    if i: "i < Suc ?n" "Suc ?n \<le> i + ?c" for i
  proof (cases "i = ?n")
    case True
    then show ?thesis using c by simp
  next
    case False
    with i have "i < ?n" "?n < i + ?c" by auto
    with mod_eq_near [of i ?c ?n] have "i mod ?c \<noteq> ?n mod ?c" by blast
    with held [of i] \<open>i < ?n\<close> \<open>?n < i + ?c\<close> show ?thesis by (simp add: nth_append)
  qed
  then have "ring_repr ?b' (ws @ [x])"
    using c len by (simp add: ring_repr_def)
  ultimately show ?thesis by (intro that [of ?b']) simp_all
qed

lemma read_slots_held:
  assumes r: "ring_repr b ws" and s: "length ws \<le> s + rb_capacity b" "s + k \<le> length ws"
  shows "read_slots b (of_nat s) [j..<k] = Some (map (\<lambda>i. ws ! (s + i)) [j..<k])"
  using s
proof (induction "k - j" arbitrary: j)
  case 0
  then show ?case by simp
next
  case (Suc d)
  let ?c = "rb_capacity b"
  from r have c: "0 < ?c" "?c < 2 ^ 64" "length (rb_slots b) = ?c" "length ws < 2 ^ 64"
    by (simp_all add: ring_repr_def)
  from Suc have jk: "j < k" by simp
  with Suc.prems have sj: "s + j < length ws" "length ws \<le> (s + j) + ?c" by auto
  have "unat ((of_nat s + of_nat j) mod of_nat ?c :: u64) = (s + j) mod ?c"
  proof -
    have "of_nat s + of_nat j = (of_nat (s + j) :: u64)" by simp
    then show ?thesis
      using sj c unat_of_nat64 [of "s + j"] unat_of_nat64 [of ?c] by (simp only: unat_mod)
  qed
  moreover have "rb_slots b ! ((s + j) mod ?c) = Some (ws ! (s + j))"
    using r sj by (simp add: ring_repr_def)
  moreover have "read_slots b (of_nat s) [Suc j..<k] = Some (map (\<lambda>i. ws ! (s + i)) [Suc j..<k])"
    using Suc by simp
  ultimately show ?case
    using c jk by (simp add: upt_conv_Cons)
qed

lemma drop_as_map: "s \<le> length ws \<Longrightarrow> map (\<lambda>i. ws ! (s + i)) [0..<length ws - s] = drop s ws"
  by (rule nth_equalityI) simp_all

lemma ring_read_held:
  assumes r: "ring_repr b ws" and p: "p < 2 ^ 64"
  shows "ring_read_from b (of_nat p) = Some (held_from (rb_capacity b) p ws, of_nat (length ws))"
proof -
  let ?c = "rb_capacity b" and ?n = "length ws"
  from r have c: "0 < ?c" "?c < 2 ^ 64" "?n < 2 ^ 64" "rb_total_written b = of_nat ?n"
    by (simp_all add: ring_repr_def)
  have le: "(of_nat a :: u64) \<le> of_nat d \<longleftrightarrow> a \<le> d" if "a < 2 ^ 64" "d < 2 ^ 64" for a d
    using that by (simp add: word_le_nat_alt unat_of_nat64)
  have mn: "min (of_nat ?n) (of_nat ?c) = (of_nat (min ?n ?c) :: u64)"
    using c by (simp add: min_def le)
  show ?thesis
  proof (cases "?n \<le> p")
    case True
    then show ?thesis using c p by (simp add: ring_read_from_def Let_def le held_from_def)
  next
    case False
    define s where "s = max p (?n - ?c)"
    have old: "of_nat ?n - of_nat (min ?n ?c) = (of_nat (?n - ?c) :: u64)"
      by (simp flip: of_nat_diff) (simp add: min_def)
    have st: "max (of_nat p) (of_nat (?n - ?c)) = (of_nat s :: u64)"
      using c p by (simp add: max_def le s_def)
    have s: "s \<le> ?n" "?n \<le> s + ?c" using False by (auto simp: s_def)
    have cnt: "unat (of_nat ?n - of_nat s :: u64) = ?n - s"
      using s c by (simp flip: of_nat_diff add: unat_of_nat64)
    have "read_slots b (of_nat s) [0..<?n - s] = Some (drop s ws)"
      using read_slots_held [OF r s(2), of "?n - s" 0] s by (simp add: drop_as_map)
    with False c p show ?thesis
      by (simp add: ring_read_from_def Let_def le mn old st cnt held_from_def s_def [symmetric])
  qed
qed

lemma ring_tail_held:
  assumes r: "ring_repr b ws"
  shows "reader_tail b n = Some (drop (length ws - min (unat n) (min (length ws) (rb_capacity b))) ws)"
proof -
  let ?c = "rb_capacity b" and ?n = "length ws"
  from r have c: "0 < ?c" "?c < 2 ^ 64" "?n < 2 ^ 64" "rb_total_written b = of_nat ?n"
    by (simp_all add: ring_repr_def)
  have less: "n < (of_nat a :: u64) \<longleftrightarrow> unat n < a" if "a < 2 ^ 64" for a
    using that by (simp add: word_less_nat_alt unat_of_nat64)
  have mn: "min (of_nat ?n) (of_nat ?c) = (of_nat (min ?n ?c) :: u64)"
    using c by (simp add: min_def word_le_nat_alt unat_of_nat64)
  let ?s = "?n - min (unat n) (min ?n ?c)"
  have skip: "(if (of_nat (min ?n ?c) :: u64) > n then of_nat ?n - n else of_nat ?n - of_nat (min ?n ?c)) = of_nat ?s"
  proof (cases "unat n < min ?n ?c")
    case True
    then have "of_nat ?n - n = (of_nat (?n - unat n) :: u64)" by (simp add: of_nat_diff)
    with True c show ?thesis by (simp add: less min_def)
  next
    case False
    then show ?thesis using c by (simp add: less min_def of_nat_diff)
  qed
  have rd: "ring_read_from b (of_nat ?s) = Some (held_from ?c ?s ws, of_nat ?n)"
    using ring_read_held [OF r, of ?s] c by simp
  have "?n - ?c \<le> ?s" by (intro diff_le_mono2) simp
  then have hf: "held_from ?c ?s ws = drop ?s ws" by (simp add: held_from_def max_absorb1)
  show ?thesis unfolding reader_tail_def Let_def c(4) mn skip rd hf by simp
qed

section \<open>Writers and a reader\<close>

datatype log_op = LogWrite log_record | LogReadNew | LogTail u64 | LogSkip | LogReset

text \<open>The contract: the list of all records written and the number of those the reader consumed.\<close>

fun log_spec :: "nat \<Rightarrow> log_record list \<times> nat \<Rightarrow> log_op \<Rightarrow> (log_record list \<times> nat) \<times> log_record list" where
  "log_spec c (ws, p) (LogWrite r) = ((ws @ [r], p), [])"
| "log_spec c (ws, p) LogReadNew = ((ws, length ws), drop (max p (length ws - c)) ws)"
| "log_spec c (ws, p) (LogTail n) = ((ws, p), drop (length ws - min (unat n) (min (length ws) c)) ws)"
| "log_spec c (ws, p) LogSkip = ((ws, length ws), [])"
| "log_spec c (ws, p) LogReset = ((ws, 0), [])"

fun log_step :: "ring_buffer \<times> log_reader \<Rightarrow> log_op \<Rightarrow> ((ring_buffer \<times> log_reader) \<times> log_record list) option" where
  "log_step (b, r) (LogWrite x) = map_option (\<lambda>b'. ((b', r), [])) (ring_write b x)"
| "log_step (b, r) LogReadNew = map_option (\<lambda>(r', xs). ((b, r'), xs)) (reader_read_new b r)"
| "log_step (b, r) (LogTail n) = map_option (\<lambda>xs. ((b, r), xs)) (reader_tail b n)"
| "log_step (b, r) LogSkip = Some ((b, reader_skip_to_end b r), [])"
| "log_step (b, r) LogReset = Some ((b, reader_reset r), [])"

fun log_run :: "ring_buffer \<times> log_reader \<Rightarrow> log_op list \<Rightarrow> ((ring_buffer \<times> log_reader) \<times> log_record list list) option" where
  "log_run s [] = Some (s, [])"
| "log_run s (c # cs) = do {
     (s', x) \<leftarrow> log_step s c;
     (s'', xs) \<leftarrow> log_run s' cs;
     Some (s'', x # xs) }"

definition log_repr :: "nat \<Rightarrow> ring_buffer \<times> log_reader \<Rightarrow> log_record list \<times> nat \<Rightarrow> bool" where
  "log_repr c s a \<longleftrightarrow> ring_repr (fst s) (fst a) \<and> rb_capacity (fst s) = c \<and>
     snd a \<le> length (fst a) \<and> lr_position (snd s) = of_nat (snd a)"

lemma log_step_sim:
  assumes "log_repr c s a" and "Suc (length (fst a)) < 2 ^ 64"
  shows "\<exists>s' x. log_step s op = Some (s', x) \<and> log_repr c s' (fst (log_spec c a op)) \<and> x = snd (log_spec c a op)"
proof -
  obtain b r where s: "s = (b, r)" by (cases s)
  obtain ws p where a: "a = (ws, p)" by (cases a)
  from assms(1) have rp: "ring_repr b ws" and cap: "rb_capacity b = c" and p: "p \<le> length ws"
    and pos: "lr_position r = of_nat p"
    by (simp_all add: log_repr_def s a)
  have len: "Suc (length ws) < 2 ^ 64" "rb_total_written b = of_nat (length ws)"
    using assms(2) rp by (simp_all add: a ring_repr_def)
  show ?thesis
  proof (cases op)
    case (LogWrite x)
    from rp len(1) obtain b' where "ring_write b x = Some b'" "ring_repr b' (ws @ [x])" "rb_capacity b' = rb_capacity b"
      by (rule ring_write_repr)
    with LogWrite p pos cap show ?thesis by (auto simp: s a log_repr_def)
  next
    case LogReadNew
    have "ring_read_from b (of_nat p) = Some (held_from c p ws, of_nat (length ws))"
      using ring_read_held [OF rp, of p] p len(1) cap by simp
    with LogReadNew rp cap pos show ?thesis
      by (auto simp: s a log_repr_def reader_read_new_def held_from_def)
  next
    case (LogTail n)
    with ring_tail_held [OF rp, of n] rp cap pos p show ?thesis by (auto simp: s a log_repr_def)
  next
    case LogSkip
    with rp cap len show ?thesis by (auto simp: s a log_repr_def reader_skip_to_end_def)
  next
    case LogReset
    with rp cap show ?thesis by (auto simp: s a log_repr_def reader_reset_def)
  qed
qed

lemma log_spec_len: "length (fst (fst (log_spec c a op))) \<le> Suc (length (fst a))"
  by (cases a; cases op) auto

lemma log_run_sim:
  assumes "log_repr c s a" and "length (fst a) + length ops < 2 ^ 64"
  shows "\<exists>s' xs. log_run s ops = Some (s', xs) \<and> xs = snd (run (log_spec c) a ops) \<and>
     log_repr c s' (fst (run (log_spec c) a ops))"
  using assms
proof (induction ops arbitrary: s a)
  case (Cons op ops)
  from Cons.prems have "Suc (length (fst a)) < 2 ^ 64" by simp
  from log_step_sim [OF Cons.prems(1) this, of op] obtain s' x where
    s': "log_step s op = Some (s', x)" "log_repr c s' (fst (log_spec c a op))" "x = snd (log_spec c a op)"
    by blast
  have "length (fst (fst (log_spec c a op))) + length ops < 2 ^ 64"
    using log_spec_len [of c a op] Cons.prems(2) by simp
  from Cons.IH [OF s'(2) this] s' show ?case by (auto split: prod.splits)
qed simp


definition demo_record :: "string \<Rightarrow> log_record" where
  "demo_record d = log_record_new (Num 0) LT_Debug 1 d"


end
