(* ===== verification/Rv_Flags.thy ===== *)
theory Rv_Flags
  imports Rust_Prelude
begin

text \<open>
  The bit flag types of \<^verbatim>\<open>rv-types/src/flags.rs\<close>.  The three types share one contract, the locale
  \<open>bit_flags\<close>, whose lemmas say how insertion and removal of a flag show in later tests.
\<close>

section \<open>The flag types\<close>

datatype obj_flags = ObjFlags (of_bits: u8)

definition OF_GZIPED :: obj_flags where "OF_GZIPED = ObjFlags (push_bit 1 1)"
definition OF_CHGCE :: obj_flags where "OF_CHGCE = ObjFlags (push_bit 2 1)"
definition OF_IMSCAND :: obj_flags where "OF_IMSCAND = ObjFlags (push_bit 3 1)"
definition OF_ESIPROC :: obj_flags where "OF_ESIPROC = ObjFlags (push_bit 4 1)"

definition of_contains :: "obj_flags \<Rightarrow> obj_flags \<Rightarrow> bool" where
  "of_contains a b \<longleftrightarrow> of_bits a AND of_bits b = of_bits b"

definition of_insert :: "obj_flags \<Rightarrow> obj_flags \<Rightarrow> obj_flags" where
  "of_insert a b = ObjFlags (of_bits a OR of_bits b)"

definition of_remove :: "obj_flags \<Rightarrow> obj_flags \<Rightarrow> obj_flags" where
  "of_remove a b = ObjFlags (of_bits a AND NOT (of_bits b))"

datatype obj_core_flags = ObjCoreFlags (oc_bits: u8)

definition OC_WITHDRAWN :: obj_core_flags where "OC_WITHDRAWN = ObjCoreFlags (push_bit 0 1)"
definition OC_BUSY :: obj_core_flags where "OC_BUSY = ObjCoreFlags (push_bit 1 1)"
definition OC_HFM :: obj_core_flags where "OC_HFM = ObjCoreFlags (push_bit 2 1)"
definition OC_HFP :: obj_core_flags where "OC_HFP = ObjCoreFlags (push_bit 3 1)"
definition OC_CANCEL :: obj_core_flags where "OC_CANCEL = ObjCoreFlags (push_bit 4 1)"
definition OC_PRIVATE :: obj_core_flags where "OC_PRIVATE = ObjCoreFlags (push_bit 5 1)"
definition OC_FAILED :: obj_core_flags where "OC_FAILED = ObjCoreFlags (push_bit 6 1)"
definition OC_DYING :: obj_core_flags where "OC_DYING = ObjCoreFlags (push_bit 7 1)"

definition oc_contains :: "obj_core_flags \<Rightarrow> obj_core_flags \<Rightarrow> bool" where
  "oc_contains a b \<longleftrightarrow> oc_bits a AND oc_bits b = oc_bits b"

definition oc_insert :: "obj_core_flags \<Rightarrow> obj_core_flags \<Rightarrow> obj_core_flags" where
  "oc_insert a b = ObjCoreFlags (oc_bits a OR oc_bits b)"

definition oc_remove :: "obj_core_flags \<Rightarrow> obj_core_flags \<Rightarrow> obj_core_flags" where
  "oc_remove a b = ObjCoreFlags (oc_bits a AND NOT (oc_bits b))"

definition oc_is_transient :: "obj_core_flags \<Rightarrow> bool" where
  "oc_is_transient a \<longleftrightarrow> oc_contains a OC_PRIVATE \<or> oc_contains a OC_HFM \<or> oc_contains a OC_HFP"

datatype obj_exp_flags = ObjExpFlags (oe_bits: u8)

definition OE_POSTED :: obj_exp_flags where "OE_POSTED = ObjExpFlags (push_bit 1 1)"
definition OE_REFD :: obj_exp_flags where "OE_REFD = ObjExpFlags (push_bit 2 1)"
definition OE_MOVE :: obj_exp_flags where "OE_MOVE = ObjExpFlags (push_bit 3 1)"
definition OE_INSERT :: obj_exp_flags where "OE_INSERT = ObjExpFlags (push_bit 4 1)"
definition OE_REMOVE :: obj_exp_flags where "OE_REMOVE = ObjExpFlags (push_bit 5 1)"
definition OE_NEW :: obj_exp_flags where "OE_NEW = ObjExpFlags (push_bit 6 1)"

definition oe_contains :: "obj_exp_flags \<Rightarrow> obj_exp_flags \<Rightarrow> bool" where
  "oe_contains a b \<longleftrightarrow> oe_bits a AND oe_bits b = oe_bits b"

definition oe_insert :: "obj_exp_flags \<Rightarrow> obj_exp_flags \<Rightarrow> obj_exp_flags" where
  "oe_insert a b = ObjExpFlags (oe_bits a OR oe_bits b)"

definition oe_remove :: "obj_exp_flags \<Rightarrow> obj_exp_flags \<Rightarrow> obj_exp_flags" where
  "oe_remove a b = ObjExpFlags (oe_bits a AND NOT (oe_bits b))"

section \<open>Their common contract\<close>

lemma word_contains_iff: "a AND b = b \<longleftrightarrow> (\<forall>n. bit b n \<longrightarrow> bit a n)" for a b :: "'a::len word"
  by (auto simp: bit_eq_iff bit_simps dest: bit_imp_le_length)

lemma word_nonzero_bit: "b \<noteq> 0 \<Longrightarrow> \<exists>n. bit b n" for b :: "'a::len word"
  by (metis bit_eq_iff bit_0_eq bot_apply bot_bool_def)

lemma word_disjoint_bit: "b AND c = 0 \<Longrightarrow> bit b n \<Longrightarrow> \<not> bit c n" for b c :: "'a::len word"
  by (metis bit_and_iff bit_0_eq bot_apply bot_bool_def)

locale bit_flags =
  fixes bits :: "'f \<Rightarrow> u8"
    and contains :: "'f \<Rightarrow> 'f \<Rightarrow> bool"
    and ins :: "'f \<Rightarrow> 'f \<Rightarrow> 'f"
    and rem :: "'f \<Rightarrow> 'f \<Rightarrow> 'f"
  assumes contains_bits: "contains a b \<longleftrightarrow> bits a AND bits b = bits b"
    and ins_bits: "bits (ins a b) = bits a OR bits b"
    and rem_bits: "bits (rem a b) = bits a AND NOT (bits b)"
begin

lemma contains_iff: "contains a b \<longleftrightarrow> (\<forall>n. bit (bits b) n \<longrightarrow> bit (bits a) n)"
  by (simp add: contains_bits word_contains_iff)

lemma contains_ins [simp]: "contains (ins a b) b"
  by (simp add: contains_iff ins_bits bit_simps)

lemma ins_mono: "contains a c \<Longrightarrow> contains (ins a b) c"
  by (simp add: contains_iff ins_bits bit_simps)

lemma contains_rem: "bits b \<noteq> 0 \<Longrightarrow> \<not> contains (rem a b) b"
  by (auto simp: contains_iff rem_bits bit_simps dest!: word_nonzero_bit)

lemma rem_other: "bits b AND bits c = 0 \<Longrightarrow> contains (rem a b) c \<longleftrightarrow> contains a c"
  by (auto simp: contains_iff rem_bits bit_simps dest: word_disjoint_bit bit_imp_le_length [where 'a = 8])

lemma ins_other:
  assumes "bits b AND bits c = 0"
  shows "contains (ins a b) c \<longleftrightarrow> contains a c"
  using assms by (auto simp: contains_iff ins_bits bit_simps dest: word_disjoint_bit)

end

interpretation obj_flags: bit_flags of_bits of_contains of_insert of_remove
  by unfold_locales (simp_all add: of_contains_def of_insert_def of_remove_def)

interpretation obj_core_flags: bit_flags oc_bits oc_contains oc_insert oc_remove
  by unfold_locales (simp_all add: oc_contains_def oc_insert_def oc_remove_def)

interpretation obj_exp_flags: bit_flags oe_bits oe_contains oe_insert oe_remove
  by unfold_locales (simp_all add: oe_contains_def oe_insert_def oe_remove_def)

end
