(* ===== verification/Http_Types.thy ===== *)
theory Http_Types
  imports Rv_Types
begin

text \<open>
  The well-known headers and the status codes of \<^verbatim>\<open>rv-types\<close>.  A header constructor has the name of the
  Rust variant behind the prefix \<open>H_\<close>.  The lemmas show that header names are recognised in any case
  and invert the canonical names.
\<close>

section \<open>Well-known headers\<close>

datatype (plugins only: code) known_header =
  H_Accept | H_AcceptCharset | H_AcceptEncoding | H_AcceptLanguage | H_AcceptRanges | H_Age
  | H_Allow | H_Authorization | H_CacheControl | H_Connection | H_ContentEncoding
  | H_ContentLanguage | H_ContentLength | H_ContentLocation | H_ContentMd5 | H_ContentRange
  | H_ContentType | H_Cookie | H_Date | H_ETag | H_Expect | H_Expires | H_From | H_Host
  | H_Http2Settings | H_IfMatch | H_IfModifiedSince | H_IfNoneMatch | H_IfRange
  | H_IfUnmodifiedSince | H_KeepAlive | H_LastModified | H_Location | H_MaxForwards | H_Pragma
  | H_ProxyAuthenticate | H_ProxyAuthorization | H_Range | H_Referer | H_RetryAfter | H_Server
  | H_SetCookie | H_Te | H_Trailer | H_TransferEncoding | H_Upgrade | H_UserAgent | H_Vary | H_Via
  | H_Warning | H_WwwAuthenticate | H_XForwardedFor

primrec canonical_name :: "known_header \<Rightarrow> string" where
  "canonical_name H_Accept = ''Accept''"
| "canonical_name H_AcceptCharset = ''Accept-Charset''"
| "canonical_name H_AcceptEncoding = ''Accept-Encoding''"
| "canonical_name H_AcceptLanguage = ''Accept-Language''"
| "canonical_name H_AcceptRanges = ''Accept-Ranges''"
| "canonical_name H_Age = ''Age''"
| "canonical_name H_Allow = ''Allow''"
| "canonical_name H_Authorization = ''Authorization''"
| "canonical_name H_CacheControl = ''Cache-Control''"
| "canonical_name H_Connection = ''Connection''"
| "canonical_name H_ContentEncoding = ''Content-Encoding''"
| "canonical_name H_ContentLanguage = ''Content-Language''"
| "canonical_name H_ContentLength = ''Content-Length''"
| "canonical_name H_ContentLocation = ''Content-Location''"
| "canonical_name H_ContentMd5 = ''Content-MD5''"
| "canonical_name H_ContentRange = ''Content-Range''"
| "canonical_name H_ContentType = ''Content-Type''"
| "canonical_name H_Cookie = ''Cookie''"
| "canonical_name H_Date = ''Date''"
| "canonical_name H_ETag = ''ETag''"
| "canonical_name H_Expect = ''Expect''"
| "canonical_name H_Expires = ''Expires''"
| "canonical_name H_From = ''From''"
| "canonical_name H_Host = ''Host''"
| "canonical_name H_Http2Settings = ''HTTP2-Settings''"
| "canonical_name H_IfMatch = ''If-Match''"
| "canonical_name H_IfModifiedSince = ''If-Modified-Since''"
| "canonical_name H_IfNoneMatch = ''If-None-Match''"
| "canonical_name H_IfRange = ''If-Range''"
| "canonical_name H_IfUnmodifiedSince = ''If-Unmodified-Since''"
| "canonical_name H_KeepAlive = ''Keep-Alive''"
| "canonical_name H_LastModified = ''Last-Modified''"
| "canonical_name H_Location = ''Location''"
| "canonical_name H_MaxForwards = ''Max-Forwards''"
| "canonical_name H_Pragma = ''Pragma''"
| "canonical_name H_ProxyAuthenticate = ''Proxy-Authenticate''"
| "canonical_name H_ProxyAuthorization = ''Proxy-Authorization''"
| "canonical_name H_Range = ''Range''"
| "canonical_name H_Referer = ''Referer''"
| "canonical_name H_RetryAfter = ''Retry-After''"
| "canonical_name H_Server = ''Server''"
| "canonical_name H_SetCookie = ''Set-Cookie''"
| "canonical_name H_Te = ''TE''"
| "canonical_name H_Trailer = ''Trailer''"
| "canonical_name H_TransferEncoding = ''Transfer-Encoding''"
| "canonical_name H_Upgrade = ''Upgrade''"
| "canonical_name H_UserAgent = ''User-Agent''"
| "canonical_name H_Vary = ''Vary''"
| "canonical_name H_Via = ''Via''"
| "canonical_name H_Warning = ''Warning''"
| "canonical_name H_WwwAuthenticate = ''WWW-Authenticate''"
| "canonical_name H_XForwardedFor = ''X-Forwarded-For''"

definition known_header_names :: "(string \<times> known_header) list" where
  "known_header_names =
     [(''accept'', H_Accept),
      (''accept-charset'', H_AcceptCharset),
      (''accept-encoding'', H_AcceptEncoding),
      (''accept-language'', H_AcceptLanguage),
      (''accept-ranges'', H_AcceptRanges),
      (''age'', H_Age),
      (''allow'', H_Allow),
      (''authorization'', H_Authorization),
      (''cache-control'', H_CacheControl),
      (''connection'', H_Connection),
      (''content-encoding'', H_ContentEncoding),
      (''content-language'', H_ContentLanguage),
      (''content-length'', H_ContentLength),
      (''content-location'', H_ContentLocation),
      (''content-md5'', H_ContentMd5),
      (''content-range'', H_ContentRange),
      (''content-type'', H_ContentType),
      (''cookie'', H_Cookie),
      (''date'', H_Date),
      (''etag'', H_ETag),
      (''expect'', H_Expect),
      (''expires'', H_Expires),
      (''from'', H_From),
      (''host'', H_Host),
      (''http2-settings'', H_Http2Settings),
      (''if-match'', H_IfMatch),
      (''if-modified-since'', H_IfModifiedSince),
      (''if-none-match'', H_IfNoneMatch),
      (''if-range'', H_IfRange),
      (''if-unmodified-since'', H_IfUnmodifiedSince),
      (''keep-alive'', H_KeepAlive),
      (''last-modified'', H_LastModified),
      (''location'', H_Location),
      (''max-forwards'', H_MaxForwards),
      (''pragma'', H_Pragma),
      (''proxy-authenticate'', H_ProxyAuthenticate),
      (''proxy-authorization'', H_ProxyAuthorization),
      (''range'', H_Range),
      (''referer'', H_Referer),
      (''retry-after'', H_RetryAfter),
      (''server'', H_Server),
      (''set-cookie'', H_SetCookie),
      (''te'', H_Te),
      (''trailer'', H_Trailer),
      (''transfer-encoding'', H_TransferEncoding),
      (''upgrade'', H_Upgrade),
      (''user-agent'', H_UserAgent),
      (''vary'', H_Vary),
      (''via'', H_Via),
      (''warning'', H_Warning),
      (''www-authenticate'', H_WwwAuthenticate),
      (''x-forwarded-for'', H_XForwardedFor)]"

definition from_name :: "string \<Rightarrow> known_header option" where
  "from_name name = map_of known_header_names (to_ascii_lowercase name)"

datatype header_flags = HeaderFlags (hf_bits: u8)

definition HF_PASS :: header_flags where "HF_PASS = HeaderFlags (push_bit 0 1)"
definition HF_FETCH :: header_flags where "HF_FETCH = HeaderFlags (push_bit 1 1)"
definition HF_INSERT :: header_flags where "HF_INSERT = HeaderFlags (push_bit 2 1)"
definition HF_PASS_S :: header_flags where "HF_PASS_S = HeaderFlags (push_bit 3 1)"
definition HF_CONNECTION :: header_flags where "HF_CONNECTION = HeaderFlags (push_bit 4 1)"

definition hf_or :: "header_flags \<Rightarrow> header_flags \<Rightarrow> header_flags" where
  "hf_or a b = HeaderFlags (hf_bits a OR hf_bits b)"

definition hf_contains :: "header_flags \<Rightarrow> header_flags \<Rightarrow> bool" where
  "hf_contains a b \<longleftrightarrow> hf_bits a AND hf_bits b = hf_bits b"

definition hf_union :: "header_flags list \<Rightarrow> header_flags" where
  "hf_union fs = foldl hf_or (HeaderFlags 0) fs"

definition header_flags_of :: "known_header \<Rightarrow> header_flags" where
  "header_flags_of h = (case map_of
     [(H_AcceptRanges, hf_union [HF_PASS, HF_FETCH, HF_INSERT]),
      (H_Age, hf_union [HF_INSERT, HF_PASS_S]),
      (H_CacheControl, hf_union [HF_FETCH]),
      (H_Connection, hf_union [HF_PASS, HF_FETCH, HF_INSERT, HF_PASS_S, HF_CONNECTION]),
      (H_ContentRange, hf_union [HF_FETCH, HF_INSERT]),
      (H_Http2Settings, hf_union [HF_PASS, HF_FETCH, HF_INSERT, HF_PASS_S, HF_CONNECTION]),
      (H_IfMatch, hf_union [HF_FETCH]),
      (H_IfModifiedSince, hf_union [HF_FETCH]),
      (H_IfNoneMatch, hf_union [HF_FETCH]),
      (H_IfRange, hf_union [HF_FETCH]),
      (H_IfUnmodifiedSince, hf_union [HF_FETCH]),
      (H_KeepAlive, hf_union [HF_PASS, HF_FETCH, HF_INSERT, HF_PASS_S, HF_CONNECTION]),
      (H_ProxyAuthenticate, hf_union [HF_FETCH, HF_INSERT]),
      (H_ProxyAuthorization, hf_union [HF_FETCH, HF_INSERT]),
      (H_Range, hf_union [HF_FETCH, HF_INSERT]),
      (H_Te, hf_union [HF_PASS, HF_FETCH, HF_INSERT, HF_PASS_S]),
      (H_Trailer, hf_union [HF_PASS, HF_FETCH, HF_INSERT, HF_PASS_S]),
      (H_TransferEncoding, hf_union [HF_PASS, HF_FETCH, HF_INSERT, HF_PASS_S, HF_CONNECTION]),
      (H_Upgrade, hf_union [HF_PASS, HF_FETCH, HF_INSERT, HF_PASS_S, HF_CONNECTION])] h
     of Some f \<Rightarrow> f | None \<Rightarrow> HeaderFlags 0)"

section \<open>Status codes\<close>

datatype http_status = HttpStatus (status_code: u16)

definition status_reasons :: "(u16 \<times> string) list" where
  "status_reasons =
     [(100, ''Continue''),
      (101, ''Switching Protocols''),
      (102, ''Processing''),
      (103, ''Early Hints''),
      (200, ''OK''),
      (201, ''Created''),
      (202, ''Accepted''),
      (203, ''Non-Authoritative Information''),
      (204, ''No Content''),
      (205, ''Reset Content''),
      (206, ''Partial Content''),
      (300, ''Multiple Choices''),
      (301, ''Moved Permanently''),
      (302, ''Found''),
      (303, ''See Other''),
      (304, ''Not Modified''),
      (307, ''Temporary Redirect''),
      (308, ''Permanent Redirect''),
      (400, ''Bad Request''),
      (401, ''Unauthorized''),
      (403, ''Forbidden''),
      (404, ''Not Found''),
      (405, ''Method Not Allowed''),
      (406, ''Not Acceptable''),
      (408, ''Request Timeout''),
      (409, ''Conflict''),
      (410, ''Gone''),
      (411, ''Length Required''),
      (412, ''Precondition Failed''),
      (413, ''Payload Too Large''),
      (414, ''URI Too Long''),
      (415, ''Unsupported Media Type''),
      (416, ''Range Not Satisfiable''),
      (417, ''Expectation Failed''),
      (421, ''Misdirected Request''),
      (425, ''Too Early''),
      (426, ''Upgrade Required''),
      (429, ''Too Many Requests''),
      (431, ''Request Header Fields Too Large''),
      (500, ''Internal Server Error''),
      (501, ''Not Implemented''),
      (502, ''Bad Gateway''),
      (503, ''Service Unavailable''),
      (504, ''Gateway Timeout''),
      (505, ''HTTP Version Not Supported'')]"

definition status_reason :: "http_status \<Rightarrow> string" where
  "status_reason s = (case map_of status_reasons (status_code s) of Some r \<Rightarrow> r | None \<Rightarrow> ''Unknown'')"

definition status_between :: "nat \<Rightarrow> nat \<Rightarrow> http_status \<Rightarrow> bool" where
  "status_between a b s \<longleftrightarrow> a \<le> unat (status_code s) \<and> unat (status_code s) < b"

definition is_informational :: "http_status \<Rightarrow> bool" where
  "is_informational = status_between 100 200"

definition is_success :: "http_status \<Rightarrow> bool" where
  "is_success = status_between 200 300"

definition is_redirection :: "http_status \<Rightarrow> bool" where
  "is_redirection = status_between 300 400"

definition is_client_error :: "http_status \<Rightarrow> bool" where
  "is_client_error = status_between 400 500"

definition is_server_error :: "http_status \<Rightarrow> bool" where
  "is_server_error = status_between 500 600"

text \<open>The named codes, in the order of the source.\<close>

definition status_constants :: "(string \<times> u16) list" where
  "status_constants =
     [(''CONTINUE'', 100),
      (''SWITCHING_PROTOCOLS'', 101),
      (''PROCESSING'', 102),
      (''EARLY_HINTS'', 103),
      (''OK'', 200),
      (''CREATED'', 201),
      (''ACCEPTED'', 202),
      (''NON_AUTHORITATIVE'', 203),
      (''NO_CONTENT'', 204),
      (''RESET_CONTENT'', 205),
      (''PARTIAL_CONTENT'', 206),
      (''MULTIPLE_CHOICES'', 300),
      (''MOVED_PERMANENTLY'', 301),
      (''FOUND'', 302),
      (''SEE_OTHER'', 303),
      (''NOT_MODIFIED'', 304),
      (''TEMPORARY_REDIRECT'', 307),
      (''PERMANENT_REDIRECT'', 308),
      (''BAD_REQUEST'', 400),
      (''UNAUTHORIZED'', 401),
      (''FORBIDDEN'', 403),
      (''NOT_FOUND'', 404),
      (''METHOD_NOT_ALLOWED'', 405),
      (''NOT_ACCEPTABLE'', 406),
      (''REQUEST_TIMEOUT'', 408),
      (''CONFLICT'', 409),
      (''GONE'', 410),
      (''LENGTH_REQUIRED'', 411),
      (''PRECONDITION_FAILED'', 412),
      (''PAYLOAD_TOO_LARGE'', 413),
      (''URI_TOO_LONG'', 414),
      (''UNSUPPORTED_MEDIA_TYPE'', 415),
      (''RANGE_NOT_SATISFIABLE'', 416),
      (''EXPECTATION_FAILED'', 417),
      (''MISDIRECTED_REQUEST'', 421),
      (''TOO_EARLY'', 425),
      (''UPGRADE_REQUIRED'', 426),
      (''TOO_MANY_REQUESTS'', 429),
      (''HEADER_FIELDS_TOO_LARGE'', 431),
      (''INTERNAL_SERVER_ERROR'', 500),
      (''NOT_IMPLEMENTED'', 501),
      (''BAD_GATEWAY'', 502),
      (''SERVICE_UNAVAILABLE'', 503),
      (''GATEWAY_TIMEOUT'', 504),
      (''HTTP_VERSION_NOT_SUPPORTED'', 505)]"

section \<open>Names\<close>

lemma known_header_lower:
  "list_all (\<lambda>(n, h). n = to_ascii_lowercase (canonical_name h)) known_header_names"
  by code_simp

lemma known_header_distinct: "distinct (map fst known_header_names)"
  unfolding known_header_names_def by simp

lemma known_header_listed: "h \<in> snd ` set known_header_names"
  by (induction h) (simp_all add: known_header_names_def)

lemma from_name_canonical_lower:
  "map_of known_header_names (to_ascii_lowercase (canonical_name h)) = Some h"
proof -
  from known_header_listed obtain n where n: "(n, h) \<in> set known_header_names" by force
  with known_header_lower have "n = to_ascii_lowercase (canonical_name h)"
    by (auto simp: list_all_iff)
  with n known_header_distinct show ?thesis by simp
qed

lemma from_name_iff:
  "from_name n = Some h \<longleftrightarrow> eq_ignore_ascii_case n (canonical_name h)"
proof
  assume "from_name n = Some h"
  then have "(to_ascii_lowercase n, h) \<in> set known_header_names"
    unfolding from_name_def by (rule map_of_SomeD)
  with known_header_lower show "eq_ignore_ascii_case n (canonical_name h)"
    by (auto simp: list_all_iff eq_ignore_ascii_case_def)
next
  assume "eq_ignore_ascii_case n (canonical_name h)"
  then show "from_name n = Some h"
    by (simp add: from_name_def eq_ignore_ascii_case_def from_name_canonical_lower)
qed

lemma from_name_cong: "eq_ignore_ascii_case a b \<Longrightarrow> from_name a = from_name b"
  by (simp add: from_name_def eq_ignore_ascii_case_def)

text \<open>The hop-by-hop headers are the ones with the connection flag.\<close>

lemma connection_headers:
  "hf_contains (header_flags_of h) HF_CONNECTION \<longleftrightarrow>
   h \<in> {H_Connection, H_Http2Settings, H_KeepAlive, H_TransferEncoding, H_Upgrade}"
  by (induction h)
     (simp_all add: hf_contains_def header_flags_of_def hf_union_def hf_or_def HF_PASS_def HF_FETCH_def
       HF_INSERT_def HF_PASS_S_def HF_CONNECTION_def)

end
