(* ===== verification/Http_Headers.thy ===== *)
theory Http_Headers
  imports Http_Types
begin

text \<open>
  Headers and messages of \<^verbatim>\<open>rv-http\<close> (\<^verbatim>\<open>header.rs\<close>, \<^verbatim>\<open>message.rs\<close>).  A \<open>HeaderMap\<close> is the list of its
  headers in order.  The locale \<open>header_store\<close> is the contract that the users of a header map rely on:
  the values under a name, compared without regard to ASCII case, after each operation.
\<close>

section \<open>Header maps\<close>

record header =
  h_name :: string
  h_value :: string
  h_known :: "known_header option"

definition header_new :: "string \<Rightarrow> string \<Rightarrow> header" where
  "header_new name value = \<lparr>h_name = name, h_value = value, h_known = from_name name\<rparr>"

definition name_eq_ignore_case :: "header \<Rightarrow> string \<Rightarrow> bool" where
  "name_eq_ignore_case h other \<longleftrightarrow> eq_ignore_ascii_case (h_name h) other"

type_synonym header_map = "header list"

definition hm_get :: "header_map \<Rightarrow> string \<Rightarrow> string option" where
  "hm_get hs name = map_option h_value (find (\<lambda>h. name_eq_ignore_case h name) hs)"

definition hm_get_all :: "header_map \<Rightarrow> string \<Rightarrow> string list" where
  "hm_get_all hs name = map h_value (filter (\<lambda>h. name_eq_ignore_case h name) hs)"

definition hm_unset :: "header_map \<Rightarrow> string \<Rightarrow> header_map" where
  "hm_unset hs name = filter (\<lambda>h. \<not> name_eq_ignore_case h name) hs"

definition hm_append :: "header_map \<Rightarrow> string \<Rightarrow> string \<Rightarrow> header_map" where
  "hm_append hs name value = hs @ [header_new name value]"

definition hm_set :: "header_map \<Rightarrow> string \<Rightarrow> string \<Rightarrow> header_map" where
  "hm_set hs name value = filter (\<lambda>h. \<not> name_eq_ignore_case h name) hs @ [header_new name value]"

definition hm_contains :: "header_map \<Rightarrow> string \<Rightarrow> bool" where
  "hm_contains hs name \<longleftrightarrow> list_ex (\<lambda>h. name_eq_ignore_case h name) hs"

definition hm_copy_from_filtered :: "header_map \<Rightarrow> header_map \<Rightarrow> (header \<Rightarrow> bool) \<Rightarrow> header_map" where
  "hm_copy_from_filtered hs source keep = foldl (\<lambda>acc h. if keep h then acc @ [h] else acc) hs source"

definition CONNECTION_HEADERS :: "string list" where
  "CONNECTION_HEADERS =
     [''connection'', ''keep-alive'', ''transfer-encoding'', ''upgrade'', ''http2-settings'']"

definition hm_filter_connection_headers :: "header_map \<Rightarrow> header_map" where
  "hm_filter_connection_headers hs =
     (let connection_headers =
        (case hm_get hs ''Connection'' of
           Some v \<Rightarrow> map (\<lambda>s. to_ascii_lowercase (trim s)) (split_char (CHR '','') v)
         | None \<Rightarrow> [])
      in filter (\<lambda>h. let lower = to_ascii_lowercase (h_name h) in
           if lower \<in> set CONNECTION_HEADERS then False
           else if lower \<in> set connection_headers then False else True) hs)"

definition hm_content_length :: "header_map \<Rightarrow> u64 option" where
  "hm_content_length hs =
     (case hm_get hs ''Content-Length'' of None \<Rightarrow> None | Some v \<Rightarrow> parse_u64 (trim v))"

definition hm_is_chunked :: "header_map \<Rightarrow> bool" where
  "hm_is_chunked hs =
     (case hm_get hs ''Transfer-Encoding'' of Some v \<Rightarrow> eq_ignore_ascii_case v ''chunked'' | None \<Rightarrow> False)"

definition hm_to_vec :: "header_map \<Rightarrow> (string \<times> string) list" where
  "hm_to_vec hs = map (\<lambda>h. (h_name h, h_value h)) hs"

definition hm_wire_size :: "header_map \<Rightarrow> nat" where
  "hm_wire_size hs = sum_list (map (\<lambda>h. length (h_name h) + 2 + length (h_value h) + 2) hs)"

section \<open>The contract of a header store\<close>

locale header_store =
  fixes get_all :: "'h \<Rightarrow> string \<Rightarrow> string list"
    and get :: "'h \<Rightarrow> string \<Rightarrow> string option"
    and set_hdr :: "'h \<Rightarrow> string \<Rightarrow> string \<Rightarrow> 'h"
    and append_hdr :: "'h \<Rightarrow> string \<Rightarrow> string \<Rightarrow> 'h"
    and unset_hdr :: "'h \<Rightarrow> string \<Rightarrow> 'h"
  assumes get_first: "get h n = (case get_all h n of [] \<Rightarrow> None | v # _ \<Rightarrow> Some v)"
    and get_all_set: "get_all (set_hdr h n v) m =
          (if eq_ignore_ascii_case n m then [v] else get_all h m)"
    and get_all_append: "get_all (append_hdr h n v) m =
          (if eq_ignore_ascii_case n m then get_all h m @ [v] else get_all h m)"
    and get_all_unset: "get_all (unset_hdr h n) m =
          (if eq_ignore_ascii_case n m then [] else get_all h m)"
begin

lemma get_set: "get (set_hdr h n v) m = (if eq_ignore_ascii_case n m then Some v else get h m)"
  by (simp add: get_first get_all_set)

lemma get_unset: "get (unset_hdr h n) m = (if eq_ignore_ascii_case n m then None else get h m)"
  by (simp add: get_first get_all_unset)

lemma get_append:
  "get (append_hdr h n v) m = (if eq_ignore_ascii_case n m \<and> get h m = None then Some v else get h m)"
  by (simp add: get_first get_all_append split: list.splits)

lemma get_sets:
  "get (foldl (\<lambda>h (n, v). set_hdr h n v) h kvs) m =
     (case find (\<lambda>(n, v). eq_ignore_ascii_case n m) (rev kvs) of
        Some (n, v) \<Rightarrow> Some v | None \<Rightarrow> get h m)"
  by (induction kvs rule: rev_induct) (auto simp: get_set)

end

lemma find_filter_hd: "find P xs = (case filter P xs of [] \<Rightarrow> None | x # _ \<Rightarrow> Some x)"
  by (induction xs) auto

lemma hm_get_all_unset:
  "hm_get_all (hm_unset hs n) m = (if eq_ignore_ascii_case n m then [] else hm_get_all hs m)"
proof (cases "eq_ignore_ascii_case n m")
  case True
  then have "name_eq_ignore_case h m \<longleftrightarrow> name_eq_ignore_case h n" for h
    by (metis eq_ignore_sym eq_ignore_trans name_eq_ignore_case_def)
  then show ?thesis using True by (simp add: hm_get_all_def hm_unset_def)
next
  case False
  have "name_eq_ignore_case h m \<Longrightarrow> \<not> name_eq_ignore_case h n" for h
    using False by (metis eq_ignore_sym eq_ignore_trans name_eq_ignore_case_def)
  then have "(\<lambda>h. \<not> name_eq_ignore_case h n \<and> name_eq_ignore_case h m) = (\<lambda>h. name_eq_ignore_case h m)"
    by blast
  then show ?thesis using False by (simp add: hm_get_all_def hm_unset_def)
qed

lemma hm_get_all_append:
  "hm_get_all (hm_append hs n v) m =
     (if eq_ignore_ascii_case n m then hm_get_all hs m @ [v] else hm_get_all hs m)"
  by (simp add: hm_get_all_def hm_append_def header_new_def name_eq_ignore_case_def)

lemma hm_set_eq: "hm_set hs n v = hm_append (hm_unset hs n) n v"
  by (simp add: hm_set_def hm_append_def hm_unset_def)

interpretation hm: header_store hm_get_all hm_get hm_set hm_append hm_unset
proof (unfold_locales, goal_cases)
  case (1 h n)
  show ?case
    by (cases "filter (\<lambda>h. name_eq_ignore_case h n) h")
       (simp_all add: hm_get_def hm_get_all_def find_filter_hd)
qed (simp_all add: hm_set_eq hm_get_all_append hm_get_all_unset)

lemma hm_contains_iff: "hm_contains hs n \<longleftrightarrow> hm_get hs n \<noteq> None"
  by (auto simp: hm_contains_def hm_get_def list_ex_iff find_None_iff)

text \<open>Every operation keeps the cached recognition of the name correct.\<close>

definition hm_wf :: "header_map \<Rightarrow> bool" where
  "hm_wf hs \<longleftrightarrow> (\<forall>h \<in> set hs. h_known h = from_name (h_name h))"

lemma hm_wf_ops [simp]:
  "hm_wf hs \<Longrightarrow> hm_wf (hm_set hs n v)"
  "hm_wf hs \<Longrightarrow> hm_wf (hm_append hs n v)"
  "hm_wf hs \<Longrightarrow> hm_wf (hm_unset hs n)"
  "hm_wf hs \<Longrightarrow> hm_wf (hm_filter_connection_headers hs)"
  by (auto simp: hm_wf_def hm_set_def hm_append_def hm_unset_def header_new_def
      hm_filter_connection_headers_def Let_def)

lemma hm_copy_eq: "hm_copy_from_filtered hs source keep = hs @ filter keep source"
proof -
  have "foldl (\<lambda>acc h. if keep h then acc @ [h] else acc) acc source = acc @ filter keep source" for acc
    by (induction source arbitrary: acc) auto
  then show ?thesis by (simp add: hm_copy_from_filtered_def)
qed

section \<open>Messages\<close>

datatype http_version = Http10 | Http11 | Http2

definition parse_version :: "string \<Rightarrow> http_version option" where
  "parse_version s = map_of [(''HTTP/1.0'', Http10), (''HTTP/1.1'', Http11), (''HTTP/2'', Http2),
     (''HTTP/2.0'', Http2)] s"

primrec version_str :: "http_version \<Rightarrow> string" where
  "version_str Http10 = ''HTTP/1.0''"
| "version_str Http11 = ''HTTP/1.1''"
| "version_str Http2 = ''HTTP/2''"

primrec version_minor :: "http_version \<Rightarrow> nat" where
  "version_minor Http10 = 0"
| "version_minor Http11 = 1"
| "version_minor Http2 = 0"

definition supports_keepalive :: "http_version \<Rightarrow> bool" where
  "supports_keepalive v \<longleftrightarrow> v \<noteq> Http10"

record http_message =
  msg_headers :: header_map
  msg_status :: http_status
  msg_protocol :: http_version
  msg_method :: http_method
  msg_url :: string
  msg_reason :: string
  msg_body_status :: body_status

definition new_request :: "http_method \<Rightarrow> string \<Rightarrow> http_version \<Rightarrow> http_message" where
  "new_request method url version =
     \<lparr>msg_headers = [], msg_status = HttpStatus 200, msg_protocol = version, msg_method = method,
      msg_url = url, msg_reason = [], msg_body_status = BS_None\<rparr>"

definition new_response :: "http_status \<Rightarrow> http_version \<Rightarrow> http_message" where
  "new_response status version =
     \<lparr>msg_headers = [], msg_status = status, msg_protocol = version, msg_method = M_Get,
      msg_url = [], msg_reason = status_reason status, msg_body_status = BS_None\<rparr>"

definition set_header :: "http_message \<Rightarrow> string \<Rightarrow> string \<Rightarrow> http_message" where
  "set_header m name value = m\<lparr>msg_headers := hm_set (msg_headers m) name value\<rparr>"

definition get_header :: "http_message \<Rightarrow> string \<Rightarrow> string option" where
  "get_header m name = hm_get (msg_headers m) name"

definition unset_header :: "http_message \<Rightarrow> string \<Rightarrow> http_message" where
  "unset_header m name = m\<lparr>msg_headers := hm_unset (msg_headers m) name\<rparr>"

definition msg_reset :: "http_message \<Rightarrow> http_message" where
  "msg_reset m = m\<lparr>msg_headers := [], msg_status := HttpStatus 200, msg_method := M_Get,
     msg_url := [], msg_reason := [], msg_body_status := BS_None\<rparr>"

definition response_has_body :: "http_message \<Rightarrow> bool" where
  "response_has_body m \<longleftrightarrow> \<not> is_informational (msg_status m) \<and> msg_status m \<noteq> HttpStatus 204 \<and>
     msg_status m \<noteq> HttpStatus 304"

definition request_line :: "http_message \<Rightarrow> string" where
  "request_line m = method_name (msg_method m) @ '' '' @ msg_url m @ '' '' @ version_str (msg_protocol m)"

definition status_line :: "http_message \<Rightarrow> string" where
  "status_line m = version_str (msg_protocol m) @ '' '' @ show_nat (unat (status_code (msg_status m)))
     @ '' '' @ msg_reason m"

lemma parse_version_str [simp]: "parse_version (version_str v) = Some v"
  by (cases v) (simp_all add: parse_version_def)

lemma get_header_set [simp]:
  "get_header (set_header m n v) k = (if eq_ignore_ascii_case n k then Some v else get_header m k)"
  by (simp add: get_header_def set_header_def hm.get_set)

lemma get_header_unset [simp]:
  "get_header (unset_header m n) k = (if eq_ignore_ascii_case n k then None else get_header m k)"
  by (simp add: get_header_def unset_header_def hm.get_unset)

end
