(* ===== verification/Http_Vary.thy ===== *)
theory Http_Vary
  imports Http_Headers
begin

text \<open>
  Variant selection of \<^verbatim>\<open>rv-http/src/vary.rs\<close>: the blob that records the request's values of the
  varying headers, and the match of a later request against it.  The main lemma is that the match
  inverts the construction.
\<close>

section \<open>Bytes of a string\<close>

definition str_bytes :: "string \<Rightarrow> u8 list" where
  "str_bytes s = map (\<lambda>c. of_nat (of_char c)) s"

definition bytes_str :: "u8 list \<Rightarrow> string" where
  "bytes_str bs = map (\<lambda>b. char_of (unat b)) bs"

definition from_utf8 :: "u8 list \<Rightarrow> string option" where
  "from_utf8 bs = (if utf8_valid (bytes_str bs) then Some (bytes_str bs) else None)"

lemma length_str_bytes [simp]: "length (str_bytes s) = length s"
  by (simp add: str_bytes_def)

lemma unat_char_byte: "unat (of_nat (of_char c) :: u8) = of_char c"
proof -
  have "(of_char c :: nat) < 256" by simp
  then show ?thesis by (simp add: unsigned_of_nat take_bit_eq_mod)
qed

lemma bytes_str_str_bytes [simp]: "bytes_str (str_bytes s) = s"
  by (simp add: bytes_str_def str_bytes_def o_def unat_char_byte map_idI)

lemma from_utf8_str_bytes [simp]: "utf8_valid s \<Longrightarrow> from_utf8 (str_bytes s) = Some s"
  by (simp add: from_utf8_def)

lemma hm_get_Nil [simp]: "hm_get [] n = None"
  by (simp add: hm_get_def)

section \<open>Building and matching\<close>

definition vary_star :: "u8 list" where
  "vary_star = [0xFF]"

text \<open>One header of the blob; \<open>len() as u16\<close> truncates.\<close>

definition vary_entry :: "string \<Rightarrow> string \<Rightarrow> u8 list" where
  "vary_entry name value =
     le_bytes 2 (length name mod 65536) @ str_bytes name @ le_bytes 2 (length value mod 65536) @ str_bytes value"

definition request_value :: "header_map \<Rightarrow> string \<Rightarrow> string" where
  "request_value hs name = (case hm_get hs name of Some v \<Rightarrow> v | None \<Rightarrow> [])"

fun vary_data :: "header_map \<Rightarrow> string list \<Rightarrow> u8 list" where
  "vary_data hs [] = []"
| "vary_data hs (f # fs) =
     (let field_name = trim f in
      if field_name = [] then vary_data hs fs
      else vary_entry field_name (request_value hs field_name) @ vary_data hs fs)"

definition build_vary_data :: "string option \<Rightarrow> header_map \<Rightarrow> u8 list option" where
  "build_vary_data response_vary hs =
     (case response_vary of None \<Rightarrow> None
      | Some vary \<Rightarrow>
          if trim vary = ''*'' then Some vary_star
          else let data = vary_data hs (split_char (CHR '','') vary)
               in if data = [] then None else Some data)"

text \<open>The loop of \<open>matches\<close> on the bytes from the current position on.\<close>

function vary_matches_from :: "u8 list \<Rightarrow> header_map \<Rightarrow> bool" where
  "vary_matches_from d hs =
     (if d = [] then True
      else if length d < 2 then False
      else let name_len = le_value (take 2 d); d1 = drop 2 d in
        if length d1 < name_len then False
        else (case from_utf8 (take name_len d1) of None \<Rightarrow> False
        | Some name \<Rightarrow> let d2 = drop name_len d1 in
        if length d2 < 2 then False
        else let value_len = le_value (take 2 d2); d3 = drop 2 d2 in
        if length d3 < value_len then False
        else (case from_utf8 (take value_len d3) of None \<Rightarrow> False
        | Some stored_value \<Rightarrow>
            if request_value hs name \<noteq> stored_value then False
            else vary_matches_from (drop value_len d3) hs)))"
  by auto
termination
  by (relation "measure (\<lambda>(d, hs). length d)") auto

declare vary_matches_from.simps [simp del]

definition vary_matches :: "u8 list \<Rightarrow> header_map \<Rightarrow> bool" where
  "vary_matches d hs \<longleftrightarrow> (if d = vary_star then False else vary_matches_from d hs)"

section \<open>Matching inverts building\<close>

definition fits :: "string \<Rightarrow> bool" where
  "fits s \<longleftrightarrow> length s < 65536 \<and> utf8_valid s"

lemma vary_matches_Nil [simp]: "vary_matches_from [] hs"
  by (simp add: vary_matches_from.simps)

lemma vary_matches_entry:
  assumes "fits name" "fits value"
  shows "vary_matches_from (vary_entry name value @ rest) hs \<longleftrightarrow>
     request_value hs name = value \<and> vary_matches_from rest hs"
proof -
  let ?d2 = "le_bytes 2 (length value) @ str_bytes value @ rest"
  let ?d = "le_bytes 2 (length name) @ str_bytes name @ ?d2"
  have len: "length name < 65536" "length value < 65536" using assms by (simp_all add: fits_def)
  then have d: "vary_entry name value @ rest = ?d" by (simp add: vary_entry_def)
  have lv: "le_value (take 2 ?d) = length name" "le_value (take 2 ?d2) = length value"
    using len by simp_all
  have ne: "?d \<noteq> []" "\<not> length ?d < 2" "\<not> length ?d2 < 2"
    by (simp_all flip: length_0_conv)
  have n: "drop 2 ?d = str_bytes name @ ?d2" "take (length name) (str_bytes name @ ?d2) = str_bytes name"
      "drop (length name) (str_bytes name @ ?d2) = ?d2" "\<not> length (str_bytes name @ ?d2) < length name"
    by simp_all
  have v: "drop 2 ?d2 = str_bytes value @ rest" "take (length value) (str_bytes value @ rest) = str_bytes value"
      "drop (length value) (str_bytes value @ rest) = rest" "\<not> length (str_bytes value @ rest) < length value"
    by simp_all
  have utf: "from_utf8 (str_bytes name) = Some name" "from_utf8 (str_bytes value) = Some value"
    using assms by (simp_all add: fits_def)
  show ?thesis
    unfolding d
    by (subst vary_matches_from.simps) (simp only: ne lv n v utf Let_def if_False option.case, auto)
qed

text \<open>The names a \<open>Vary\<close> header lists.\<close>

definition vary_fields :: "string \<Rightarrow> string list" where
  "vary_fields vary = filter (\<lambda>f. f \<noteq> []) (map trim (split_char (CHR '','') vary))"

lemma vary_data_fields:
  "vary_data hs fs = concat (map (\<lambda>f. vary_entry f (request_value hs f)) (filter (\<lambda>f. f \<noteq> []) (map trim fs)))"
  by (induction fs) (auto simp: Let_def)

lemma vary_entry_long: "length (vary_entry n v) \<ge> 4"
  by (simp add: vary_entry_def)

lemma vary_concat_matches:
  assumes "\<forall>f \<in> set fs. fits f \<and> fits (g f)"
  shows "vary_matches_from (concat (map (\<lambda>f. vary_entry f (g f)) fs)) hs \<longleftrightarrow>
     (\<forall>f \<in> set fs. request_value hs f = g f)"
  using assms by (induction fs) (auto simp: vary_matches_entry)

lemma build_vary_data_matches:
  assumes nstar: "trim vary \<noteq> ''*''"
    and fit: "\<forall>f \<in> set (vary_fields vary). fits f \<and> fits (request_value hs f)"
    and b: "build_vary_data (Some vary) hs = Some d"
  shows "vary_matches d hs' \<longleftrightarrow> (\<forall>f \<in> set (vary_fields vary). request_value hs' f = request_value hs f)"
proof -
  let ?d = "concat (map (\<lambda>f. vary_entry f (request_value hs f)) (vary_fields vary))"
  from b nstar have d: "d = ?d" "d \<noteq> []"
    by (auto simp: build_vary_data_def Let_def vary_data_fields vary_fields_def split: if_splits)
  have "d \<noteq> vary_star"
  proof
    assume star: "d = vary_star"
    from d obtain f fs where "vary_fields vary = f # fs" by (cases "vary_fields vary") auto
    with d(1) vary_entry_long [of f "request_value hs f"] have "length d \<ge> 4" by simp
    with star show False by (simp add: vary_star_def)
  qed
  then show ?thesis using vary_concat_matches [OF fit, of hs'] by (simp add: vary_matches_def d(1))
qed


definition vary_demo_request :: header_map where
  "vary_demo_request = hm_set (hm_set [] ''Accept-Encoding'' ''gzip'') ''Host'' ''a''"

lemma vary_demo:
  "vary_fields ''accept-encoding,X-Y'' = [''accept-encoding'', ''X-Y'']"
  "request_value vary_demo_request ''accept-encoding'' = ''gzip''"
  "request_value vary_demo_request ''X-Y'' = ''''" "request_value [] ''accept-encoding'' = ''''"
  "fits ''accept-encoding''" "fits ''X-Y''" "fits ''gzip''" "fits ''''"
  "trim ''accept-encoding,X-Y'' \<noteq> ''*''"
  by (simp_all add: vary_fields_def trim_graphic graphic_def request_value_def vary_demo_request_def
      hm.get_set eq_ignore_ascii_case_def lower_eval fits_def in_range_def)




end
