(* ===== verification/Http_Range.thy ===== *)
theory Http_Range
  imports Rust_Str
begin

text \<open>
  \<open>crates/rv-http/src/range.rs\<close>: byte range requests.  Positions are \<open>u64\<close>; the subtractions of the
  source wrap, as in a release build.
\<close>

section \<open>Ranges\<close>

datatype range_error = InvalidRange | NotSatisfiable

record range_spec =
  range_start :: "u64 option"
  range_end :: "u64 option"

definition resolve :: "range_spec \<Rightarrow> u64 \<Rightarrow> (range_error, u64 \<times> u64) result" where
  "resolve r content_length =
     (case (range_start r, range_end r) of
        (Some start, Some e) \<Rightarrow>
          (if start > e \<or> start \<ge> content_length then Inl NotSatisfiable
           else Inr (start, min e (content_length - 1)))
      | (Some start, None) \<Rightarrow>
          (if start \<ge> content_length then Inl NotSatisfiable else Inr (start, content_length - 1))
      | (None, Some suffix_length) \<Rightarrow>
          (if suffix_length = 0 then Inl NotSatisfiable
           else let start = (if suffix_length \<le> content_length then content_length - suffix_length else 0) in
                Inr (start, content_length - 1))
      | (None, None) \<Rightarrow> Inl InvalidRange)"

definition resolved_length :: "range_spec \<Rightarrow> u64 \<Rightarrow> (range_error, u64) result" where
  "resolved_length r content_length =
     (case resolve r content_length of Inl e \<Rightarrow> Inl e | Inr (start, e) \<Rightarrow> Inr (e - start + 1))"

type_synonym range_set = "range_spec list"

definition parse_range :: "string \<Rightarrow> (range_error, range_spec) result" where
  "parse_range part =
     (case strip_prefix ''-'' part of
        Some suffix_str \<Rightarrow>
          (case parse_u64 suffix_str of
             None \<Rightarrow> Inl InvalidRange
           | Some n \<Rightarrow> Inr \<lparr>range_start = None, range_end = Some n\<rparr>)
      | None \<Rightarrow>
          (case split_once ''-'' part of
             None \<Rightarrow> Inl InvalidRange
           | Some (start_str, end_str) \<Rightarrow>
               (case parse_u64 start_str of
                  None \<Rightarrow> Inl InvalidRange
                | Some start \<Rightarrow>
                    (if end_str = [] then Inr \<lparr>range_start = Some start, range_end = None\<rparr>
                     else (case parse_u64 end_str of
                             None \<Rightarrow> Inl InvalidRange
                           | Some e \<Rightarrow> Inr \<lparr>range_start = Some start, range_end = Some e\<rparr>)))))"

fun parse_ranges :: "string list \<Rightarrow> (range_error, range_spec list) result" where
  "parse_ranges [] = Inr []"
| "parse_ranges (p # ps) =
     (let part = trim p in
      if part = [] then parse_ranges ps
      else (case parse_range part of
              Inl e \<Rightarrow> Inl e
            | Inr r \<Rightarrow> (case parse_ranges ps of Inl e \<Rightarrow> Inl e | Inr rs \<Rightarrow> Inr (r # rs))))"

definition range_set_parse :: "string \<Rightarrow> (range_error, range_set) result" where
  "range_set_parse header_value =
     (case strip_prefix ''bytes='' (trim header_value) of
        None \<Rightarrow> Inl InvalidRange
      | Some ranges_str \<Rightarrow>
          (case parse_ranges (split_char CHR '','' ranges_str) of
             Inl e \<Rightarrow> Inl e
           | Inr ranges \<Rightarrow> (if ranges = [] then Inl InvalidRange else Inr ranges)))"

definition range_is_single :: "range_set \<Rightarrow> bool" where
  "range_is_single rs \<longleftrightarrow> length rs = 1"

definition content_range_header :: "range_set \<Rightarrow> u64 \<Rightarrow> (range_error, string) result" where
  "content_range_header rs content_length =
     (if length rs \<noteq> 1 then Inl InvalidRange
      else (case resolve (rs ! 0) content_length of
              Inl e \<Rightarrow> Inl e
            | Inr (start, e) \<Rightarrow> Inr (''bytes '' @ show_nat (unat start) @ ''-'' @ show_nat (unat e) @ ''/'' @ show_nat (unat content_length))))"

section \<open>Resolution\<close>

text \<open>
  The byte positions that a range selects of a body of \<open>n\<close> bytes (RFC 7233, section 2.1): from the
  first to the last position given, from the first position on, or the last bytes of the body.
\<close>

definition selected :: "range_spec \<Rightarrow> nat \<Rightarrow> nat set" where
  "selected r n =
     (case (range_start r, range_end r) of
        (Some a, Some b) \<Rightarrow> {i. unat a \<le> i \<and> i \<le> unat b \<and> i < n}
      | (Some a, None) \<Rightarrow> {i. unat a \<le> i \<and> i < n}
      | (None, Some k) \<Rightarrow> {i. n - unat k \<le> i \<and> i < n}
      | (None, None) \<Rightarrow> {})"

lemma unat_minus_one64: "(n :: u64) \<noteq> 0 \<Longrightarrow> unat (n - 1) = unat n - 1"
  by (simp add: unat_minus_one)

lemma unat_sub64: "(b :: u64) \<le> a \<Longrightarrow> unat (a - b) = unat a - unat b"
  by (rule unat_sub)

text \<open>
  C19: For a body that is not empty, a range resolves to the first and last of exactly the positions
  that it selects, and is refused as not satisfiable exactly when it selects none; the resolved
  positions are inside the body and the resolved length is their number.
\<close>

theorem resolve_selects:
  assumes "content_length \<noteq> 0"
  shows "case resolve r content_length of
           Inr (s, e) \<Rightarrow> selected r (unat content_length) = {unat s .. unat e} \<and> s \<le> e \<and> e < content_length \<and>
             resolved_length r content_length = Inr (e - s + 1) \<and>
             unat (e - s + 1) = card (selected r (unat content_length))
         | Inl NotSatisfiable \<Rightarrow> selected r (unat content_length) = {}
         | Inl InvalidRange \<Rightarrow> range_start r = None \<and> range_end r = None"
proof -
  let ?n = "unat content_length"
  have n: "0 < ?n" using assms by (simp add: unat_gt_0)
  have last: "unat (content_length - 1) = ?n - 1" using assms by (rule unat_minus_one64)
  have ok: "case Inr (s, e) of
           Inr (s, e) \<Rightarrow> selected r ?n = {unat s .. unat e} \<and> s \<le> e \<and> e < content_length \<and>
             resolved_length r content_length = Inr (e - s + 1) \<and> unat (e - s + 1) = card (selected r ?n)
         | Inl NotSatisfiable \<Rightarrow> selected r ?n = {}
         | Inl InvalidRange \<Rightarrow> range_start r = None \<and> range_end r = None"
    if sel: "selected r ?n = {unat s .. unat e}" and le: "unat s \<le> unat e" "unat e < ?n" and r: "resolve r content_length = Inr (s, e)" for s e
  proof -
    have le': "s \<le> e" using le(1) by (simp add: word_le_nat_alt)
    have "unat (e - s) = unat e - unat s" by (rule unat_sub64[OF le'])
    moreover have "unat (e - s) + 1 < 2 ^ 64"
      using calculation le unat_word64_less[of content_length] by linarith
    ultimately have "unat (e - s + 1) = unat e - unat s + 1"
      using unat_add64[of "e - s" 1] by simp
    then show ?thesis using sel le le' r by (simp add: resolved_length_def word_less_nat_alt)
  qed
  show ?thesis
  proof (cases "range_start r")
    case None
    show ?thesis
    proof (cases "range_end r")
      case None
      then show ?thesis using \<open>range_start r = None\<close> by (simp add: resolve_def)
    next
      case (Some k)
      show ?thesis
      proof (cases "k = 0")
        case True
        then show ?thesis using None Some by (simp add: resolve_def selected_def)
      next
        case False
        then have k: "0 < unat k" by (simp add: unat_gt_0)
        let ?s = "if k \<le> content_length then content_length - k else 0"
        have s: "unat ?s = ?n - unat k" by (simp add: unat_sub64 word_le_nat_alt)
        have res: "resolve r content_length = Inr (?s, content_length - 1)"
          using None Some False by (simp add: resolve_def Let_def)
        have "selected r ?n = {unat ?s .. unat (content_length - 1)}"
          unfolding s last using None Some n by (auto simp: selected_def)
        then show ?thesis unfolding res by (rule ok) (use s last n k res in auto)
      qed
    qed
  next
    case (Some a)
    show ?thesis
    proof (cases "range_end r")
      case None
      show ?thesis
      proof (cases "a \<ge> content_length")
        case True
        then show ?thesis using None Some by (auto simp: resolve_def selected_def word_le_nat_alt)
      next
        case False
        then have res: "resolve r content_length = Inr (a, content_length - 1)" using None Some by (simp add: resolve_def)
        have "selected r ?n = {unat a .. unat (content_length - 1)}"
          unfolding last using None Some n by (auto simp: selected_def)
        then show ?thesis unfolding res by (rule ok) (use last n False res in \<open>auto simp: word_le_nat_alt\<close>)
      qed
    next
      case (Some b)
      show ?thesis
      proof (cases "a > b \<or> a \<ge> content_length")
        case True
        then show ?thesis
          using \<open>range_start r = Some a\<close> Some by (auto simp: resolve_def selected_def word_le_nat_alt word_less_nat_alt)
      next
        case False
        let ?e = "min b (content_length - 1)"
        have e: "unat ?e = min (unat b) (?n - 1)" by (simp add: min_def word_le_nat_alt last)
        have res: "resolve r content_length = Inr (a, ?e)" using \<open>range_start r = Some a\<close> Some False by (simp add: resolve_def)
        have "selected r ?n = {unat a .. unat ?e}"
          unfolding e using \<open>range_start r = Some a\<close> Some n by (auto simp: selected_def)
        then show ?thesis unfolding res
          by (rule ok) (use e n False res in \<open>auto simp: word_le_nat_alt word_less_nat_alt min_def\<close>)
      qed
    qed
  qed
qed

theorem resolve_selects_witness:
  "(10 :: u64) \<noteq> 0 \<and> resolve \<lparr>range_start = Some 2, range_end = Some 100\<rparr> 10 = Inr (2, 9) \<and>
     selected \<lparr>range_start = Some 2, range_end = Some 100\<rparr> 10 = {2 .. 9}"
  using resolve_selects[of 10 "\<lparr>range_start = Some 2, range_end = Some 100\<rparr>"]
  by (simp add: resolve_def)

text \<open>
  A suffix range of an empty body: the last position wraps around, and the range reaches far beyond
  the body.
\<close>

lemma resolve_suffix_empty:
  "k \<noteq> 0 \<Longrightarrow> resolve \<lparr>range_start = None, range_end = Some k\<rparr> 0 = Inr (0, - 1)"
  by (simp add: resolve_def word_le_nat_alt unat_gt_0)

section \<open>Round trip\<close>

primrec show_opt :: "u64 option \<Rightarrow> string" where
  "show_opt None = []"
| "show_opt (Some n) = show_nat (unat n)"

definition show_range :: "range_spec \<Rightarrow> string" where
  "show_range r = show_opt (range_start r) @ ''-'' @ show_opt (range_end r)"

fun show_ranges :: "range_set \<Rightarrow> string" where
  "show_ranges [] = []"
| "show_ranges [r] = show_range r"
| "show_ranges (r # rs) = show_range r @ '','' @ show_ranges rs"

definition range_ok :: "range_spec \<Rightarrow> bool" where
  "range_ok r \<longleftrightarrow> range_start r \<noteq> None \<or> range_end r \<noteq> None"

lemma show_range_chars: "c \<in> set (show_range r) \<Longrightarrow> is_digit c \<or> c = CHR ''-''"
  by (cases "range_start r"; cases "range_end r") (auto simp: show_range_def dest: show_nat_chars)

lemma show_range_graphic: "show_range r \<noteq> [] \<and> list_all graphic (show_range r) \<and> CHR '','' \<notin> set (show_range r)"
proof -
  have "graphic c \<and> c \<noteq> CHR '',''" if "c \<in> set (show_range r)" for c
    using show_range_chars[OF that] is_digit_not[of c] by (auto simp: graphic_def)
  then show ?thesis by (auto simp: list_all_iff show_range_def)
qed

lemma trim_show_range: "trim (show_range r) = show_range r"
  using show_range_graphic[of r] by (intro trim_graphic) (auto simp: list_all_iff)

lemma parse_show_range: "range_ok r \<Longrightarrow> parse_range (show_range r) = Inr r"
proof -
  assume ok: "range_ok r"
  have nd: "CHR ''-'' \<notin> set (show_nat n)" for n using show_nat_chars is_digit_not by blast
  have sn: "strip_prefix ''-'' (show_nat n @ s) = None" for n s
    using nd[of n] show_nat_props[of n] by (cases "show_nat n") (auto simp: strip_prefix_def)
  show ?thesis
  proof (cases "range_start r")
    case None
    then obtain k where k: "range_end r = Some k" using ok by (auto simp: range_ok_def)
    with None show ?thesis by (simp add: parse_range_def show_range_def strip_prefix_def parse_u64_show)
  next
    case (Some a)
    have "split_once ''-'' (show_nat (unat a) @ CHR ''-'' # s) = Some (show_nat (unat a), s)" for s
      by (rule split_once_char[OF nd])
    with Some sn[of "unat a"] show_nat_props[of "unat _"] show ?thesis
      by (cases "range_end r") (auto simp: parse_range_def show_range_def parse_u64_show)
  qed
qed

text \<open>
  C20: The \<open>Range\<close> header written for any non-empty list of ranges parses back to this list.
\<close>

theorem range_set_round_trip:
  assumes "rs \<noteq> []" "list_all range_ok rs"
  shows "range_set_parse (''bytes='' @ show_ranges rs) = Inr rs"
proof -
  have sp: "split_char CHR '','' (show_ranges rs) = map show_range rs"
    using assms(1)
    by (induction rs rule: show_ranges.induct) (auto simp: split_char_none split_char_append show_range_graphic)
  have "parse_ranges (map show_range rs) = Inr rs"
    using assms(2) by (induction rs) (auto simp: trim_show_range parse_show_range show_range_graphic)
  moreover have "show_ranges rs \<noteq> [] \<and> graphic (last (show_ranges rs))"
    using assms(1)
  proof (induction rs rule: show_ranges.induct)
    case (2 r)
    then show ?case using show_range_graphic[of r] by (auto simp: list_all_iff)
  qed auto
  then have "trim (''bytes='' @ show_ranges rs) = ''bytes='' @ show_ranges rs"
    by (intro trim_graphic) (auto simp: graphic_def)
  ultimately show ?thesis using sp assms(1) by (simp add: range_set_parse_def strip_prefix_def)
qed

theorem range_set_round_trip_witness:
  "range_set_parse (''bytes='' @ show_ranges [\<lparr>range_start = Some 0, range_end = Some 99\<rparr>, \<lparr>range_start = None, range_end = Some 5\<rparr>])
     = Inr [\<lparr>range_start = Some 0, range_end = Some 99\<rparr>, \<lparr>range_start = None, range_end = Some 5\<rparr>]"
  by (rule range_set_round_trip) (simp_all add: range_ok_def)

end
