(* ===== verification/Cache_Streaming.thy ===== *)
theory Cache_Streaming
  imports Rust_Prelude
begin

text \<open>
  \<open>crates/rv-cache/src/streaming.rs\<close>: the body buffer of a fetch in progress, which one producer
  fills and any number of consumers read.  The first part models the operations of
  \<open>StreamingBody\<close> as functions on its state.  The second part is the interleaving of one producer
  with one consumer that runs \<open>wait_for_data\<close>: one step per critical section of the source, with
  \<open>Notify::notify_waiters\<close> waking exactly the tasks whose \<open>Notified\<close> future exists at that moment.
\<close>

section \<open>The buffer\<close>

record streaming_body =
  sb_chunks :: "u8 list list"
  sb_complete :: bool
  sb_total_size :: nat

definition sb_new :: streaming_body where
  "sb_new = \<lparr>sb_chunks = [], sb_complete = False, sb_total_size = 0\<rparr>"

definition sb_append :: "u8 list \<Rightarrow> streaming_body \<Rightarrow> streaming_body" where
  "sb_append data sb = sb\<lparr>sb_chunks := sb_chunks sb @ [data],
                           sb_total_size := sb_total_size sb + length data\<rparr>"

definition sb_mark_complete :: "streaming_body \<Rightarrow> streaming_body" where
  "sb_mark_complete sb = sb\<lparr>sb_complete := True\<rparr>"

definition sb_is_complete :: "streaming_body \<Rightarrow> bool" where
  "sb_is_complete sb = sb_complete sb"

text \<open>The loop of \<open>read_from\<close>: \<open>cur\<close> is \<open>current_offset\<close>, \<open>res\<close> the accumulated result.\<close>

fun read_chunks :: "nat \<Rightarrow> nat \<Rightarrow> u8 list \<Rightarrow> u8 list list \<Rightarrow> u8 list" where
  "read_chunks offset cur res [] = res"
| "read_chunks offset cur res (chunk # chunks) =
     (let chunk_end = cur + length chunk in
      if chunk_end \<le> offset then read_chunks offset chunk_end res chunks
      else let start_in_chunk = offset - cur in
           read_chunks offset chunk_end (res @ drop start_in_chunk chunk) chunks)"

definition read_from :: "nat \<Rightarrow> streaming_body \<Rightarrow> u8 list \<times> bool" where
  "read_from offset sb = (read_chunks offset 0 [] (sb_chunks sb), sb_is_complete sb)"

definition total_size :: "streaming_body \<Rightarrow> nat" where
  "total_size sb = sb_total_size sb"

text \<open>What the producer has delivered so far.\<close>

definition received :: "streaming_body \<Rightarrow> u8 list" where
  "received sb = concat (sb_chunks sb)"

lemma read_chunks_eq: "read_chunks offset cur res chunks = res @ drop (offset - cur) (concat chunks)"
proof (induction chunks arbitrary: cur res)
  case (Cons chunk chunks)
  show ?case
  proof (cases "cur + length chunk \<le> offset")
    case True
    then have "drop (offset - cur) (chunk @ concat chunks) = drop (offset - (cur + length chunk)) (concat chunks)"
      by (simp add: diff_diff_left)
    with True Cons.IH show ?thesis by simp
  next
    case False
    then have "offset - (cur + length chunk) = 0" "offset - cur - length chunk = 0" by auto
    with False Cons.IH show ?thesis by (simp add: Let_def)
  qed
qed simp

lemma read_from_eq: "read_from offset sb = (drop offset (received sb), sb_complete sb)"
  by (simp add: read_from_def read_chunks_eq received_def sb_is_complete_def)

lemma received_simps [simp]:
  "received sb_new = []"
  "received (sb_append data sb) = received sb @ data"
  "received (sb_mark_complete sb) = received sb"
  by (simp_all add: received_def sb_new_def sb_append_def sb_mark_complete_def)

lemma complete_simps [simp]:
  "\<not> sb_complete sb_new"
  "sb_complete (sb_append data sb) = sb_complete sb"
  "sb_complete (sb_mark_complete sb)"
  by (simp_all add: sb_new_def sb_append_def sb_mark_complete_def)

section \<open>A consumer that polls\<close>

text \<open>
  Clients of the buffer call \<open>read_from\<close> with the number of bytes they already have and send on
  what they get.  The state is the buffer and what the consumer has got.
\<close>

datatype stream_op = S_Append "u8 list" | S_Complete | S_Read

fun stream_exec :: "streaming_body \<times> u8 list \<Rightarrow> stream_op \<Rightarrow> (streaming_body \<times> u8 list) \<times> bool" where
  "stream_exec (sb, got) (S_Append data) = ((sb_append data sb, got), False)"
| "stream_exec (sb, got) S_Complete = ((sb_mark_complete sb, got), False)"
| "stream_exec (sb, got) S_Read =
     (let (data, complete) = read_from (length got) sb in ((sb, got @ data), complete))"

definition appended :: "stream_op list \<Rightarrow> u8 list" where
  "appended ops = concat (map (\<lambda>op. case op of S_Append data \<Rightarrow> data | _ \<Rightarrow> []) ops)"

lemma stream_exec_inv:
  assumes "prefix got (received sb)" "total_size sb = length (received sb)"
    and "stream_exec (sb, got) op = ((sb', got'), c)"
  shows "prefix got' (received sb')" "total_size sb' = length (received sb')"
    "received sb' = received sb @ appended [op]"
  using assms
  by (cases op; auto simp: appended_def read_from_eq prefix_def sb_append_def sb_mark_complete_def
      total_size_def received_def)+

lemma stream_run_inv:
  assumes "prefix got (received sb)" "total_size sb = length (received sb)"
    and "run stream_exec (sb, got) ops = ((sb', got'), cs)"
  shows "prefix got' (received sb') \<and> total_size sb' = length (received sb') \<and>
         received sb' = received sb @ appended ops"
  using assms
proof (induction ops arbitrary: sb got cs)
  case (Cons op ops)
  obtain sb1 got1 c where op: "stream_exec (sb, got) op = ((sb1, got1), c)"
    by (metis surj_pair)
  obtain cs' where rest: "run stream_exec (sb1, got1) ops = ((sb', got'), cs')"
    using Cons.prems(3) op by (auto split: prod.splits)
  note step = stream_exec_inv[OF Cons.prems(1,2) op]
  have "appended (op # ops) = appended [op] @ appended ops" by (simp add: appended_def)
  with Cons.IH[OF step(1,2) rest] step(3) show ?case by (metis append_assoc)
qed (simp add: appended_def)



section \<open>Waiting for data\<close>

text \<open>
  The producer runs \<open>append\<close> any number of times and then \<open>mark_complete\<close>: \<open>P_ready\<close> between calls,
  \<open>P_pushed n\<close> after the push of \<open>n\<close> bytes and before \<open>fetch_add\<close>, \<open>P_notify\<close> before
  \<open>notify_waiters\<close> of an append, \<open>P_marked\<close> after the store of \<open>complete\<close>, and \<open>P_done\<close> at the end.
  The consumer runs \<open>wait_for_data(offset)\<close>: \<open>W_check\<close> at the top of the loop, \<open>W_empty\<close> after a
  \<open>read_from\<close> that found nothing and before \<open>notified()\<close> creates the future, \<open>W_waiting\<close> when it
  awaits the future, and \<open>W_ret\<close> with the result.
\<close>

datatype producer_pc = P_ready | P_pushed nat | P_notify | P_marked | P_done

datatype waiter_pc = W_check | W_empty | W_waiting | W_ret "u8 list" bool

record stream_sys =
  sys_body :: streaming_body
  sys_producer :: producer_pc
  sys_offset :: nat
  sys_waiter :: waiter_pc

definition notify_waiters :: "waiter_pc \<Rightarrow> waiter_pc" where
  "notify_waiters w = (if w = W_waiting then W_check else w)"

definition stream_init :: "nat \<Rightarrow> stream_sys" where
  "stream_init offset = \<lparr>sys_body = sb_new, sys_producer = P_ready, sys_offset = offset, sys_waiter = W_check\<rparr>"

inductive stream_step :: "stream_sys \<Rightarrow> stream_sys \<Rightarrow> bool" where
  push: "sys_producer s = P_ready \<Longrightarrow>
    stream_step s (s\<lparr>sys_body := (sys_body s)\<lparr>sb_chunks := sb_chunks (sys_body s) @ [data]\<rparr>,
                     sys_producer := P_pushed (length data)\<rparr>)"
| add: "sys_producer s = P_pushed n \<Longrightarrow>
    stream_step s (s\<lparr>sys_body := (sys_body s)\<lparr>sb_total_size := sb_total_size (sys_body s) + n\<rparr>,
                     sys_producer := P_notify\<rparr>)"
| notify: "sys_producer s = P_notify \<Longrightarrow>
    stream_step s (s\<lparr>sys_producer := P_ready, sys_waiter := notify_waiters (sys_waiter s)\<rparr>)"
| mark: "sys_producer s = P_ready \<Longrightarrow>
    stream_step s (s\<lparr>sys_body := sb_mark_complete (sys_body s), sys_producer := P_marked\<rparr>)"
| mark_notify: "sys_producer s = P_marked \<Longrightarrow>
    stream_step s (s\<lparr>sys_producer := P_done, sys_waiter := notify_waiters (sys_waiter s)\<rparr>)"
| check: "sys_waiter s = W_check \<Longrightarrow> read_from (sys_offset s) (sys_body s) = (data, complete) \<Longrightarrow>
    stream_step s (s\<lparr>sys_waiter := if data \<noteq> [] \<or> complete then W_ret data complete else W_empty\<rparr>)"
| await: "sys_waiter s = W_empty \<Longrightarrow> stream_step s (s\<lparr>sys_waiter := W_waiting\<rparr>)"

inductive_cases stream_stepE: "stream_step s t"

text \<open>The states that the system can reach from \<open>s\<close>.\<close>

abbreviation stream_reach :: "stream_sys \<Rightarrow> stream_sys \<Rightarrow> bool" where
  "stream_reach \<equiv> stream_step\<^sup>*\<^sup>*"

text \<open>
  The body never shrinks and is final once it is marked; the bytes returned are those of the body at
  the moment of the read.
\<close>

definition stream_inv :: "stream_sys \<Rightarrow> bool" where
  "stream_inv s \<longleftrightarrow> (sb_complete (sys_body s) \<longleftrightarrow> sys_producer s \<in> {P_marked, P_done}) \<and>
     (\<forall>data c. sys_waiter s = W_ret data c \<longrightarrow>
        (data \<noteq> [] \<or> c) \<and> prefix data (drop (sys_offset s) (received (sys_body s))) \<and>
        (c \<longrightarrow> sb_complete (sys_body s) \<and> data = drop (sys_offset s) (received (sys_body s))))"

lemma drop_append_prefix: "prefix d (drop n xs) \<Longrightarrow> prefix d (drop n (xs @ ys))"
  by (auto simp: prefix_def)

lemma stream_inv_step:
  assumes "stream_step s t" "stream_inv s"
  shows "stream_inv t"
  using assms
  by (cases rule: stream_step.cases)
    (auto simp: stream_inv_def notify_waiters_def read_from_eq received_def sb_mark_complete_def
      drop_append_prefix split: if_splits)

lemma stream_inv_reach: "stream_reach s t \<Longrightarrow> stream_inv s \<Longrightarrow> stream_inv t"
  by (induction rule: rtranclp_induct) (auto intro: stream_inv_step)

lemma stream_inv_init: "stream_inv (stream_init offset)"
  by (simp add: stream_inv_def stream_init_def)

lemma stream_offset_reach: "stream_reach s t \<Longrightarrow> sys_offset t = sys_offset s"
  by (induction rule: rtranclp_induct) (auto elim: stream_stepE)

text \<open>
  C12: In every interleaving, \<open>wait_for_data(offset)\<close> only returns bytes that the producer appended
  from \<open>offset\<close> on, it never returns empty-handed while the body may still grow, and a result
  flagged complete is all that remains of the finished body.
\<close>

theorem wait_for_data_safe:
  assumes "stream_reach (stream_init offset) s" "sys_waiter s = W_ret data c"
  shows "prefix data (drop offset (received (sys_body s))) \<and> (data = [] \<longrightarrow> c) \<and>
         (c \<longrightarrow> sb_complete (sys_body s) \<and> data = drop offset (received (sys_body s)))"
proof -
  have off: "sys_offset s = offset"
    using stream_offset_reach[OF assms(1)] by (simp add: stream_init_def)
  have "(data \<noteq> [] \<or> c) \<and> prefix data (drop (sys_offset s) (received (sys_body s))) \<and>
      (c \<longrightarrow> sb_complete (sys_body s) \<and> data = drop (sys_offset s) (received (sys_body s)))"
    using stream_inv_reach[OF assms(1) stream_inv_init] assms(2) unfolding stream_inv_def by blast
  then show ?thesis unfolding off by blast
qed

theorem wait_for_data_safe_witness:
  "\<exists>s. stream_reach (stream_init 0) s \<and> sys_waiter s = W_ret [7] False \<and>
       prefix [7] (received (sys_body s))"
proof -
  let ?s1 = "(stream_init 0)\<lparr>sys_body := (sys_body (stream_init 0))\<lparr>sb_chunks := sb_chunks (sys_body (stream_init 0)) @ [[7]]\<rparr>,
                     sys_producer := P_pushed (length [7 :: u8])\<rparr>"
  let ?s2 = "?s1\<lparr>sys_waiter := W_ret [7] False\<rparr>"
  have "stream_step (stream_init 0) ?s1" by (rule push) (simp add: stream_init_def)
  moreover have "stream_step ?s1 ?s2"
    using check[of ?s1 "[7]" False] by (simp add: stream_init_def read_from_eq sb_new_def received_def)
  ultimately have reach: "stream_reach (stream_init 0) ?s2" by simp
  have "prefix [7] (received (sys_body ?s2))"
    using wait_for_data_safe[OF reach, of "[7]" False] by simp
  with reach show ?thesis by (intro exI[of _ ?s2]) simp
qed

text \<open>Whatever the interleaving, once the producer is done nothing wakes a waiting consumer.\<close>

lemma waiting_forever:
  assumes "stream_reach s t" "sys_producer s = P_done" "sys_waiter s = W_waiting"
  shows "sys_producer t = P_done \<and> sys_waiter t = W_waiting"
  using assms by (induction rule: rtranclp_induct) (auto elim: stream_stepE)

text \<open>The interleaving that loses the wake-up: the producer finishes between the check and the wait.\<close>

definition lost_state :: stream_sys where
  "lost_state = \<lparr>sys_body = sb_mark_complete sb_new, sys_producer = P_done, sys_offset = 0, sys_waiter = W_waiting\<rparr>"

lemma lost_state_reach: "stream_reach (stream_init 0) lost_state"
proof -
  let ?s1 = "(stream_init 0)\<lparr>sys_waiter := W_empty\<rparr>"
  let ?s2 = "?s1\<lparr>sys_body := sb_mark_complete (sys_body ?s1), sys_producer := P_marked\<rparr>"
  let ?s3 = "?s2\<lparr>sys_producer := P_done, sys_waiter := notify_waiters (sys_waiter ?s2)\<rparr>"
  have "stream_step (stream_init 0) ?s1"
    using check[of "stream_init 0" "[]" False] by (simp add: stream_init_def read_from_eq)
  moreover have "stream_step ?s1 ?s2"
    by (rule mark) (simp add: stream_init_def)
  moreover have "stream_step ?s2 ?s3"
    by (rule mark_notify) simp
  moreover have "stream_step ?s3 (?s3\<lparr>sys_waiter := W_waiting\<rparr>)"
    by (rule await) (simp add: notify_waiters_def)
  moreover have "?s3\<lparr>sys_waiter := W_waiting\<rparr> = lost_state"
    by (simp add: lost_state_def stream_init_def)
  ultimately show ?thesis by (metis (no_types) rtranclp.rtrancl_refl rtranclp.rtrancl_into_rtrancl)
qed

text \<open>
  \<open>wait_for_data\<close> can miss its last wake-up: the system reaches a state in which the body is
  complete, the producer has finished, and the consumer awaits a notification in every state that
  can still follow.
\<close>

theorem wait_for_data_lost_wakeup:
  "\<exists>s. stream_reach (stream_init 0) s \<and> sb_complete (sys_body s) \<and> sys_producer s = P_done \<and>
       Collect (stream_reach s) \<subseteq> {t. sys_waiter t = W_waiting}"
proof -
  have "Collect (stream_reach lost_state) \<subseteq> {t. sys_waiter t = W_waiting}"
    using waiting_forever[of lost_state] by (auto simp: lost_state_def)
  with lost_state_reach show ?thesis by (auto simp: lost_state_def)
qed

end
