(* ===== verification/Cache_Coalesce.thy ===== *)
theory Cache_Coalesce
  imports Digests Rust_F64
begin

text \<open>
  \<open>crates/rv-cache/src/coalesce.rs\<close>: the coalescing of concurrent requests for one digest.
  A broadcast channel is an identifier that is never reused; a \<open>send\<close> on it and the drop of its
  last sender are the events \<open>Sent\<close> and \<open>Closed\<close> of the trace.  The concurrent map is a map, and
  each of the two sections of \<open>check\<close> (the lookup under the shard lock, and the entry API) is one
  definition, so that requests may interleave between them.
\<close>

section \<open>State and operations\<close>

definition DEFAULT_COALESCE_TIMEOUT :: rat where
  "DEFAULT_COALESCE_TIMEOUT = 5"

definition DEFAULT_MAX_WAITERS :: nat where
  "DEFAULT_MAX_WAITERS = 1000"

datatype coalesce_result = Ready | Failed string

datatype coalesce_decision = Co_Fetch | Co_Wait nat

record coalesce_entry =
  ce_tx :: nat
  ce_waiter_count :: nat

record coalesce_manager =
  inflight :: "digest \<Rightarrow> coalesce_entry option"
  coalesce_timeout :: rat
  max_waiters :: nat
  coalesced_count :: u64
  timeout_count :: u64
  next_channel :: nat

definition co_with_config :: "rat \<Rightarrow> nat \<Rightarrow> coalesce_manager" where
  "co_with_config timeout waiters = \<lparr>inflight = Map.empty, coalesce_timeout = timeout,
     max_waiters = waiters, coalesced_count = 0, timeout_count = 0, next_channel = 0\<rparr>"

definition co_new :: coalesce_manager where
  "co_new = co_with_config DEFAULT_COALESCE_TIMEOUT DEFAULT_MAX_WAITERS"

text \<open>The branch that both sections share: the digest is in flight with entry \<open>e\<close>.\<close>

definition co_join :: "digest \<Rightarrow> coalesce_entry \<Rightarrow> coalesce_manager \<Rightarrow> coalesce_manager \<times> coalesce_decision" where
  "co_join d e m =
     (if ce_waiter_count e \<ge> max_waiters m then (m, Co_Fetch)
      else (m\<lparr>inflight := (inflight m)(d \<mapsto> e\<lparr>ce_waiter_count := ce_waiter_count e + 1\<rparr>),
              coalesced_count := coalesced_count m + 1\<rparr>, Co_Wait (ce_tx e)))"

definition check_fast :: "digest \<Rightarrow> coalesce_manager \<Rightarrow> (coalesce_manager \<times> coalesce_decision) option" where
  "check_fast d m = (case inflight m d of None \<Rightarrow> None | Some e \<Rightarrow> Some (co_join d e m))"

definition check_slow :: "digest \<Rightarrow> coalesce_manager \<Rightarrow> coalesce_manager \<times> coalesce_decision" where
  "check_slow d m =
     (case inflight m d of
        Some e \<Rightarrow> co_join d e m
      | None \<Rightarrow> (m\<lparr>inflight := (inflight m)(d \<mapsto> \<lparr>ce_tx = next_channel m, ce_waiter_count = 0\<rparr>),
                   next_channel := next_channel m + 1\<rparr>, Co_Fetch))"

definition co_check :: "digest \<Rightarrow> coalesce_manager \<Rightarrow> coalesce_manager \<times> coalesce_decision" where
  "co_check d m = (case check_fast d m of Some r \<Rightarrow> r | None \<Rightarrow> check_slow d m)"

definition co_complete :: "digest \<Rightarrow> coalesce_result \<Rightarrow> coalesce_manager \<Rightarrow> coalesce_manager \<times> (nat \<times> coalesce_result) option" where
  "co_complete d res m =
     (case inflight m d of
        Some e \<Rightarrow> (m\<lparr>inflight := (inflight m)(d := None)\<rparr>, Some (ce_tx e, res))
      | None \<Rightarrow> (m, None))"

text \<open>\<open>cancel\<close> drops the entry and with it the only sender: its channel, if any, is closed.\<close>

definition co_cancel :: "digest \<Rightarrow> coalesce_manager \<Rightarrow> coalesce_manager \<times> nat option" where
  "co_cancel d m = (m\<lparr>inflight := (inflight m)(d := None)\<rparr>, map_option ce_tx (inflight m d))"

definition inflight_count :: "coalesce_manager \<Rightarrow> nat" where
  "inflight_count m = card (dom (inflight m))"

definition record_timeout :: "coalesce_manager \<Rightarrow> coalesce_manager" where
  "record_timeout m = m\<lparr>timeout_count := timeout_count m + 1\<rparr>"

record coalesce_stats =
  st_coalesced :: u64
  st_timeouts :: u64
  st_inflight :: nat

definition co_stats :: "coalesce_manager \<Rightarrow> coalesce_stats" where
  "co_stats m = \<lparr>st_coalesced = coalesced_count m, st_timeouts = timeout_count m,
     st_inflight = inflight_count m\<rparr>"

section \<open>Traces\<close>

text \<open>
  A request runs the fast section and, when that finds nothing, the slow one; between the two any
  other operation may happen.  A trace records the decisions given and what happens to channels.
\<close>

datatype co_op = Co_Fast digest | Co_Slow digest | Co_Complete digest coalesce_result | Co_Cancel digest | Co_Timeout

datatype co_event = Decided digest coalesce_decision | Missed digest | Sent nat coalesce_result | Closed nat | Silent

fun co_exec :: "coalesce_manager \<Rightarrow> co_op \<Rightarrow> coalesce_manager \<times> co_event" where
  "co_exec m (Co_Fast d) = (case check_fast d m of None \<Rightarrow> (m, Missed d) | Some (m', dec) \<Rightarrow> (m', Decided d dec))"
| "co_exec m (Co_Slow d) = (case check_slow d m of (m', dec) \<Rightarrow> (m', Decided d dec))"
| "co_exec m (Co_Complete d res) = (case co_complete d res m of (m', None) \<Rightarrow> (m', Silent) | (m', Some (tx, r)) \<Rightarrow> (m', Sent tx r))"
| "co_exec m (Co_Cancel d) = (case co_cancel d m of (m', None) \<Rightarrow> (m', Silent) | (m', Some tx) \<Rightarrow> (m', Closed tx))"
| "co_exec m Co_Timeout = (record_timeout m, Silent)"

text \<open>The slow section alone decides as the whole \<open>check\<close> does, in every state.\<close>

lemma co_check_eq_slow: "co_check d m = check_slow d m"
  by (simp add: co_check_def check_fast_def check_slow_def split: option.splits)

lemmas co_defs = check_fast_def check_slow_def co_join_def co_complete_def co_cancel_def record_timeout_def

section \<open>One fetch per flight\<close>

definition decisions :: "digest \<Rightarrow> co_event list \<Rightarrow> coalesce_decision list" where
  "decisions d evs = [dec. Decided d' dec \<leftarrow> evs, d' = d]"

definition ends_flight :: "digest \<Rightarrow> co_op \<Rightarrow> bool" where
  "ends_flight d op \<longleftrightarrow> op = Co_Cancel d \<or> (\<exists>r. op = Co_Complete d r)"

lemma ends_flight_simps [simp]:
  "\<not> ends_flight d (Co_Fast d')" "\<not> ends_flight d (Co_Slow d')" "\<not> ends_flight d Co_Timeout"
  "ends_flight d (Co_Complete d' r) \<longleftrightarrow> d' = d" "ends_flight d (Co_Cancel d') \<longleftrightarrow> d' = d"
  by (auto simp: ends_flight_def)

lemma decisions_simps [simp]:
  "decisions d [] = []"
  "decisions d (Decided d' dec # evs) = (if d' = d then dec # decisions d evs else decisions d evs)"
  "decisions d (Missed d' # evs) = decisions d evs"
  "decisions d (Sent t r # evs) = decisions d evs"
  "decisions d (Closed t # evs) = decisions d evs"
  "decisions d (Silent # evs) = decisions d evs"
  by (simp_all add: decisions_def)

text \<open>The decisions of a flight whose entry has \<open>w\<close> waiters already.\<close>

definition flight_decisions :: "nat \<Rightarrow> nat \<Rightarrow> nat \<Rightarrow> nat \<Rightarrow> coalesce_decision list" where
  "flight_decisions tx limit w n = replicate (min n (limit - w)) (Co_Wait tx) @ replicate (n - (limit - w)) Co_Fetch"

lemma flight_decisions_Suc:
  "flight_decisions tx limit w (Suc n) =
     (if w < limit then Co_Wait tx # flight_decisions tx limit (Suc w) n else Co_Fetch # flight_decisions tx limit w n)"
proof (cases "w < limit")
  case True
  then obtain k where "limit - w = Suc k" "limit - Suc w = k" by (cases "limit - w") auto
  with True show ?thesis by (simp add: flight_decisions_def)
qed (simp add: flight_decisions_def)

lemma co_exec_in_flight:
  assumes "inflight m d = Some e" "\<not> ends_flight d op" "co_exec m op = (m', ev)"
  shows "\<exists>e'. inflight m' d = Some e' \<and> ce_tx e' = ce_tx e \<and> max_waiters m' = max_waiters m \<and>
     (decisions d [ev] = [] \<and> ce_waiter_count e' = ce_waiter_count e \<or>
      ce_waiter_count e < max_waiters m \<and> decisions d [ev] = [Co_Wait (ce_tx e)] \<and> ce_waiter_count e' = Suc (ce_waiter_count e) \<or>
      ce_waiter_count e \<ge> max_waiters m \<and> decisions d [ev] = [Co_Fetch] \<and> ce_waiter_count e' = ce_waiter_count e)"
  using assms by (cases op) (auto simp: co_defs split: option.splits if_splits prod.splits)

lemma decisions_Cons: "decisions d (ev # evs) = decisions d [ev] @ decisions d evs"
  by (cases ev) auto

lemma co_run_in_flight:
  assumes "inflight m d = Some e" "\<not> list_ex (ends_flight d) ops" "run co_exec m ops = (m', evs)"
  shows "decisions d evs = flight_decisions (ce_tx e) (max_waiters m) (ce_waiter_count e) (length (decisions d evs))"
  using assms
proof (induction ops arbitrary: m e evs)
  case Nil
  then show ?case by (simp add: flight_decisions_def)
next
  case (Cons op ops)
  obtain m1 ev where op: "co_exec m op = (m1, ev)" by force
  obtain evs' where rest: "run co_exec m1 ops = (m', evs')" and evs: "evs = ev # evs'"
    using Cons.prems(3) op by (auto split: prod.splits)
  from Cons.prems(2) have ne: "\<not> ends_flight d op" "\<not> list_ex (ends_flight d) ops" by auto
  from co_exec_in_flight[OF Cons.prems(1) ne(1) op] obtain e1 where e1: "inflight m1 d = Some e1"
    and step: "ce_tx e1 = ce_tx e" "max_waiters m1 = max_waiters m"
     "decisions d [ev] = [] \<and> ce_waiter_count e1 = ce_waiter_count e \<or>
      ce_waiter_count e < max_waiters m \<and> decisions d [ev] = [Co_Wait (ce_tx e)] \<and> ce_waiter_count e1 = Suc (ce_waiter_count e) \<or>
      ce_waiter_count e \<ge> max_waiters m \<and> decisions d [ev] = [Co_Fetch] \<and> ce_waiter_count e1 = ce_waiter_count e"
    by blast
  have IH: "decisions d evs' = flight_decisions (ce_tx e) (max_waiters m) (ce_waiter_count e1) (length (decisions d evs'))"
    using Cons.IH[OF e1 ne(2) rest] step by simp
  from step(3) show ?case
    unfolding evs decisions_Cons[of d ev evs']
    using IH by (elim disjE conjE) (auto simp: flight_decisions_Suc)
qed

text \<open>
  C13: While nothing ends the flight of a digest that was not in flight, whatever other requests do
  and however the sections of their checks interleave, the first decision for the digest is to
  fetch, the next \<open>max_waiters\<close> requests all wait on the channel of that fetch, and only requests
  beyond that limit fetch on their own.
\<close>

theorem coalesce_single_fetch:
  assumes "inflight m d = None" "run co_exec m ops = (m', evs)" "\<not> list_ex (ends_flight d) ops"
    and "decisions d evs = first # rest"
  shows "first = Co_Fetch \<and>
         (\<exists>tx. rest = flight_decisions tx (max_waiters m) 0 (length rest))"
  using assms
proof (induction ops arbitrary: m evs)
  case (Cons op ops)
  obtain m1 ev where op: "co_exec m op = (m1, ev)" by force
  obtain evs' where tl: "run co_exec m1 ops = (m', evs')" and evs: "evs = ev # evs'"
    using Cons.prems(2) op by (auto split: prod.splits)
  from Cons.prems(3) have ne: "\<not> ends_flight d op" "\<not> list_ex (ends_flight d) ops" by auto
  show ?case
  proof (cases "op = Co_Slow d")
    case True
    then have m1: "inflight m1 d = Some \<lparr>ce_tx = next_channel m, ce_waiter_count = 0\<rparr>"
      "max_waiters m1 = max_waiters m" and ev: "ev = Decided d Co_Fetch"
      using op Cons.prems(1) by (auto simp: check_slow_def)
    have fst: "first = Co_Fetch" and rst: "rest = decisions d evs'"
      using Cons.prems(4) evs ev by auto
    have "rest = flight_decisions (next_channel m) (max_waiters m) 0 (length rest)"
      using co_run_in_flight[OF m1(1) ne(2) tl] m1(2) rst by simp
    then show ?thesis using fst by blast
  next
    case False
    then have "inflight m1 d = None \<and> max_waiters m1 = max_waiters m \<and> decisions d [ev] = []"
      using op Cons.prems(1) ne(1)
      by (cases op) (auto simp: co_defs split: option.splits if_splits prod.splits)
    with Cons.IH[OF _ tl ne(2)] Cons.prems(4) show ?thesis
      by (simp add: evs decisions_Cons[of d ev evs'])
  qed
qed simp

theorem coalesce_single_fetch_witness:
  "\<exists>m' evs rest. run co_exec (co_with_config 5 2) (map (\<lambda>_. Co_Slow (make_digest 7)) [1, 2, 3, 4::nat]) = (m', evs) \<and>
     decisions (make_digest 7) evs = Co_Fetch # rest \<and> rest = [Co_Wait 0, Co_Wait 0, Co_Fetch] \<and>
     (\<exists>tx. rest = flight_decisions tx 2 0 3)"
proof -
  let ?ops = "map (\<lambda>_. Co_Slow (make_digest 7)) [1, 2, 3, 4::nat]" and ?m = "co_with_config 5 2"
  obtain m' evs where r: "run co_exec ?m ?ops = (m', evs)" by force
  then have d: "decisions (make_digest 7) evs = Co_Fetch # [Co_Wait 0, Co_Wait 0, Co_Fetch]"
    by (auto simp: check_slow_def co_join_def co_with_config_def split: prod.splits)
  have i: "inflight ?m (make_digest 7) = None" and ne: "\<not> list_ex (ends_flight (make_digest 7)) ?ops"
    by (simp_all add: co_with_config_def)
  have "\<exists>tx. [Co_Wait 0, Co_Wait 0, Co_Fetch] = flight_decisions tx 2 0 3"
    using coalesce_single_fetch[OF i r ne d] by (simp add: co_with_config_def eval_nat_numeral)
  with r d show ?thesis by blast
qed

section \<open>Every waiter is released\<close>

definition waits_on :: "nat \<Rightarrow> co_event list \<Rightarrow> nat" where
  "waits_on tx evs = length (filter (\<lambda>ev. \<exists>d. ev = Decided d (Co_Wait tx)) evs)"

definition ended :: "nat \<Rightarrow> co_event list \<Rightarrow> nat" where
  "ended tx evs = length (filter (\<lambda>ev. ev = Closed tx \<or> (\<exists>r. ev = Sent tx r)) evs)"

definition open_channels :: "coalesce_manager \<Rightarrow> nat set" where
  "open_channels m = ce_tx ` ran (inflight m)"

text \<open>
  Channels are fresh and belong to one digest; a channel is ended once it is no longer in flight and
  not before; the waiter count of an entry is the number of requests that wait on its channel.
\<close>

definition co_inv :: "coalesce_manager \<Rightarrow> co_event list \<Rightarrow> bool" where
  "co_inv m evs \<longleftrightarrow>
     (\<forall>d e. inflight m d = Some e \<longrightarrow> ce_tx e < next_channel m \<and>
         ce_waiter_count e = waits_on (ce_tx e) evs \<and> waits_on (ce_tx e) evs \<le> max_waiters m \<and> ended (ce_tx e) evs = 0) \<and>
     (\<forall>d d' e e'. inflight m d = Some e \<longrightarrow> inflight m d' = Some e' \<longrightarrow> ce_tx e = ce_tx e' \<longrightarrow> d = d') \<and>
     (\<forall>tx < next_channel m. tx \<notin> open_channels m \<longrightarrow> ended tx evs = 1) \<and>
     (\<forall>tx \<ge> next_channel m. waits_on tx evs = 0 \<and> ended tx evs = 0) \<and>
     coalesced_count m = of_nat (length (filter (\<lambda>ev. \<exists>d tx. ev = Decided d (Co_Wait tx)) evs))"


lemma trace_counts [simp]:
  "waits_on tx [] = 0" "ended tx [] = 0"
  "waits_on tx (evs @ [ev]) = waits_on tx evs + (if \<exists>d. ev = Decided d (Co_Wait tx) then 1 else 0)"
  "ended tx (evs @ [ev]) = ended tx evs + (if ev = Closed tx \<or> (\<exists>r. ev = Sent tx r) then 1 else 0)"
  by (simp_all add: waits_on_def ended_def)

lemma co_inv_new: "co_inv (co_with_config t w) []"
  by (simp add: co_inv_def co_with_config_def)

lemma open_iff: "tx \<in> open_channels m \<longleftrightarrow> (\<exists>d e. inflight m d = Some e \<and> ce_tx e = tx)"
  by (auto simp: open_channels_def ran_def)

lemma open_channels_cong: "inflight m' = inflight m \<Longrightarrow> open_channels m' = open_channels m"
  by (simp add: open_channels_def)

lemma co_inv_quiet:
  assumes "co_inv m evs" "inflight m' = inflight m" "next_channel m' = next_channel m"
    "max_waiters m' = max_waiters m" "coalesced_count m' = coalesced_count m"
    and "ev = Silent \<or> ev = Decided d Co_Fetch \<or> ev = Missed d"
  shows "co_inv m' (evs @ [ev])"
  using assms unfolding co_inv_def by (auto simp: open_channels_cong[OF assms(2)])

lemma ran_upd_image:
  assumes "m k = Some v" "f v' = f v"
  shows "f ` ran (m(k \<mapsto> v')) = f ` ran m"
proof -
  have "f x \<in> f ` ran m" if "x \<in> ran (m(k \<mapsto> v'))" for x
    using that assms by (auto simp: ran_def split: if_splits)
  moreover have "f x \<in> f ` ran (m(k \<mapsto> v'))" if x: "x \<in> ran m" for x
  proof -
    from x obtain k' where k': "m k' = Some x" by (auto simp: ran_def)
    have "f x = f v' \<or> x \<in> ran (m(k \<mapsto> v'))"
      using k' assms by (cases "k' = k") (auto simp: ran_def)
    moreover have "v' \<in> ran (m(k \<mapsto> v'))" by (auto simp: ran_def)
    ultimately show ?thesis by auto
  qed
  ultimately show ?thesis by blast
qed

lemma co_inv_join:
  assumes inv: "co_inv m evs" and e: "inflight m d = Some e" and j: "co_join d e m = (m', dec)"
  shows "co_inv m' (evs @ [Decided d dec])"
proof (cases "ce_waiter_count e \<ge> max_waiters m")
  case True
  with j show ?thesis by (auto simp: co_join_def intro: co_inv_quiet[OF inv])
next
  case False
  let ?e = "e\<lparr>ce_waiter_count := ce_waiter_count e + 1\<rparr>"
  from False j have m': "m' = m\<lparr>inflight := (inflight m)(d \<mapsto> ?e), coalesced_count := coalesced_count m + 1\<rparr>"
    and dec: "dec = Co_Wait (ce_tx e)"
    by (auto simp: co_join_def)
  have op: "open_channels m' = open_channels m"
    by (simp add: open_channels_def m' ran_upd_image[of "inflight m", OF e])
  show ?thesis
    using inv e False unfolding co_inv_def op dec by (auto simp: m') (metis linorder_not_le)
qed

lemma co_inv_vacant:
  assumes inv: "co_inv m evs" and e: "inflight m d = None" and c: "check_slow d m = (m', dec)"
  shows "co_inv m' (evs @ [Decided d dec])"
proof -
  from e c have m': "m' = m\<lparr>inflight := (inflight m)(d \<mapsto> \<lparr>ce_tx = next_channel m, ce_waiter_count = 0\<rparr>),
                   next_channel := next_channel m + 1\<rparr>" and dec: "dec = Co_Fetch"
    by (auto simp: check_slow_def)
  have op: "open_channels m' = insert (next_channel m) (open_channels m)"
    using e by (simp add: open_channels_def m')
  show ?thesis
    using inv unfolding co_inv_def op dec by (auto simp: m' less_Suc_eq) (metis less_irrefl)+
qed

lemma co_inv_end:
  assumes inv: "co_inv m evs" and e: "inflight m d = Some e"
    and m': "m' = m\<lparr>inflight := (inflight m)(d := None)\<rparr>"
    and ev: "ev = Closed (ce_tx e) \<or> ev = Sent (ce_tx e) r"
  shows "co_inv m' (evs @ [ev])"
proof -
  have uniq: "\<And>d' e'. inflight m d' = Some e' \<Longrightarrow> ce_tx e' = ce_tx e \<Longrightarrow> d' = d"
    using inv e unfolding co_inv_def by blast
  have op: "open_channels m' = open_channels m - {ce_tx e}"
  proof (rule set_eqI)
    fix tx
    have "(\<exists>d' e'. d' \<noteq> d \<and> inflight m d' = Some e' \<and> ce_tx e' = tx) \<longleftrightarrow>
        (\<exists>d' e'. inflight m d' = Some e' \<and> ce_tx e' = tx) \<and> tx \<noteq> ce_tx e"
      using e uniq by (metis option.inject)
    moreover have "tx \<in> open_channels m' \<longleftrightarrow> (\<exists>d' e'. d' \<noteq> d \<and> inflight m d' = Some e' \<and> ce_tx e' = tx)"
      unfolding open_iff by (simp add: m') (metis option.distinct(1))
    ultimately show "tx \<in> open_channels m' \<longleftrightarrow> tx \<in> open_channels m - {ce_tx e}"
      by (simp add: open_iff)
  qed
  have tx: "ce_tx e < next_channel m" "ended (ce_tx e) evs = 0"
    using inv e unfolding co_inv_def by auto
  show ?thesis
    using inv ev tx uniq unfolding co_inv_def op by (auto simp: m')
qed

lemma co_inv_step:
  assumes inv: "co_inv m evs" and op: "co_exec m op = (m', ev)"
  shows "co_inv m' (evs @ [ev])"
proof (cases op)
  case (Co_Fast d)
  with op show ?thesis
    by (auto simp: check_fast_def split: option.splits prod.splits
        intro: co_inv_quiet[OF inv] co_inv_join[OF inv])
next
  case (Co_Slow d)
  with op show ?thesis
    by (cases "inflight m d")
      (auto split: prod.splits intro: co_inv_vacant[OF inv] co_inv_join[OF inv] simp: check_slow_def)
next
  case (Co_Complete d res)
  with op show ?thesis
    by (auto simp: co_complete_def split: option.splits
        intro: co_inv_quiet[OF inv] co_inv_end[OF inv])
next
  case (Co_Cancel d)
  with op show ?thesis
    by (cases "inflight m d")
      (auto simp: co_cancel_def fun_upd_idem intro: co_inv_quiet[OF inv] co_inv_end[OF inv])
next
  case Co_Timeout
  with op show ?thesis by (auto simp: record_timeout_def intro: co_inv_quiet[OF inv])
qed

lemma co_inv_run:
  "co_inv m evs \<Longrightarrow> run co_exec m ops = (m', evs') \<Longrightarrow> co_inv m' (evs @ evs')"
proof (induction ops arbitrary: m evs evs')
  case (Cons op ops)
  obtain m1 ev where op: "co_exec m op = (m1, ev)" by force
  obtain evs1 where tl: "run co_exec m1 ops = (m', evs1)" "evs' = ev # evs1"
    using Cons.prems(2) op by (auto split: prod.splits)
  show ?case using Cons.IH[OF co_inv_step[OF Cons.prems(1) op] tl(1)] tl(2) by simp
qed simp

lemma run_max_waiters: "run co_exec m ops = (m', evs) \<Longrightarrow> max_waiters m' = max_waiters m"
proof (induction ops arbitrary: m evs)
  case (Cons op ops)
  have "max_waiters (fst (co_exec m op)) = max_waiters m"
    by (cases op) (auto simp: co_defs split: option.splits prod.splits)
  with Cons show ?case by (auto split: prod.splits)
qed simp

text \<open>
  C14: In every interleaving from a fresh manager, a request that was told to wait on a channel is
  released exactly once: its channel has been sent one result or closed once if its flight is over,
  and not yet if the flight is still there, in which case the entry counts exactly its waiters and
  these are at most \<open>max_waiters\<close>.
\<close>

theorem coalesce_releases_waiters:
  assumes "run co_exec (co_with_config t w) ops = (m, evs)" "Decided d (Co_Wait tx) \<in> set evs"
  shows "if tx \<in> open_channels m
         then ended tx evs = 0 \<and> waits_on tx evs \<le> w \<and>
              (\<exists>d' e. inflight m d' = Some e \<and> ce_tx e = tx \<and> ce_waiter_count e = waits_on tx evs)
         else ended tx evs = 1"
proof -
  have inv: "co_inv m evs" using co_inv_run[OF co_inv_new assms(1)] by simp
  have w: "max_waiters m = w" using run_max_waiters[OF assms(1)] by (simp add: co_with_config_def)
  have "waits_on tx evs \<noteq> 0" using assms(2) by (auto simp: waits_on_def filter_empty_conv)
  with inv have "tx < next_channel m" unfolding co_inv_def by (meson linorder_not_le)
  with inv w show ?thesis unfolding co_inv_def open_channels_def ran_def by (auto split: if_splits)
qed

theorem coalesce_releases_waiters_witness:
  "\<exists>m evs. run co_exec (co_with_config 5 2)
     [Co_Fast (make_digest 7), Co_Slow (make_digest 7), Co_Fast (make_digest 7), Co_Complete (make_digest 7) Ready] = (m, evs) \<and>
     Decided (make_digest 7) (Co_Wait 0) \<in> set evs \<and> 0 \<notin> open_channels m \<and> ended 0 evs = 1"
proof -
  let ?ops = "[Co_Fast (make_digest 7), Co_Slow (make_digest 7), Co_Fast (make_digest 7), Co_Complete (make_digest 7) Ready]"
  obtain m evs where r: "run co_exec (co_with_config 5 2) ?ops = (m, evs)" by force
  then have d: "Decided (make_digest 7) (Co_Wait 0) \<in> set evs" and o: "0 \<notin> open_channels m"
    by (auto simp: check_fast_def check_slow_def co_join_def co_complete_def co_with_config_def open_channels_def
        split: prod.splits)
  from coalesce_releases_waiters[OF r d] o r d show ?thesis by auto
qed

end
