(* ===== verification/Obj_Core.thy ===== *)
theory Obj_Core
  imports Digests Rv_Types Rv_Flags
begin

text \<open>
  \<open>crates/rv-storage/src/objcore.rs\<close>: the metadata, body and attributes of a cached object.  The
  mutex-protected inner state and the atomics are fields of one record, since every operation of
  the source touches one of them once.  An \<open>Arc<ObjCore>\<close> is a reference; the theories of the clients
  say which.
\<close>

section \<open>State\<close>

record objcore =
  refcnt :: u32
  oc_digest :: digest
  oc_flag_bits :: u8
  exp_flag_bits :: u8
  t_origin :: vtim_real
  ttl :: vtim_dur
  grace :: vtim_dur
  keep :: vtim_dur
  hits :: u64
  timer_when :: vtim_real
  last_lru :: vtim_real
  timer_idx :: u32
  vary_bytes :: "u8 list option"
  inner_body :: "u8 list"
  inner_attrs :: "obj_attr \<Rightarrow> u8 list option"
  inner_flags :: obj_flags

definition objcore_new :: "digest \<Rightarrow> objcore" where
  "objcore_new d = \<lparr>refcnt = 1, oc_digest = d, oc_flag_bits = 0, exp_flag_bits = 0,
     t_origin = Num 0, ttl = Num 0, grace = Num 0, keep = Num 0, hits = 0, timer_when = Num 0,
     last_lru = Num 0, timer_idx = 0, vary_bytes = None, inner_body = [], inner_attrs = Map.empty,
     inner_flags = ObjFlags 0\<rparr>"

section \<open>Flags and times\<close>

definition oc_flags :: "objcore \<Rightarrow> obj_core_flags" where
  "oc_flags oc = ObjCoreFlags (oc_flag_bits oc)"

definition set_oc_flag :: "obj_core_flags \<Rightarrow> objcore \<Rightarrow> objcore" where
  "set_oc_flag f oc = oc\<lparr>oc_flag_bits := oc_flag_bits oc OR oc_bits f\<rparr>"

definition clear_oc_flag :: "obj_core_flags \<Rightarrow> objcore \<Rightarrow> objcore" where
  "clear_oc_flag f oc = oc\<lparr>oc_flag_bits := oc_flag_bits oc AND NOT (oc_bits f)\<rparr>"

definition oe_flags :: "objcore \<Rightarrow> obj_exp_flags" where
  "oe_flags oc = ObjExpFlags (exp_flag_bits oc)"

definition set_oe_flag :: "obj_exp_flags \<Rightarrow> objcore \<Rightarrow> objcore" where
  "set_oe_flag f oc = oc\<lparr>exp_flag_bits := exp_flag_bits oc OR oe_bits f\<rparr>"

definition clear_oe_flag :: "obj_exp_flags \<Rightarrow> objcore \<Rightarrow> objcore" where
  "clear_oe_flag f oc = oc\<lparr>exp_flag_bits := exp_flag_bits oc AND NOT (oe_bits f)\<rparr>"

definition get_obj_flags :: "objcore \<Rightarrow> obj_flags" where
  "get_obj_flags oc = inner_flags oc"

definition set_obj_flags :: "obj_flags \<Rightarrow> objcore \<Rightarrow> objcore" where
  "set_obj_flags f oc = oc\<lparr>inner_flags := f\<rparr>"

definition is_busy :: "objcore \<Rightarrow> bool" where
  "is_busy oc = oc_contains (oc_flags oc) OC_BUSY"

definition is_expired :: "objcore \<Rightarrow> vtim_real \<Rightarrow> bool" where
  "is_expired oc now = (let deadline = real_add (t_origin oc) (ttl oc) in f_gt now deadline)"

definition remaining_ttl :: "objcore \<Rightarrow> vtim_real \<Rightarrow> vtim_dur" where
  "remaining_ttl oc now =
     (let deadline = real_add (t_origin oc) (ttl oc); remaining = f_sub deadline now in
      if f_gt remaining (Num 0) then remaining else Num 0)"

definition remaining_grace :: "objcore \<Rightarrow> vtim_real \<Rightarrow> vtim_dur" where
  "remaining_grace oc now =
     (let deadline = real_add (real_add (t_origin oc) (ttl oc)) (grace oc); remaining = f_sub deadline now in
      if f_gt remaining (Num 0) then remaining else Num 0)"

section \<open>References, body and attributes\<close>

definition objcore_ref_count :: "objcore \<Rightarrow> int" where
  "objcore_ref_count oc = sint (refcnt oc)"

definition objcore_inc_ref :: "objcore \<Rightarrow> objcore" where
  "objcore_inc_ref oc = oc\<lparr>refcnt := refcnt oc + 1\<rparr>"

definition objcore_dec_ref :: "objcore \<Rightarrow> objcore \<times> int" where
  "objcore_dec_ref oc = (oc\<lparr>refcnt := refcnt oc - 1\<rparr>, sint (refcnt oc - 1))"

definition store_body :: "u8 list \<Rightarrow> objcore \<Rightarrow> objcore" where
  "store_body data oc = oc\<lparr>inner_body := data\<rparr>"

definition append_body :: "u8 list \<Rightarrow> objcore \<Rightarrow> objcore" where
  "append_body data oc = oc\<lparr>inner_body := inner_body oc @ data\<rparr>"

definition get_body :: "objcore \<Rightarrow> u8 list option" where
  "get_body oc = (if inner_body oc = [] then None else Some (inner_body oc))"

definition body_len :: "objcore \<Rightarrow> nat" where
  "body_len oc = length (inner_body oc)"

definition clear_body :: "objcore \<Rightarrow> objcore" where
  "clear_body oc = oc\<lparr>inner_body := []\<rparr>"

definition set_attr :: "obj_attr \<Rightarrow> u8 list \<Rightarrow> objcore \<Rightarrow> objcore" where
  "set_attr a data oc = oc\<lparr>inner_attrs := (inner_attrs oc)(a \<mapsto> data)\<rparr>"

definition get_attr :: "obj_attr \<Rightarrow> objcore \<Rightarrow> u8 list option" where
  "get_attr a oc = inner_attrs oc a"

definition remove_attr :: "obj_attr \<Rightarrow> objcore \<Rightarrow> objcore \<times> u8 list option" where
  "remove_attr a oc = (oc\<lparr>inner_attrs := (inner_attrs oc)(a := None)\<rparr>, inner_attrs oc a)"

definition set_vary :: "u8 list \<Rightarrow> objcore \<Rightarrow> objcore" where
  "set_vary data oc = oc\<lparr>vary_bytes := Some data\<rparr>"

definition get_vary :: "objcore \<Rightarrow> u8 list option" where
  "get_vary oc = vary_bytes oc"

section \<open>Laws\<close>

text \<open>The flag operations are those of the flag types, so that the lemmas of \<open>bit_flags\<close> apply.\<close>

lemma oc_flags_ops [simp]:
  "oc_flags (set_oc_flag f oc) = oc_insert (oc_flags oc) f"
  "oc_flags (clear_oc_flag f oc) = oc_remove (oc_flags oc) f"
  by (simp_all add: oc_flags_def set_oc_flag_def clear_oc_flag_def oc_insert_def oc_remove_def)

lemma oe_flags_ops [simp]:
  "oe_flags (set_oe_flag f oc) = oe_insert (oe_flags oc) f"
  "oe_flags (clear_oe_flag f oc) = oe_remove (oe_flags oc) f"
  by (simp_all add: oe_flags_def set_oe_flag_def clear_oe_flag_def oe_insert_def oe_remove_def)

lemma times_set_flag [simp]:
  "is_expired (set_oc_flag f oc) now = is_expired oc now"
  "is_expired (clear_oc_flag f oc) now = is_expired oc now"
  "remaining_grace (set_oc_flag f oc) now = remaining_grace oc now"
  "remaining_grace (clear_oc_flag f oc) now = remaining_grace oc now"
  by (simp_all add: is_expired_def remaining_grace_def set_oc_flag_def clear_oc_flag_def)

lemma oc_bits_simps [simp]:
  "oc_bits OC_BUSY = 2" "oc_bits OC_HFP = 8" "oc_bits OC_FAILED = 64" "oc_bits OC_DYING = 128"
  "oc_bits OC_WITHDRAWN = 1" "oc_bits OC_HFM = 4" "oc_bits OC_PRIVATE = 32" "oc_bits OC_CANCEL = 16"
  by (simp_all add: OC_BUSY_def OC_HFP_def OC_FAILED_def OC_DYING_def OC_WITHDRAWN_def OC_HFM_def
      OC_PRIVATE_def OC_CANCEL_def)

lemma body_laws [simp]:
  "get_body (store_body data oc) = (if data = [] then None else Some data)"
  "inner_body (append_body data oc) = inner_body oc @ data"
  "get_body (clear_body oc) = None"
  "body_len (append_body data oc) = body_len oc + length data"
  by (simp_all add: get_body_def store_body_def append_body_def clear_body_def body_len_def)

lemma attr_laws [simp]:
  "get_attr a (set_attr b data oc) = (if a = b then Some data else get_attr a oc)"
  "get_attr a (fst (remove_attr b oc)) = (if a = b then None else get_attr a oc)"
  "snd (remove_attr a oc) = get_attr a oc"
  by (simp_all add: get_attr_def set_attr_def remove_attr_def)

lemma remaining_ttl_expired:
  assumes "is_num (t_origin oc)" "is_num (ttl oc)" "is_num now"
  shows "is_expired oc now \<Longrightarrow> remaining_ttl oc now = Num 0"
  using assms by (auto simp: is_expired_def remaining_ttl_def is_num_def real_add_def)

end
