(* ===== verification/Cache_Lookup.thy ===== *)
theory Cache_Lookup
  imports Obj_Core
begin

text \<open>
  \<open>crates/rv-cache/src/lookup.rs\<close>: the evaluation of a cached object at a point in time.  The
  reference \<open>r\<close> stands for the \<open>Arc\<close> of the object that the result carries.
\<close>

datatype 'r cache_lookup_result = CL_Hit 'r | CL_Miss | CL_Grace 'r | CL_HitForPass | CL_Busy

definition evaluate_object :: "'r \<Rightarrow> objcore \<Rightarrow> vtim_real \<Rightarrow> 'r cache_lookup_result" where
  "evaluate_object r oc now =
     (let flags = oc_flags oc in
      if oc_contains flags OC_BUSY then CL_Busy
      else if oc_contains flags OC_HFP then CL_HitForPass
      else if oc_contains flags OC_DYING \<or> oc_contains flags OC_WITHDRAWN then CL_Miss
      else if \<not> is_expired oc now then CL_Hit r
      else let grace_remaining = remaining_grace oc now in
           if dur_is_positive grace_remaining then CL_Grace r
           else CL_Miss)"

section \<open>The life of an object\<close>

text \<open>The object is served by this lookup: it is neither being fetched nor marked.\<close>

definition servable :: "objcore \<Rightarrow> bool" where
  "servable oc \<longleftrightarrow> (let flags = oc_flags oc in \<not> oc_contains flags OC_BUSY \<and> \<not> oc_contains flags OC_HFP \<and>
     \<not> oc_contains flags OC_DYING \<and> \<not> oc_contains flags OC_WITHDRAWN)"

lemma evaluate_servable:
  "servable oc \<Longrightarrow> evaluate_object r oc now =
     (if \<not> is_expired oc now then CL_Hit r
      else if dur_is_positive (remaining_grace oc now) then CL_Grace r else CL_Miss)"
  by (simp add: servable_def evaluate_object_def Let_def)

lemma evaluate_not_servable:
  "\<not> servable oc \<Longrightarrow> evaluate_object r oc now \<in> {CL_Busy, CL_HitForPass, CL_Miss}"
  by (auto simp: servable_def evaluate_object_def Let_def)

lemma evaluate_cases:
  assumes "evaluate_object r oc now \<in> {CL_Hit r', CL_Grace r'}"
  shows "servable oc" "r' = r"
  using assms by (auto simp: evaluate_object_def servable_def Let_def split: if_splits)



section \<open>Boundary cases\<close>

text \<open>A time to live that is not a number never expires: the comparison with \<open>now\<close> is false.\<close>

lemma nan_ttl_always_hit:
  "servable oc \<Longrightarrow> ttl oc = NaN \<Longrightarrow> evaluate_object r oc now = CL_Hit r"
  by (simp add: evaluate_servable is_expired_def real_add_def)

end
