(* ===== verification/Binary_Heap.thy ===== *)
theory Binary_Heap
  imports Rust_Prelude
begin

text \<open>
  \<open>std::collections::BinaryHeap\<close>, which the expiry queue uses: a max-heap in a vector, with the
  algorithms of the standard library (\<open>push\<close> sifts the new element up; \<open>pop\<close> moves the last
  element to the root, sifts the hole down to the bottom and the element up again).  The order is a
  parameter \<open>le\<close>, as the \<open>Ord\<close> instance of the element type is in Rust.  The contract that the
  client relies on holds on elements on which \<open>le\<close> is a total preorder, the locale \<open>heap_order\<close>.
\<close>

section \<open>The algorithms\<close>

definition swap :: "nat \<Rightarrow> nat \<Rightarrow> 'a list \<Rightarrow> 'a list" where
  "swap i j xs = xs[i := xs ! j, j := xs ! i]"

definition parent :: "nat \<Rightarrow> nat" where
  "parent i = (i - 1) div 2"

lemma parent_less [termination_simp]: "0 < i \<Longrightarrow> parent i < i"
  by (auto simp: parent_def)

lemma parent_less_length: "i < n \<Longrightarrow> parent i < n"
  by (auto simp: parent_def)

lemma parent_iff: "0 < c \<Longrightarrow> parent c = p \<longleftrightarrow> c = 2 * p + 1 \<or> c = 2 * p + 2"
  by (auto simp: parent_def)

fun sift_up :: "('a \<Rightarrow> 'a \<Rightarrow> bool) \<Rightarrow> nat \<Rightarrow> 'a list \<Rightarrow> 'a list" where
  "sift_up le pos xs =
     (if pos = 0 then xs
      else if le (xs ! pos) (xs ! parent pos) then xs
      else sift_up le (parent pos) (swap pos (parent pos) xs))"

declare sift_up.simps [simp del]

lemma length_swap [simp]: "length (swap i j xs) = length xs"
  by (simp add: swap_def)

text \<open>The loop of \<open>sift_down_to_bottom\<close>: the vector with the hole at the bottom, and its position.\<close>

function sift_down :: "('a \<Rightarrow> 'a \<Rightarrow> bool) \<Rightarrow> nat \<Rightarrow> 'a list \<Rightarrow> 'a list \<times> nat" where
  "sift_down le pos xs =
     (let child = 2 * pos + 1 in
      if child + 1 < length xs then
        let c = (if le (xs ! child) (xs ! (child + 1)) then child + 1 else child) in
        sift_down le c (swap pos c xs)
      else if child + 1 = length xs then (swap pos child xs, child)
      else (xs, pos))"
  by auto
termination by (relation "measure (\<lambda>(le, pos, xs). length xs - pos)") (auto split: if_splits)

declare sift_down.simps [simp del]

definition heap_push :: "('a \<Rightarrow> 'a \<Rightarrow> bool) \<Rightarrow> 'a \<Rightarrow> 'a list \<Rightarrow> 'a list" where
  "heap_push le x xs = sift_up le (length xs) (xs @ [x])"

definition heap_pop :: "('a \<Rightarrow> 'a \<Rightarrow> bool) \<Rightarrow> 'a list \<Rightarrow> ('a \<times> 'a list) option" where
  "heap_pop le xs =
     (if xs = [] then None
      else let item = last xs; rest = butlast xs in
           if rest = [] then Some (item, [])
           else case sift_down le 0 (rest[0 := item]) of (ys, pos) \<Rightarrow> Some (rest ! 0, sift_up le pos ys))"

definition heap_peek :: "'a list \<Rightarrow> 'a option" where
  "heap_peek xs = (if xs = [] then None else Some (xs ! 0))"

section \<open>Contents\<close>

lemma nth_swap: "i < length xs \<Longrightarrow> j < length xs \<Longrightarrow> k < length xs \<Longrightarrow>
    swap i j xs ! k = (if k = i then xs ! j else if k = j then xs ! i else xs ! k)"
  by (auto simp: swap_def nth_list_update)

lemma mset_swap_eq [simp]: "i < length xs \<Longrightarrow> j < length xs \<Longrightarrow> mset (swap i j xs) = mset xs"
  by (simp add: swap_def mset_swap)

lemma sift_up_mset: "pos < length xs \<Longrightarrow> mset (sift_up le pos xs) = mset xs"
proof (induction le pos xs rule: sift_up.induct)
  case (1 le pos xs)
  then show ?case by (subst sift_up.simps) (auto simp: parent_less_length)
qed

lemma length_sift_up: "pos < length xs \<Longrightarrow> length (sift_up le pos xs) = length xs"
  using sift_up_mset[of pos xs le] by (metis size_mset)

lemma sift_down_mset:
  "pos < length xs \<Longrightarrow> sift_down le pos xs = (ys, p) \<Longrightarrow> mset ys = mset xs \<and> p < length ys"
proof (induction le pos xs rule: sift_down.induct)
  case (1 le pos xs)
  show ?case
    using 1 by (simp add: sift_down.simps[of le pos xs] Let_def split: if_splits) auto
qed

lemma heap_push_mset: "mset (heap_push le x xs) = add_mset x (mset xs)"
  by (simp add: heap_push_def sift_up_mset)

lemma heap_pop_None: "heap_pop le xs = None \<longleftrightarrow> xs = []"
  by (simp add: heap_pop_def Let_def split: prod.splits)

lemma heap_pop_mset:
  assumes "heap_pop le xs = Some (t, ys)"
  shows "heap_peek xs = Some t \<and> mset xs = add_mset t (mset ys)"
proof -
  have ne: "xs \<noteq> []" using assms by (auto simp: heap_pop_def)
  show ?thesis
  proof (cases "butlast xs = []")
    case True
    then have "xs = [last xs]" using ne by (metis append_butlast_last_id append_Nil)
    with assms True show ?thesis by (auto simp: heap_pop_def heap_peek_def Let_def)
  next
    case False
    then obtain y rest where b: "butlast xs = y # rest" by (cases "butlast xs") auto
    obtain zs p where sd: "sift_down le 0 (last xs # rest) = (zs, p)" by force
    have "mset zs = mset (last xs # rest) \<and> p < length zs"
      by (rule sift_down_mset[OF _ sd]) simp
    then have "mset (sift_up le p zs) = mset (last xs # rest)" by (simp add: sift_up_mset)
    moreover have "xs = y # rest @ [last xs]" using b ne by (metis append_butlast_last_id append_Cons)
    then have "mset xs = mset (y # rest @ [last xs])" "xs ! 0 = y"
      by (metis, metis nth_Cons_0)
    then have "mset xs = add_mset y (mset (last xs # rest))" "xs ! 0 = y" by simp_all
    ultimately show ?thesis
      using assms b ne sd by (auto simp: heap_pop_def heap_peek_def Let_def)
  qed
qed

lemma heap_pop_length:
  assumes "heap_pop le xs = Some (t, ys)"
  shows "length ys < length xs"
  using heap_pop_mset[OF assms] by (metis size_mset size_add_mset lessI)

section \<open>Order\<close>

locale heap_order =
  fixes le :: "'a \<Rightarrow> 'a \<Rightarrow> bool" and ok :: "'a \<Rightarrow> bool"
  assumes le_trans: "ok x \<Longrightarrow> ok y \<Longrightarrow> ok z \<Longrightarrow> le x y \<Longrightarrow> le y z \<Longrightarrow> le x z"
    and le_total: "ok x \<Longrightarrow> ok y \<Longrightarrow> le x y \<or> le y x"
begin

definition heap_ord :: "'a list \<Rightarrow> bool" where
  "heap_ord xs \<longleftrightarrow> (\<forall>i. 0 < i \<longrightarrow> i < length xs \<longrightarrow> le (xs ! i) (xs ! parent i))"

text \<open>Ordered but for the element at \<open>pos\<close>, which may be larger than its parent.\<close>

definition up_inv :: "nat \<Rightarrow> 'a list \<Rightarrow> bool" where
  "up_inv pos xs \<longleftrightarrow> (\<forall>i. 0 < i \<longrightarrow> i < length xs \<longrightarrow> i \<noteq> pos \<longrightarrow> le (xs ! i) (xs ! parent i)) \<and>
     (\<forall>c. 0 < c \<longrightarrow> c < length xs \<longrightarrow> parent c = pos \<longrightarrow> 0 < pos \<longrightarrow> le (xs ! c) (xs ! parent pos))"

text \<open>Ordered but for the hole at \<open>pos\<close>, whose element may be anything.\<close>

definition down_inv :: "nat \<Rightarrow> 'a list \<Rightarrow> bool" where
  "down_inv pos xs \<longleftrightarrow> (\<forall>i. 0 < i \<longrightarrow> i < length xs \<longrightarrow> i \<noteq> pos \<longrightarrow> parent i \<noteq> pos \<longrightarrow> le (xs ! i) (xs ! parent i)) \<and>
     (\<forall>c. 0 < c \<longrightarrow> c < length xs \<longrightarrow> parent c = pos \<longrightarrow> 0 < pos \<longrightarrow> le (xs ! c) (xs ! parent pos))"

lemma up_inv_swap:
  assumes inv: "up_inv pos xs" and pos: "0 < pos" "pos < length xs"
    and gt: "\<not> le (xs ! pos) (xs ! parent pos)" and ok: "\<And>i. i < length xs \<Longrightarrow> ok (xs ! i)"
  shows "up_inv (parent pos) (swap pos (parent pos) xs)"
proof -
  let ?p = "parent pos" let ?ys = "swap pos ?p xs"
  have p: "?p < pos" "?p < length xs" using pos by (auto simp: parent_less parent_less_length)
  have ge: "le (xs ! ?p) (xs ! pos)" using gt le_total ok pos p by blast
  have edge: "le (xs ! i) (xs ! parent i)" if "0 < i" "i < length xs" "i \<noteq> pos" for i
    using inv that unfolding up_inv_def by blast
  have up: "le (xs ! c) (xs ! ?p)" if "0 < c" "c < length xs" "parent c = pos" for c
    using inv that pos unfolding up_inv_def by blast
  have ys: "?ys ! k = (if k = pos then xs ! ?p else if k = ?p then xs ! pos else xs ! k)" if "k < length xs" for k
    using nth_swap pos(2) p(2) that by blast
  have first: "le (?ys ! i) (?ys ! parent i)" if i: "0 < i" "i < length xs" "i \<noteq> ?p" for i
  proof -
    have pi: "parent i < i" "parent i < length xs" using i by (auto simp: parent_less parent_less_length)
    consider "i = pos" | "i \<noteq> pos" "parent i = pos" | "i \<noteq> pos" "parent i = ?p" | "i \<noteq> pos" "parent i \<noteq> pos" "parent i \<noteq> ?p"
      by blast
    then show ?thesis
    proof cases
      case 1 then show ?thesis using ge p by (simp add: ys pos(2))
    next
      case 2 then show ?thesis using up[OF i(1,2)] i pi p by (simp add: ys)
    next
      case 3
      then have "le (xs ! i) (xs ! ?p)" using edge[OF i(1,2)] by simp
      then have "le (xs ! i) (xs ! pos)" using le_trans ge ok i pos p by blast
      with 3 show ?thesis using i pi p by (simp add: ys)
    next
      case 4 then show ?thesis using edge[OF i(1,2)] i pi by (simp add: ys)
    qed
  qed
  have second: "le (?ys ! c) (?ys ! parent ?p)" if c: "0 < c" "c < length xs" "parent c = ?p" "0 < ?p" for c
  proof -
    have pp: "parent ?p < ?p" "parent ?p < length xs" using c(4) p by (auto simp: parent_less parent_less_length)
    have e: "le (xs ! ?p) (xs ! parent ?p)" using edge[of ?p] c(4) p by simp
    show ?thesis
    proof (cases "c = pos")
      case True then show ?thesis using e pp p c by (simp add: ys)
    next
      case False
      then have "le (xs ! c) (xs ! ?p)" using edge[OF c(1,2)] c(3) by simp
      then have "le (xs ! c) (xs ! parent ?p)" using le_trans e ok c(2) p pp by blast
      moreover have "c \<noteq> ?p" using c by (metis parent_less less_irrefl)
      ultimately show ?thesis using False pp p c by (simp add: ys)
    qed
  qed
  from first second show ?thesis unfolding up_inv_def by simp
qed

lemma sift_up_ord:
  "pos < length xs \<Longrightarrow> up_inv pos xs \<Longrightarrow> (\<And>x. x \<in> set xs \<Longrightarrow> ok x) \<Longrightarrow> heap_ord (sift_up le pos xs)"
proof (induction pos arbitrary: xs rule: less_induct)
  case (less pos)
  note 1 = less
  show ?case
  proof (cases "pos = 0 \<or> le (xs ! pos) (xs ! parent pos)")
    case True
    then have "heap_ord xs" using 1(3) unfolding heap_ord_def up_inv_def by blast
    with True show ?thesis by (subst sift_up.simps) auto
  next
    case False
    let ?ys = "swap pos (parent pos) xs"
    have p: "parent pos < length xs" using 1(2) by (rule parent_less_length)
    have "up_inv (parent pos) ?ys"
      using False 1(2-4) by (intro up_inv_swap) auto
    moreover have "set ?ys = set xs"
      using mset_swap_eq[OF 1(2) p] by (metis set_mset_mset)
    ultimately have "heap_ord (sift_up le (parent pos) ?ys)"
      using 1(1)[of "parent pos" ?ys] False p 1(4) by (simp add: parent_less)
    with False show ?thesis by (subst sift_up.simps) simp
  qed
qed

lemma down_inv_swap:
  assumes inv: "down_inv pos xs" and ch: "0 < c" "parent c = pos" "c < length xs"
    and max: "\<And>j. 0 < j \<Longrightarrow> j < length xs \<Longrightarrow> parent j = pos \<Longrightarrow> le (xs ! j) (xs ! c)"
  shows "down_inv c (swap pos c xs)"
proof -
  let ?ys = "swap pos c xs"
  have pos: "pos < c" "pos < length xs" using ch parent_less[of c] by auto
  have edge: "le (xs ! i) (xs ! parent i)" if "0 < i" "i < length xs" "i \<noteq> pos" "parent i \<noteq> pos" for i
    using inv that unfolding down_inv_def by blast
  have up: "le (xs ! c) (xs ! parent pos)" if "0 < pos"
    using inv that ch unfolding down_inv_def by blast
  have ys: "?ys ! k = (if k = pos then xs ! c else if k = c then xs ! pos else xs ! k)" if "k < length xs" for k
    using nth_swap pos(2) ch(3) that by blast
  have first: "le (?ys ! i) (?ys ! parent i)" if i: "0 < i" "i < length xs" "i \<noteq> c" "parent i \<noteq> c" for i
  proof -
    have pi: "parent i < i" "parent i < length xs" using i by (auto simp: parent_less parent_less_length)
    consider "i = pos" | "parent i = pos" | "i \<noteq> pos" "parent i \<noteq> pos" by blast
    then show ?thesis
    proof cases
      case 1 then show ?thesis using up i pi by (simp add: ys)
    next
      case 2 then show ?thesis using max[OF i(1,2)] i pi by (simp add: ys)
    next
      case 3 then show ?thesis using edge[OF i(1,2)] i pi by (simp add: ys)
    qed
  qed
  have second: "le (?ys ! d) (?ys ! parent c)" if d: "0 < d" "d < length xs" "parent d = c" for d
  proof -
    have "c < d" using d parent_less by blast
    then show ?thesis using edge[OF d(1,2)] d pos ch by (simp add: ys)
  qed
  from first second show ?thesis unfolding down_inv_def by simp
qed

lemma sift_down_ord:
  "pos < length xs \<Longrightarrow> down_inv pos xs \<Longrightarrow> (\<And>x. x \<in> set xs \<Longrightarrow> ok x) \<Longrightarrow>
     sift_down le pos xs = (ys, p) \<Longrightarrow> up_inv p ys"
proof (induction "length xs - pos" arbitrary: pos xs rule: less_induct)
  case less
  let ?l = "2 * pos + 1"
  have ok: "ok (xs ! i)" if "i < length xs" for i using less.prems(3) that by simp
  consider "?l + 1 < length xs" | "?l + 1 = length xs" | "length xs < ?l + 1" by linarith
  then show ?case
  proof cases
    case 1
    let ?c = "if le (xs ! ?l) (xs ! (?l + 1)) then ?l + 1 else ?l"
    have c: "0 < ?c" "parent ?c = pos" "?c < length xs" using 1 by (auto simp: parent_iff)
    have refl: "le (xs ! i) (xs ! i)" if "i < length xs" for i using le_total ok that by blast
    have max: "le (xs ! j) (xs ! ?c)" if "0 < j" "j < length xs" "parent j = pos" for j
    proof -
      have "j = ?l \<or> j = ?l + 1" using that by (auto simp: parent_iff)
      moreover have "le (xs ! ?l) (xs ! (?l + 1)) \<or> le (xs ! (?l + 1)) (xs ! ?l)"
        using le_total ok 1 by (meson add_lessD1)
      ultimately show ?thesis using refl[OF that(2)] by (auto split: if_splits)
    qed
    have inv: "down_inv ?c (swap pos ?c xs)"
      by (rule down_inv_swap[OF less.prems(2) c max])
    have st: "set (swap pos ?c xs) = set xs"
      using mset_swap_eq[OF less.prems(1) c(3)] by (metis set_mset_mset)
    have "sift_down le ?c (swap pos ?c xs) = (ys, p)"
      using less.prems(4) 1 by (simp add: sift_down.simps[of le pos xs] Let_def split: if_splits)
    moreover have "length (swap pos ?c xs) - ?c < length xs - pos" using 1 by auto
    ultimately show ?thesis
      using less.hyps[of "swap pos ?c xs" ?c] inv c(3) st less.prems(3) by simp
  next
    case 2
    then have c: "0 < ?l" "parent ?l = pos" "?l < length xs" by (auto simp: parent_iff)
    have max: "le (xs ! j) (xs ! ?l)" if "0 < j" "j < length xs" "parent j = pos" for j
    proof -
      have "j = ?l" using that 2 by (auto simp: parent_iff)
      then show ?thesis using le_total ok that by blast
    qed
    have inv: "down_inv ?l (swap pos ?l xs)" by (rule down_inv_swap[OF less.prems(2) c max])
    have "ys = swap pos ?l xs" "p = ?l"
      using less.prems(4) 2 by (auto simp: sift_down.simps[of le pos xs] Let_def)
    then show ?thesis using inv 2 unfolding down_inv_def up_inv_def by (auto simp: parent_iff)
  next
    case 3
    then have "ys = xs" "p = pos"
      using less.prems(4) by (auto simp: sift_down.simps[of le pos xs] Let_def)
    then show ?thesis using less.prems(2) 3 unfolding down_inv_def up_inv_def by (auto simp: parent_iff)
  qed
qed

lemma heap_push_ord:
  assumes "heap_ord xs" "\<And>y. y \<in> set xs \<Longrightarrow> ok y" "ok x"
  shows "heap_ord (heap_push le x xs)"
  unfolding heap_push_def
proof (rule sift_up_ord)
  show "up_inv (length xs) (xs @ [x])"
    using assms(1) unfolding up_inv_def heap_ord_def
    by (auto simp: nth_append parent_iff parent_less_length)
qed (use assms in auto)

lemma heap_pop_ord:
  assumes "heap_ord xs" "\<And>y. y \<in> set xs \<Longrightarrow> ok y" "heap_pop le xs = Some (t, ys)"
  shows "heap_ord ys"
proof (cases "butlast xs = []")
  case True
  with assms(3) show ?thesis by (auto simp: heap_pop_def heap_ord_def Let_def split: if_splits)
next
  case False
  let ?zs = "(butlast xs)[0 := last xs]"
  have ne: "xs \<noteq> []" using False by auto
  obtain ws p where sd: "sift_down le 0 ?zs = (ws, p)" by force
  have edge: "le (xs ! i) (xs ! parent i)" if "0 < i" "i < length xs" for i
    using assms(1) that unfolding heap_ord_def by blast
  have "down_inv 0 ?zs"
    unfolding down_inv_def using edge by (auto simp: nth_butlast parent_less_length)
  moreover have ok: "ok y" if "y \<in> set ?zs" for y
    using assms(2) that ne set_update_subset_insert[of "butlast xs" 0 "last xs"] in_set_butlastD[of y xs] by auto
  moreover have len: "0 < length ?zs" using False by (cases xs) auto
  ultimately have "up_inv p ws" using sift_down_ord[OF _ _ _ sd] by blast
  moreover have m: "mset ws = mset ?zs \<and> p < length ws" by (rule sift_down_mset[OF len sd])
  moreover have "set ws = set ?zs" using m by (metis set_mset_mset)
  ultimately have "heap_ord (sift_up le p ws)" using ok by (intro sift_up_ord) auto
  moreover have "ys = sift_up le p ws"
    using assms(3) False ne sd by (auto simp: heap_pop_def Let_def)
  ultimately show ?thesis by simp
qed

text \<open>The root is a largest element.\<close>

lemma heap_root_max:
  assumes "heap_ord xs" "\<And>y. y \<in> set xs \<Longrightarrow> ok y" "i < length xs"
  shows "le (xs ! i) (xs ! 0)"
  using assms(3)
proof (induction i rule: less_induct)
  case (less i)
  have ok: "ok (xs ! j)" if "j < length xs" for j using assms(2) that by simp
  show ?case
  proof (cases "i = 0")
    case True
    then show ?thesis using le_total ok less.prems by blast
  next
    case False
    then have p: "parent i < i" "parent i < length xs"
      using less.prems by (auto simp: parent_less parent_less_length)
    have "le (xs ! i) (xs ! parent i)" using assms(1) False less.prems unfolding heap_ord_def by blast
    moreover have "le (xs ! parent i) (xs ! 0)" using less.IH[OF p] .
    ultimately show ?thesis using le_trans ok less.prems p by (metis gr_zeroI not_less_zero)
  qed
qed

lemma heap_peek_max:
  assumes "heap_ord xs" "\<And>y. y \<in> set xs \<Longrightarrow> ok y" "heap_peek xs = Some t" "x \<in> set xs"
  shows "le x t"
proof -
  obtain i where "i < length xs" "x = xs ! i" using assms(4) by (auto simp: in_set_conv_nth)
  then show ?thesis using heap_root_max[OF assms(1,2)] assms(3)
    by (auto simp: heap_peek_def split: if_splits)
qed

end

end
