(* ===== verification/Cache_Expiry.thy ===== *)
theory Cache_Expiry
  imports Binary_Heap Obj_Core
begin

text \<open>
  \<open>crates/rv-cache/src/expire.rs\<close>: sixteen binary heaps of deadlines, one per value of the low
  bits of the first digest byte.  The abstract specification is a multiset of deadlines with their
  objects.
\<close>

section \<open>State and operations\<close>

definition N_EXPIRY_SHARDS :: nat where
  "N_EXPIRY_SHARDS = 16"

record 'r expiry_entry =
  ee_when :: vtim_real
  ee_obj :: 'r

text \<open>
  \<open>Ord::cmp\<close> compares the deadlines in reverse, and incomparable ones are equal; \<open>a <= b\<close> holds
  unless \<open>a.cmp(b)\<close> is \<open>Greater\<close>.
\<close>

definition entry_le :: "'r expiry_entry \<Rightarrow> 'r expiry_entry \<Rightarrow> bool" where
  "entry_le a b \<longleftrightarrow> \<not> f_gt (ee_when b) (ee_when a)"

type_synonym 'r expiry_manager = "'r expiry_entry list list"

definition expiry_shard_index :: "digest \<Rightarrow> nat" where
  "expiry_shard_index d = unat (bytes d ! 0) mod N_EXPIRY_SHARDS"

definition expiry_new :: "'r expiry_manager" where
  "expiry_new = replicate N_EXPIRY_SHARDS []"

definition expiry_insert_at :: "'r \<Rightarrow> objcore \<Rightarrow> vtim_real \<Rightarrow> 'r expiry_manager \<Rightarrow> 'r expiry_manager" where
  "expiry_insert_at r oc w m =
     (let idx = expiry_shard_index (oc_digest oc) in
      m[idx := heap_push entry_le \<lparr>ee_when = w, ee_obj = r\<rparr> (m ! idx)])"

definition expiry_insert :: "'r \<Rightarrow> objcore \<Rightarrow> 'r expiry_manager \<Rightarrow> 'r expiry_manager" where
  "expiry_insert r oc m =
     (let w = real_add (real_add (real_add (t_origin oc) (ttl oc)) (grace oc)) (keep oc);
          idx = expiry_shard_index (oc_digest oc) in
      m[idx := heap_push entry_le \<lparr>ee_when = w, ee_obj = r\<rparr> (m ! idx)])"

primrec peek_shards :: "vtim_real option \<Rightarrow> 'r expiry_manager \<Rightarrow> vtim_real option" where
  "peek_shards earliest [] = earliest"
| "peek_shards earliest (heap # shards) =
     peek_shards (case heap_peek heap of
        None \<Rightarrow> earliest
      | Some entry \<Rightarrow> (case earliest of
            Some current \<Rightarrow> (if f_le current (ee_when entry) then earliest else Some (ee_when entry))
          | None \<Rightarrow> Some (ee_when entry))) shards"

definition peek_when :: "'r expiry_manager \<Rightarrow> vtim_real option" where
  "peek_when m = peek_shards None m"

function expire_shard :: "vtim_real \<Rightarrow> 'r expiry_entry list \<Rightarrow> 'r list \<times> 'r expiry_entry list" where
  "expire_shard now heap =
     (case heap_peek heap of
        None \<Rightarrow> ([], heap)
      | Some entry \<Rightarrow>
          (if f_gt (ee_when entry) now then ([], heap)
           else (case heap_pop entry_le heap of
                   None \<Rightarrow> ([], heap)
                 | Some (e, heap') \<Rightarrow>
                     (case expire_shard now heap' of (objs, h) \<Rightarrow> (ee_obj e # objs, h)))))"
  by auto
termination
  by (relation "measure (\<lambda>(now, heap). length heap)") (auto dest: heap_pop_length)

declare expire_shard.simps [simp del]

primrec expire_shards :: "vtim_real \<Rightarrow> 'r expiry_manager \<Rightarrow> 'r list \<times> 'r expiry_manager" where
  "expire_shards now [] = ([], [])"
| "expire_shards now (heap # shards) =
     (case expire_shard now heap of (objs, h) \<Rightarrow>
      case expire_shards now shards of (objs', hs) \<Rightarrow> (objs @ objs', h # hs))"

definition expire :: "vtim_real \<Rightarrow> 'r expiry_manager \<Rightarrow> 'r list \<times> 'r expiry_manager" where
  "expire now m = expire_shards now m"

definition expiry_len :: "'r expiry_manager \<Rightarrow> nat" where
  "expiry_len m = sum_list (map length m)"

definition expiry_is_empty :: "'r expiry_manager \<Rightarrow> bool" where
  "expiry_is_empty m = list_all (\<lambda>h. h = []) m"

definition time_to_next :: "vtim_real \<Rightarrow> 'r expiry_manager \<Rightarrow> vtim_dur option" where
  "time_to_next now m =
     map_option (\<lambda>w. let diff = f_sub w now in if f_gt diff (Num 0) then diff else Num 0) (peek_when m)"

section \<open>Invariant\<close>

text \<open>A deadline that is a number or an infinity: on these the order of the heap is total.\<close>

definition entry_ok :: "'r expiry_entry \<Rightarrow> bool" where
  "entry_ok e \<longleftrightarrow> ee_when e \<noteq> NaN"

interpretation expiry_heap: heap_order entry_le entry_ok
proof
  fix x y z :: "'r expiry_entry"
  assume "entry_ok x" "entry_ok y" "entry_ok z"
  then show "entry_le x y \<Longrightarrow> entry_le y z \<Longrightarrow> entry_le x z" "entry_le x y \<or> entry_le y x"
    unfolding entry_ok_def entry_le_def by (metis f_not_lt f_le_trans, metis f_lt_asym)
qed

text \<open>All deadlines with their objects.\<close>

definition expiry_contents :: "'r expiry_manager \<Rightarrow> 'r expiry_entry multiset" where
  "expiry_contents m = mset (concat m)"

definition expiry_inv :: "'r expiry_manager \<Rightarrow> bool" where
  "expiry_inv m \<longleftrightarrow> length m = N_EXPIRY_SHARDS \<and>
     (\<forall>h \<in> set m. expiry_heap.heap_ord h \<and> (\<forall>e \<in> set h. entry_ok e))"

text \<open>The entries that a call at \<open>now\<close> leaves: those whose deadline is later.\<close>

abbreviation later :: "vtim_real \<Rightarrow> 'r expiry_entry \<Rightarrow> bool" where
  "later now e \<equiv> f_gt (ee_when e) now"

lemma expire_shard_correct:
  assumes "expiry_heap.heap_ord heap" "\<And>e. e \<in> set heap \<Longrightarrow> entry_ok e"
    and "expire_shard now heap = (objs, h)"
  shows "expiry_heap.heap_ord h \<and> mset h = filter_mset (later now) (mset heap) \<and>
         mset objs = image_mset ee_obj (filter_mset (\<lambda>e. \<not> later now e) (mset heap))"
  using assms
proof (induction now heap arbitrary: objs h rule: expire_shard.induct)
  case (1 now heap)
  show ?case
  proof (cases "heap_pop entry_le heap")
    case None
    then have "heap = []" by (simp add: heap_pop_None)
    with "1.prems" show ?thesis by (auto simp: expire_shard.simps[of now "[]"] heap_peek_def)
  next
    case (Some r)
    then obtain e heap' where pop: "heap_pop entry_le heap = Some (e, heap')" by (cases r) auto
    have peek: "heap_peek heap = Some e" and ms: "mset heap = add_mset e (mset heap')"
      using heap_pop_mset[OF pop] by auto
    have sub: "set heap = insert e (set heap')" using ms by (metis set_mset_add_mset_insert set_mset_mset)
    show ?thesis
    proof (cases "later now e")
      case True
      have "later now x" if "x \<in> set heap" for x
      proof -
        have "entry_le x e" using expiry_heap.heap_peek_max[OF "1.prems"(1,2) peek that] by blast
        moreover have "entry_ok x" "entry_ok e" using "1.prems"(2) that sub by auto
        ultimately show ?thesis using True unfolding entry_le_def entry_ok_def
          by (cases "ee_when e"; cases "ee_when x"; cases now; auto)
      qed
      then have "filter_mset (later now) (mset heap) = mset heap" "filter_mset (\<lambda>e. \<not> later now e) (mset heap) = {#}"
        by (auto simp: multiset_eq_iff count_eq_zero_iff)
      with True peek "1.prems" show ?thesis by (simp add: expire_shard.simps[of now heap])
    next
      case False
      obtain objs' h' where rest: "expire_shard now heap' = (objs', h')" by force
      have ord: "expiry_heap.heap_ord heap'" by (rule expiry_heap.heap_pop_ord[OF "1.prems"(1,2) pop])
      have "expiry_heap.heap_ord h' \<and> mset h' = filter_mset (later now) (mset heap') \<and>
         mset objs' = image_mset ee_obj (filter_mset (\<lambda>e. \<not> later now e) (mset heap'))"
        by (rule "1.IH"[OF peek False pop refl ord _ rest]) (use "1.prems"(2) sub in auto)
      moreover have "objs = ee_obj e # objs'" "h = h'"
        using "1.prems"(3) peek False pop rest by (auto simp: expire_shard.simps[of now heap])
      ultimately show ?thesis using False ms by simp
    qed
  qed
qed


lemma expire_shards_correct:
  assumes "\<forall>h \<in> set m. expiry_heap.heap_ord h \<and> (\<forall>e \<in> set h. entry_ok e)" "expire_shards now m = (objs, m')"
  shows "length m' = length m \<and> (\<forall>h \<in> set m'. expiry_heap.heap_ord h \<and> (\<forall>e \<in> set h. entry_ok e)) \<and>
     mset (concat m') = filter_mset (later now) (mset (concat m)) \<and>
     mset objs = image_mset ee_obj (filter_mset (\<lambda>e. \<not> later now e) (mset (concat m)))"
  using assms
proof (induction m arbitrary: objs m')
  case (Cons heap m)
  obtain o1 h1 where s1: "expire_shard now heap = (o1, h1)" by force
  obtain o2 m2 where s2: "expire_shards now m = (o2, m2)" by force
  have h: "expiry_heap.heap_ord h1 \<and> mset h1 = filter_mset (later now) (mset heap) \<and>
         mset o1 = image_mset ee_obj (filter_mset (\<lambda>e. \<not> later now e) (mset heap))"
    by (rule expire_shard_correct[OF _ _ s1]) (use Cons.prems(1) in auto)
  then have "set h1 \<subseteq> set heap" by (metis multiset_filter_subset set_mset_mset set_mset_mono)
  then have "\<forall>e \<in> set h1. entry_ok e" using Cons.prems(1) by auto
  with h Cons.IH[OF _ s2] Cons.prems s1 s2 show ?case by auto
qed simp

lemma expire_correct:
  assumes "expiry_inv m" "expire now m = (objs, m')"
  shows "expiry_inv m' \<and> expiry_contents m' = filter_mset (later now) (expiry_contents m) \<and>
     mset objs = image_mset ee_obj (filter_mset (\<lambda>e. \<not> later now e) (expiry_contents m))"
  using assms expire_shards_correct[of m now objs m']
  by (auto simp: expiry_inv_def expire_def expiry_contents_def)

lemma heap_ord_Nil [simp]: "expiry_heap.heap_ord []"
  by (simp add: expiry_heap.heap_ord_def)

lemma expiry_inv_new [simp]: "expiry_inv expiry_new" "expiry_contents expiry_new = {#}"
  by (simp_all add: expiry_inv_def expiry_new_def expiry_contents_def)

lemma mset_concat_update:
  assumes "i < length m" "mset h = add_mset x (mset (m ! i))"
  shows "mset (concat (m[i := h])) = add_mset x (mset (concat m))"
proof -
  have "m = take i m @ m ! i # drop (Suc i) m" using assms(1) by (rule id_take_nth_drop)
  then have "mset (concat m) = mset (concat (take i m)) + mset (m ! i) + mset (concat (drop (Suc i) m))"
    by (metis concat.simps(2) concat_append mset_append add.assoc)
  moreover have "mset (concat (m[i := h])) = mset (concat (take i m)) + mset h + mset (concat (drop (Suc i) m))"
    using assms(1) by (simp add: upd_conv_take_nth_drop)
  ultimately show ?thesis using assms(2) by simp
qed

lemma expiry_push_correct:
  assumes "expiry_inv m" "w \<noteq> NaN" "e = \<lparr>ee_when = w, ee_obj = r\<rparr>" "idx = expiry_shard_index d"
  shows "expiry_inv (m[idx := heap_push entry_le e (m ! idx)]) \<and>
         expiry_contents (m[idx := heap_push entry_le e (m ! idx)]) = add_mset e (expiry_contents m)"
proof -
  have idx: "idx < length m" using assms by (simp add: expiry_inv_def expiry_shard_index_def N_EXPIRY_SHARDS_def)
  then have h: "expiry_heap.heap_ord (m ! idx)" "\<And>x. x \<in> set (m ! idx) \<Longrightarrow> entry_ok x"
    using assms(1) nth_mem unfolding expiry_inv_def by blast+
  have ok: "entry_ok e" using assms by (simp add: entry_ok_def)
  let ?h = "heap_push entry_le e (m ! idx)"
  have "expiry_heap.heap_ord ?h" by (rule expiry_heap.heap_push_ord[OF h ok])
  moreover have "set ?h = insert e (set (m ! idx))"
    by (metis heap_push_mset set_mset_add_mset_insert set_mset_mset)
  ultimately have "expiry_inv (m[idx := ?h])"
    using assms(1) h(2) ok set_update_subset_insert[of m idx ?h] unfolding expiry_inv_def by fastforce
  moreover have "expiry_contents (m[idx := ?h]) = add_mset e (expiry_contents m)"
    unfolding expiry_contents_def by (rule mset_concat_update[OF idx heap_push_mset])
  ultimately show ?thesis ..
qed

section \<open>The queue as a schedule\<close>

datatype 'r expiry_op = EX_Insert 'r objcore | EX_InsertAt 'r objcore vtim_real | EX_Expire vtim_real

definition deadline :: "objcore \<Rightarrow> vtim_real" where
  "deadline oc = real_add (real_add (real_add (t_origin oc) (ttl oc)) (grace oc)) (keep oc)"

primrec expiry_exec :: "'r expiry_manager \<Rightarrow> 'r expiry_op \<Rightarrow> 'r expiry_manager \<times> 'r list" where
  "expiry_exec m (EX_Insert r oc) = (expiry_insert r oc m, [])"
| "expiry_exec m (EX_InsertAt r oc w) = (expiry_insert_at r oc w m, [])"
| "expiry_exec m (EX_Expire now) = (case expire now m of (objs, m') \<Rightarrow> (m', objs))"

text \<open>The specification: a bag of deadlines, from which a call at \<open>now\<close> takes those that are due.\<close>

primrec schedule_step :: "'r expiry_entry multiset \<Rightarrow> 'r expiry_op \<Rightarrow> 'r expiry_entry multiset \<times> 'r multiset" where
  "schedule_step S (EX_Insert r oc) = (add_mset \<lparr>ee_when = deadline oc, ee_obj = r\<rparr> S, {#})"
| "schedule_step S (EX_InsertAt r oc w) = (add_mset \<lparr>ee_when = w, ee_obj = r\<rparr> S, {#})"
| "schedule_step S (EX_Expire now) =
     (filter_mset (later now) S, image_mset ee_obj (filter_mset (\<lambda>e. \<not> later now e) S))"

primrec deadline_ok :: "'r expiry_op \<Rightarrow> bool" where
  "deadline_ok (EX_Insert r oc) \<longleftrightarrow> deadline oc \<noteq> NaN"
| "deadline_ok (EX_InsertAt r oc w) \<longleftrightarrow> w \<noteq> NaN"
| "deadline_ok (EX_Expire now) \<longleftrightarrow> True"

lemma expiry_exec_simulates:
  assumes "expiry_inv m" "deadline_ok op" "expiry_exec m op = (m', objs)"
  shows "expiry_inv m' \<and> schedule_step (expiry_contents m) op = (expiry_contents m', mset objs)"
proof (cases op)
  case (EX_Insert r oc)
  then show ?thesis
    using assms expiry_push_correct[of m "deadline oc" _ r _ "oc_digest oc", OF assms(1) _ refl refl]
    by (auto simp: expiry_insert_def deadline_def Let_def)
next
  case (EX_InsertAt r oc w)
  then show ?thesis
    using assms expiry_push_correct[of m w _ r _ "oc_digest oc", OF assms(1) _ refl refl]
    by (auto simp: expiry_insert_at_def Let_def)
next
  case (EX_Expire now)
  then show ?thesis
    using assms(3) expire_correct[OF assms(1)] by (auto split: prod.splits)
qed

lemma expiry_run_simulates:
  assumes "expiry_inv m" "list_all deadline_ok ops" "run expiry_exec m ops = (m', outs)"
  shows "expiry_inv m' \<and> run schedule_step (expiry_contents m) ops = (expiry_contents m', map mset outs)"
  using assms
proof (induction ops arbitrary: m outs)
  case (Cons op ops)
  obtain m1 objs where op: "expiry_exec m op = (m1, objs)" by force
  obtain outs' where tl: "run expiry_exec m1 ops = (m', outs')" "outs = objs # outs'"
    using Cons.prems(3) op by (auto split: prod.splits)
  have s: "expiry_inv m1 \<and> schedule_step (expiry_contents m) op = (expiry_contents m1, mset objs)"
    by (rule expiry_exec_simulates[OF Cons.prems(1) _ op]) (use Cons.prems(2) in simp)
  with Cons.IH[OF _ _ tl(1)] Cons.prems(2) tl(2) show ?case by simp
qed simp

section \<open>The earliest deadline\<close>

definition earliest_of :: "vtim_real option \<Rightarrow> vtim_real set \<Rightarrow> bool" where
  "earliest_of w W \<longleftrightarrow> (case w of None \<Rightarrow> W = {} | Some t \<Rightarrow> t \<in> W \<and> t \<noteq> NaN \<and> (\<forall>u \<in> W. f_le t u))"

lemma f_le_refl: "a \<noteq> NaN \<Longrightarrow> f_le a a"
  by (simp add: f_le_def f_eq_def)

lemma f_le_linear: "a \<noteq> NaN \<Longrightarrow> b \<noteq> NaN \<Longrightarrow> f_le a b \<or> f_le b a"
  by (cases a; cases b; auto simp: f_le_def f_eq_def)

lemma heap_peek_earliest:
  assumes "expiry_heap.heap_ord h" "\<forall>e \<in> set h. entry_ok e"
  shows "earliest_of (map_option ee_when (heap_peek h)) (ee_when ` set h)"
proof (cases "heap_peek h")
  case None
  then show ?thesis by (simp add: earliest_of_def heap_peek_def split: if_splits)
next
  case (Some t)
  then have "t \<in> set h" by (auto simp: heap_peek_def split: if_splits)
  moreover have "f_le (ee_when t) (ee_when e)" if "e \<in> set h" for e
    using expiry_heap.heap_peek_max[OF assms(1) _ Some that] assms(2) that \<open>t \<in> set h\<close>
    by (auto simp: entry_le_def entry_ok_def f_not_lt)
  ultimately show ?thesis using Some assms(2) by (auto simp: earliest_of_def entry_ok_def)
qed

lemma earliest_of_union:
  assumes "earliest_of a A" "earliest_of b B"
  shows "earliest_of (case b of None \<Rightarrow> a | Some w \<Rightarrow> (case a of Some c \<Rightarrow> (if f_le c w then a else Some w) | None \<Rightarrow> Some w)) (A \<union> B)"
proof (cases a)
  case None
  then show ?thesis using assms by (cases b) (simp_all add: earliest_of_def)
next
  case (Some c)
  then have c: "c \<in> A" "c \<noteq> NaN" "\<forall>u \<in> A. f_le c u" using assms(1) by (simp_all add: earliest_of_def)
  show ?thesis
  proof (cases b)
    case None
    then show ?thesis using assms Some by (simp add: earliest_of_def)
  next
    case (Some w)
    then have w: "w \<in> B" "w \<noteq> NaN" "\<forall>u \<in> B. f_le w u" using assms(2) by (simp_all add: earliest_of_def)
    show ?thesis
    proof (cases "f_le c w")
      case True
      then have "\<forall>u \<in> B. f_le c u" using w(3) f_le_trans by blast
      then show ?thesis using True c \<open>a = Some c\<close> \<open>b = Some w\<close> by (auto simp: earliest_of_def)
    next
      case False
      then have "f_le w c" using f_le_linear c(2) w(2) by blast
      then have "\<forall>u \<in> A. f_le w u" using c(3) f_le_trans by blast
      then show ?thesis using False w \<open>a = Some c\<close> \<open>b = Some w\<close> by (auto simp: earliest_of_def)
    qed
  qed
qed

lemma peek_shards_earliest:
  assumes "\<forall>h \<in> set m. expiry_heap.heap_ord h \<and> (\<forall>e \<in> set h. entry_ok e)" "earliest_of w W"
  shows "earliest_of (peek_shards w m) (W \<union> ee_when ` set (concat m))"
  using assms
proof (induction m arbitrary: w W)
  case (Cons h m)
  have "earliest_of (map_option ee_when (heap_peek h)) (ee_when ` set h)"
    using Cons.prems(1) by (intro heap_peek_earliest) auto
  note u = earliest_of_union[OF Cons.prems(2) this]
  have "peek_shards w (h # m) = peek_shards (case map_option ee_when (heap_peek h) of None \<Rightarrow> w
      | Some t \<Rightarrow> (case w of Some c \<Rightarrow> (if f_le c t then w else Some t) | None \<Rightarrow> Some t)) m"
    by (simp split: option.splits)
  with Cons.IH[OF _ u] Cons.prems(1) show ?case by (simp add: image_Un Un_assoc)
qed simp

lemma peek_when_earliest: "expiry_inv m \<Longrightarrow> earliest_of (peek_when m) (ee_when ` set_mset (expiry_contents m))"
  using peek_shards_earliest[of m None "{}"]
  by (simp add: expiry_inv_def peek_when_def expiry_contents_def earliest_of_def)

text \<open>
  C16: For deadlines that are not NaN, any sequence of insertions and expirations behaves as the
  schedule: each expiration returns exactly the objects whose deadline is not later than its time,
  each once, and keeps all others; the length and the emptiness test are those of the schedule, and
  the reported next deadline is its smallest one.
\<close>

theorem expiry_refines_schedule:
  assumes "list_all deadline_ok ops" "run expiry_exec expiry_new ops = (m, outs)"
    and "run schedule_step {#} ops = (S, due)"
  shows "expiry_contents m = S \<and> map mset outs = due \<and> expiry_len m = size S \<and>
         (expiry_is_empty m \<longleftrightarrow> S = {#}) \<and>
         (case peek_when m of None \<Rightarrow> S = {#}
          | Some w \<Rightarrow> w \<in> ee_when ` set_mset S \<and> (\<forall>e \<in># S. f_le w (ee_when e)))"
proof -
  have inv: "expiry_inv m" and S: "expiry_contents m = S" "map mset outs = due"
    using expiry_run_simulates[OF expiry_inv_new(1) assms(1,2)] assms(3) by auto
  have "expiry_len m = size S"
    by (simp add: expiry_len_def S(1)[symmetric] expiry_contents_def length_concat)
  moreover have "expiry_is_empty m \<longleftrightarrow> S = {#}"
    by (auto simp: expiry_is_empty_def S(1)[symmetric] expiry_contents_def list_all_iff)
  ultimately show ?thesis
    using S peek_when_earliest[OF inv] unfolding earliest_of_def by (auto split: option.splits)
qed

definition expiry_demo_ops :: "nat expiry_op list" where
  "expiry_demo_ops = [EX_InsertAt 1 (objcore_new (make_digest 1)) (Num 30), EX_InsertAt 2 (objcore_new (make_digest 1)) (Num 10),
     EX_InsertAt 3 (objcore_new (make_digest 2)) (Num 20), EX_Expire (Num 20)]"

theorem expiry_refines_schedule_witness:
  "\<exists>m outs. run expiry_exec expiry_new expiry_demo_ops = (m, outs) \<and> map mset outs = [{#}, {#}, {#}, {#2, 3#}] \<and>
     expiry_len m = 1"
proof -
  obtain m outs where r: "run expiry_exec expiry_new expiry_demo_ops = (m, outs)" by force
  have ok: "list_all deadline_ok expiry_demo_ops" by (simp add: expiry_demo_ops_def)
  have sp: "run schedule_step {#} expiry_demo_ops = ({#\<lparr>ee_when = Num 30, ee_obj = 1\<rparr>#}, [{#}, {#}, {#}, {#2, 3#}])"
    by (simp add: expiry_demo_ops_def)
  from expiry_refines_schedule[OF ok r sp] r show ?thesis by auto
qed

section \<open>Deadlines that are not numbers\<close>

definition nan_demo :: "nat expiry_manager" where
  "nan_demo = fold (\<lambda>(r, w). expiry_insert_at r (objcore_new (make_digest 0)) w)
     [(1, Num 100), (2, NaN), (3, Num 200), (4, Num 5)] expiry_new"

lemma heap_push_small:
  "heap_push le x [] = [x]"
  "le x a \<Longrightarrow> heap_push le x [a] = [a, x]"
  "le x a \<Longrightarrow> heap_push le x [a, b] = [a, b, x]"
  "le x b \<Longrightarrow> heap_push le x [a, b, c] = [a, b, c, x]"
  by (simp_all add: heap_push_def sift_up.simps[of le 0] sift_up.simps[of le "Suc 0"]
      sift_up.simps[of le "Suc (Suc 0)"] sift_up.simps[of le "Suc (Suc (Suc 0))"] parent_def)

lemma nan_demo_eq:
  "nan_demo = map (\<lambda>(w, r). \<lparr>ee_when = w, ee_obj = r\<rparr>) [(Num 100, 1), (NaN, 2), (Num 200, 3), (Num 5, 4)] # replicate 15 []"
proof -
  let ?oc = "objcore_new (make_digest 0)"
  have idx: "expiry_shard_index (oc_digest ?oc) = 0"
    by (simp add: objcore_new_def expiry_shard_index_def bytes_make_digest)
  have ins: "expiry_insert_at r ?oc w (h # hs) = heap_push entry_le \<lparr>ee_when = w, ee_obj = r\<rparr> h # hs" for r :: nat and w h hs
    by (simp add: expiry_insert_at_def idx)
  have new: "(expiry_new :: nat expiry_manager) = [] # replicate 15 []"
    by (simp add: expiry_new_def N_EXPIRY_SHARDS_def numeral_eq_Suc)
  show ?thesis
    by (simp add: nan_demo_def new ins heap_push_small entry_le_def)
qed

lemma expire_shards_empty: "expire_shards now (replicate n []) = ([], replicate n [])"
  by (induction n) (simp_all add: expire_shard.simps[of now "[]"] heap_peek_def)

text \<open>
  A NaN deadline breaks the order of its heap: after insertions of the deadlines 100, NaN, 200
  and 5 for objects of one digest, a call at time 50 returns nothing, although the last of them is
  due and the earliest deadline of the queue is past.
\<close>

theorem expiry_nan_hides_due:
  "fst (expire (Num 50) nan_demo) = [] \<and> \<lparr>ee_when = Num 5, ee_obj = 4\<rparr> \<in># expiry_contents nan_demo"
proof -
  have "expire_shard (Num 50) (e # h) = ([], e # h)" if "ee_when e = Num 100" for e :: "nat expiry_entry" and h
    using that by (simp add: expire_shard.simps[of "Num 50" "e # h"] heap_peek_def)
  then show ?thesis
    by (simp add: nan_demo_eq expiry_contents_def expire_def expire_shards_empty)
qed

end
