(* ===== verification/Stevedore.thy ===== *)
theory Stevedore
  imports Obj_Core
begin

text \<open>
  \<open>crates/rv-storage/src/traits.rs\<close>: the errors of the storage backends and the trait \<open>Stevedore\<close>.
  A trait object is a record of the operations that the cache engine calls, over the state \<open>'s\<close> of
  the backend.  No backend of the repository changes the \<open>ObjCore\<close> it is handed, so the operations
  return the new state of the backend and their result only.

  The locale \<open>body_store\<close> is what a backend that keeps bodies promises to its client: after an
  allocation and an extension within the hint the body reads back, until the object is freed, and
  whatever is done with the objects of other digests.
\<close>

datatype storage_error = AllocFailed | Full | NotFound | Io string

datatype ban_info = BI_New | BI_Drop

record 's stevedore =
  sv_alloc_obj :: "objcore \<Rightarrow> usize \<Rightarrow> 's \<Rightarrow> 's \<times> (storage_error, unit) result"
  sv_free_obj :: "objcore \<Rightarrow> 's \<Rightarrow> 's"
  sv_get_space :: "objcore \<Rightarrow> usize \<Rightarrow> 's \<Rightarrow> 's \<times> (storage_error, u8 list) result"
  sv_extend :: "objcore \<Rightarrow> u8 list \<Rightarrow> 's \<Rightarrow> 's \<times> (storage_error, unit) result"
  sv_trim :: "objcore \<Rightarrow> 's \<Rightarrow> 's"
  sv_get_attr :: "objcore \<Rightarrow> obj_attr \<Rightarrow> 's \<Rightarrow> u8 list option"
  sv_set_attr :: "objcore \<Rightarrow> obj_attr \<Rightarrow> u8 list \<Rightarrow> 's \<Rightarrow> 's \<times> (storage_error, unit) result"
  sv_get_body :: "objcore \<Rightarrow> 's \<Rightarrow> u8 list option"
  sv_total_space :: "'s \<Rightarrow> usize"
  sv_used_space :: "'s \<Rightarrow> usize"
  sv_free_space :: "'s \<Rightarrow> usize"

text \<open>The attributes in declaration order, over which the sums of the backends range.\<close>

definition ALL_ATTRS :: "obj_attr list" where
  "ALL_ATTRS = [OA_Len, OA_Vxid, OA_Flags, OA_GzipBits, OA_LastModified, OA_Vary, OA_Headers, OA_EsiData]"

lemma ALL_ATTRS_complete [simp]: "a \<in> set ALL_ATTRS"
  by (cases a) (simp_all add: ALL_ATTRS_def)

lemma distinct_ALL_ATTRS [simp]: "distinct ALL_ATTRS"
  by (simp add: ALL_ATTRS_def)

section \<open>The contract of a backend that keeps bodies\<close>

text \<open>How the engine stores a body: an allocation with the body length as the hint, and one extension.\<close>

definition store_body_in :: "'s stevedore \<Rightarrow> objcore \<Rightarrow> u8 list \<Rightarrow> 's \<Rightarrow> 's \<times> (storage_error, unit) result" where
  "store_body_in sv oc body s =
     (case sv_alloc_obj sv oc (of_nat (length body)) s of
        (s', Inl e) \<Rightarrow> (s', Inl e)
      | (s', Inr _) \<Rightarrow> sv_extend sv oc body s')"

datatype store_op = B_Store objcore "u8 list" | B_Free objcore

primrec store_exec :: "'s stevedore \<Rightarrow> 's \<Rightarrow> store_op \<Rightarrow> 's \<times> (storage_error, unit) result" where
  "store_exec sv s (B_Store oc body) = store_body_in sv oc body s"
| "store_exec sv s (B_Free oc) = (sv_free_obj sv oc s, Inr ())"

text \<open>The bodies that a client expects after its calls: a refused store changes nothing.\<close>

definition expect :: "store_op \<times> (storage_error, unit) result \<Rightarrow> (digest \<Rightarrow> u8 list option) \<Rightarrow> digest \<Rightarrow> u8 list option" where
  "expect call m = (case call of
       (B_Store oc body, Inr _) \<Rightarrow> m(oc_digest oc := if body = [] then None else Some body)
     | (B_Store oc body, Inl _) \<Rightarrow> m
     | (B_Free oc, _) \<Rightarrow> m(oc_digest oc := None))"

text \<open>A body whose length fits a \<open>usize\<close>.\<close>

primrec op_fits :: "store_op \<Rightarrow> bool" where
  "op_fits (B_Store oc body) \<longleftrightarrow> length body < 2 ^ 64"
| "op_fits (B_Free oc) \<longleftrightarrow> True"

locale body_store =
  fixes sv :: "'s stevedore" and inv :: "'s \<Rightarrow> bool"
  assumes get_by_digest: "oc_digest oc = oc_digest oc' \<Longrightarrow> sv_get_body sv oc s = sv_get_body sv oc' s"
    and store_inv: "inv s \<Longrightarrow> length body < 2 ^ 64 \<Longrightarrow> store_body_in sv oc body s = (s', r) \<Longrightarrow> inv s'"
    and store_ok: "inv s \<Longrightarrow> length body < 2 ^ 64 \<Longrightarrow> store_body_in sv oc body s = (s', Inr u) \<Longrightarrow>
       sv_get_body sv oc' s' = (if oc_digest oc' = oc_digest oc then (if body = [] then None else Some body)
                                else sv_get_body sv oc' s)"
    and store_refused: "inv s \<Longrightarrow> length body < 2 ^ 64 \<Longrightarrow> store_body_in sv oc body s = (s', Inl e) \<Longrightarrow>
       sv_get_body sv oc' s' = sv_get_body sv oc' s"
    and free_inv: "inv s \<Longrightarrow> inv (sv_free_obj sv oc s)"
    and free_get: "inv s \<Longrightarrow> sv_get_body sv oc' (sv_free_obj sv oc s) =
       (if oc_digest oc' = oc_digest oc then None else sv_get_body sv oc' s)"
begin

definition contents :: "'s \<Rightarrow> digest \<Rightarrow> u8 list option" where
  "contents s d = sv_get_body sv (objcore_new d) s"

lemma get_contents: "sv_get_body sv oc s = contents s (oc_digest oc)"
  unfolding contents_def by (rule get_by_digest) (simp add: objcore_new_def)

lemma step_contents:
  assumes "inv s" "op_fits op" "store_exec sv s op = (s', r)"
  shows "inv s' \<and> contents s' = expect (op, r) (contents s)"
proof (cases op)
  case (B_Store oc body)
  then have sm: "length body < 2 ^ 64" and st: "store_body_in sv oc body s = (s', r)"
    using assms by auto
  show ?thesis
  proof (cases r)
    case (Inl e)
    then show ?thesis
      using store_inv[OF assms(1) sm st] store_refused[OF assms(1) sm, of oc s' e] st B_Store
      by (auto simp: expect_def contents_def fun_eq_iff)
  next
    case (Inr u)
    then show ?thesis
      using store_inv[OF assms(1) sm st] store_ok[OF assms(1) sm, of oc s' u] st B_Store
      by (auto simp: expect_def contents_def fun_eq_iff objcore_new_def)
  qed
next
  case (B_Free oc)
  then show ?thesis
    using assms free_inv[OF assms(1)] free_get[OF assms(1)]
    by (auto simp: expect_def contents_def fun_eq_iff objcore_new_def)
qed

lemma run_contents:
  assumes "inv s" "list_all op_fits ops" "run (store_exec sv) s ops = (s', outs)"
  shows "inv s' \<and> contents s' = fold expect (zip ops outs) (contents s)"
  using assms
proof (induction ops arbitrary: s outs)
  case (Cons op ops)
  obtain s1 r where op: "store_exec sv s op = (s1, r)" by force
  obtain outs' where tl: "run (store_exec sv) s1 ops = (s', outs')" "outs = r # outs'"
    using Cons.prems(3) op by (auto split: prod.splits)
  have st: "inv s1 \<and> contents s1 = expect (op, r) (contents s)"
    by (rule step_contents[OF Cons.prems(1) _ op]) (use Cons.prems(2) in simp)
  from Cons.IH[OF _ _ tl(1)] st Cons.prems(2) tl(2) show ?case by simp
qed simp

end

end
