(* ===== verification/Rust_Words.thy ===== *)
theory Rust_Words
  imports Rust_Str
begin

text \<open>
  Splitting by a string and splitting into words: the operations \<open>split(pat)\<close> and
  \<open>split_whitespace()\<close>, and what they return on texts of words that single spaces separate.
\<close>

section \<open>Splitting by a string\<close>

lemma split_once_shorter: "pat \<noteq> [] \<Longrightarrow> split_once pat s = Some (a, b) \<Longrightarrow> length b < length s"
proof (induction s arbitrary: a)
  case (Cons x xs)
  then show ?case by (cases "prefix pat (x # xs)") (force, fastforce)
qed simp

text \<open>\<open>s.split(pat)\<close> for a non-empty pattern.\<close>

function split_str :: "string \<Rightarrow> string \<Rightarrow> string list" where
  "split_str pat s =
     (if pat = [] then [s]
      else case split_once pat s of None \<Rightarrow> [s] | Some (a, b) \<Rightarrow> a # split_str pat b)"
  by auto
termination
  by (relation "measure (\<lambda>(pat, s). length s)") (auto dest: split_once_shorter)

declare split_str.simps [simp del]

section \<open>Words and spaces\<close>

text \<open>Texts of words that single spaces separate.\<close>

fun unwords :: "string list \<Rightarrow> string" where
  "unwords [] = []"
| "unwords [w] = w"
| "unwords (w # ws) = w @ CHR '' '' # unwords ws"

abbreviation spaced :: "string \<Rightarrow> string" where
  "spaced x \<equiv> CHR '' '' # x @ '' ''"

definition word :: "string \<Rightarrow> bool" where
  "word w \<longleftrightarrow> w \<noteq> [] \<and> CHR '' '' \<notin> set w"

lemma prefix_word_space:
  "CHR '' '' \<notin> set x \<Longrightarrow> CHR '' '' \<notin> set w \<Longrightarrow> prefix (x @ '' '') (w @ CHR '' '' # r) \<longleftrightarrow> x = w"
  by (induction x arbitrary: w) (case_tac w; auto)+

lemma prefix_word_end: "CHR '' '' \<notin> set w \<Longrightarrow> \<not> prefix (x @ '' '') w"
  by (auto simp: prefix_def)

lemma split_once_word:
  "CHR '' '' \<notin> set w \<Longrightarrow> split_once (spaced x) (w @ r) = map_option (\<lambda>(a, b). (w @ a, b)) (split_once (spaced x) r)"
  by (induction w) (auto simp: option.map_comp comp_def map_option_case split: option.splits prod.splits)

lemma unwords_Cons: "ws \<noteq> [] \<Longrightarrow> unwords (w # ws) = w @ CHR '' '' # unwords ws"
  by (cases ws) auto

lemma prefix_unwords:
  assumes "word x" "list_all word ws"
  shows "prefix (x @ '' '') (unwords ws) \<longleftrightarrow> (\<exists>vs. ws = x # vs \<and> vs \<noteq> [])"
proof (cases ws)
  case (Cons w vs)
  show ?thesis
  proof (cases "vs = []")
    case True
    then show ?thesis using Cons assms prefix_word_end[of w x] by (auto simp: word_def)
  next
    case False
    then show ?thesis using Cons assms prefix_word_space[of x w "unwords vs"] by (auto simp: word_def unwords_Cons)
  qed
qed (use assms in \<open>auto simp: word_def\<close>)

lemma split_unwords:
  assumes "word x" "list_all word us" "list_all word vs" "us \<noteq> []" "vs \<noteq> []" "x \<notin> set (tl us)"
  shows "split_once (spaced x) (unwords (us @ x # vs)) = Some (unwords us, unwords vs)"
  using assms
proof (induction us)
  case (Cons u us)
  have u: "CHR '' '' \<notin> set u" using Cons.prems(2) by (simp add: word_def)
  show ?case
  proof (cases "us = []")
    case True
    have "unwords ([u] @ x # vs) = u @ spaced x @ unwords vs" using Cons.prems(5) by (simp add: unwords_Cons)
    then show ?thesis
      unfolding True using split_once_word[OF u, of x "spaced x @ unwords vs"] by simp
  next
    case False
    then obtain v ws where us: "us = v # ws" by (cases us) auto
    have ne: "v \<noteq> x" using Cons.prems(6) us by auto
    have eq: "unwords ((u # us) @ x # vs) = u @ CHR '' '' # unwords (us @ x # vs)" by (simp add: us)
    have "\<not> prefix (x @ '' '') (unwords (us @ x # vs))"
      using prefix_unwords[of x "us @ x # vs"] Cons.prems us ne by auto
    moreover have "split_once (spaced x) (unwords (us @ x # vs)) = Some (unwords us, unwords vs)"
      by (rule Cons.IH) (use Cons.prems False us in auto)
    ultimately show ?thesis
      unfolding eq split_once_word[OF u] using False by (simp add: unwords_Cons)
  qed
qed simp

lemma split_unwords_none:
  assumes "word x" "list_all word us" "x \<notin> set (butlast (tl us))"
  shows "split_once (spaced x) (unwords us) = None"
  using assms
proof (induction us rule: unwords.induct)
  case (2 u)
  then show ?case using split_once_word[of u x "[]"] by (simp add: word_def)
next
  case (3 u v us)
  have u: "CHR '' '' \<notin> set u" using 3 by (simp add: word_def)
  have "\<not> prefix (x @ '' '') (unwords (v # us))"
    using prefix_unwords[of x "v # us"] 3(2-4) by (auto split: if_splits)
  moreover have "split_once (spaced x) (unwords (v # us)) = None"
    by (rule 3(1)) (use 3(2-4) in \<open>auto simp: butlast_tl split: if_splits\<close>)
  ultimately show ?case using split_once_word[OF u, of x "CHR '' '' # unwords (v # us)"] by simp
qed simp

text \<open>Printable words without spaces come back from \<open>split_whitespace\<close>.\<close>

lemma graphic_space [simp]: "\<not> graphic CHR '' ''"
  by (simp add: graphic_def)

definition plain :: "string \<Rightarrow> bool" where
  "plain w \<longleftrightarrow> w \<noteq> [] \<and> list_all graphic w"

lemma split_words_graphic:
  "list_all graphic w \<Longrightarrow> split_words acc (w @ r) = split_words (acc @ w) r"
proof (induction w arbitrary: acc)
  case (Cons c w)
  then have "ws_at WHITESPACE (c # w @ r) = None" by (auto intro: ws_at_graphic dest: whitespace_bytes)
  with Cons show ?case by (simp add: split_words.simps[of acc "c # w @ r"])
qed simp

lemma ws_at_space: "ws_at WHITESPACE (CHR '' '' # r) = Some '' ''"
  by (simp add: ws_at_def WHITESPACE_def)

lemma split_whitespace_unwords: "list_all plain ws \<Longrightarrow> split_whitespace (unwords ws) = ws"
  unfolding split_whitespace_def
proof (induction ws rule: unwords.induct)
  case 1
  then show ?case by (simp add: split_words.simps[of "[]" "[]"])
next
  case (2 w)
  then show ?case using split_words_graphic[of w "[]" "[]"] by (simp add: plain_def split_words.simps[of w "[]"])
next
  case (3 w v ws)
  have "split_words [] (w @ CHR '' '' # unwords (v # ws)) = split_words w (CHR '' '' # unwords (v # ws))"
    using 3(2) split_words_graphic[of w "[]"] by (simp add: plain_def)
  also have "\<dots> = w # split_words [] (unwords (v # ws))"
    using 3(2) by (simp add: split_words.simps[of w "CHR '' '' # unwords (v # ws)"] ws_at_space plain_def)
  finally show ?case using 3 by simp
qed

lemma unwords_ends: "list_all plain ws \<Longrightarrow> ws \<noteq> [] \<Longrightarrow>
  unwords ws \<noteq> [] \<and> graphic (hd (unwords ws)) \<and> graphic (last (unwords ws))"
  by (induction ws rule: unwords.induct) (auto simp: plain_def list_all_iff hd_append last_in_set)

lemma trim_unwords: "list_all plain ws \<Longrightarrow> trim (unwords ws) = unwords ws"
  using unwords_ends[of ws] by (cases "ws = []") (auto intro: trim_graphic)

lemma trim_space: "trim (CHR '' '' # s) = trim s"
  by (simp add: trim_def trim_start_def strip_ws.simps[of WHITESPACE "CHR '' '' # s"] ws_at_space)

section \<open>Joining\<close>

text \<open>Pieces joined by a comma and a space split at the comma; a trimmed piece is the piece.\<close>

fun comma_join :: "string list \<Rightarrow> string" where
  "comma_join [] = []"
| "comma_join [w] = w"
| "comma_join (w # ws) = w @ '', '' @ comma_join ws"

lemma split_comma_join:
  "list_all (\<lambda>w. CHR '','' \<notin> set w) (w # ws) \<Longrightarrow>
   split_char (CHR '','') (comma_join (w # ws)) = w # map ((#) (CHR '' '')) ws"
proof (induction ws arbitrary: w)
  case Nil
  then show ?case by (simp add: split_char_none)
next
  case (Cons v ws)
  have tail: "split_char (CHR '','') (CHR '' '' # comma_join (v # ws)) = (CHR '' '' # v) # map ((#) (CHR '' '')) ws"
    using Cons by simp
  have "split_char (CHR '','') (w @ CHR '','' # CHR '' '' # comma_join (v # ws)) =
      w # split_char (CHR '','') (CHR '' '' # comma_join (v # ws))"
    using Cons.prems by (intro split_char_append) simp
  with tail show ?case by simp
qed

section \<open>Decimal numbers with a fixed number of digits\<close>

definition show2 :: "nat \<Rightarrow> string" where
  "show2 n = [digit_char (n div 10), digit_char (n mod 10)]"

lemma show2_digits: "n < 100 \<Longrightarrow> list_all is_digit (show2 n) \<and> digits_val (show2 n) = n"
  by (simp add: show2_def digits_val_def digit_char_props)

lemma is_digit_plus: "is_digit c \<Longrightarrow> c \<noteq> CHR ''+''"
  by (auto simp: is_digit_def)

lemma parse_u32_digits:
  assumes "ds \<noteq> []" "list_all is_digit ds" "digits_val ds < 2 ^ 32"
  shows "parse_u32 ds = Some (of_nat (digits_val ds))"
proof -
  have "hd ds \<noteq> CHR ''+''" using assms by (cases ds) (auto simp: is_digit_plus)
  then have "strip_prefix ''+'' ds = None" using assms(1) by (cases ds) (auto simp: strip_prefix_def)
  then show ?thesis using assms by (simp add: parse_u32_def parse_uint_def)
qed

lemma parse_u32_show2: "n < 100 \<Longrightarrow> parse_u32 (show2 n) = Some (of_nat n)"
  using show2_digits[of n] parse_u32_digits[of "show2 n"] by (simp add: show2_def)

lemma parse_u32_show_nat: "n < 2 ^ 32 \<Longrightarrow> parse_u32 (show_nat n) = Some (of_nat n)"
  using show_nat_props[of n] parse_u32_digits[of "show_nat n"] by simp

lemma plain_digits: "ds \<noteq> [] \<Longrightarrow> list_all is_digit ds \<Longrightarrow> plain ds"
  by (auto simp: plain_def list_all_iff is_digit_not)

lemma plain_show_nat [simp]: "plain (show_nat n)"
  using show_nat_props[of n] plain_digits by blast

lemma plain_append: "plain a \<Longrightarrow> plain b \<Longrightarrow> plain (a @ b)"
  by (simp add: plain_def)

lemma plain_trim: "plain w \<Longrightarrow> trim w = w"
  by (rule trim_graphic) (auto simp: plain_def list_all_iff)

text \<open>Digits as a floating-point number.\<close>

lemma digits_lower: "list_all is_digit ds \<Longrightarrow> to_ascii_lowercase ds = ds"
  by (induction ds) (auto simp: to_ascii_lowercase_def ascii_lower_def is_digit_def Let_def)

lemma takeWhile_digits: "list_all is_digit ds \<Longrightarrow> takeWhile is_digit ds = ds \<and> dropWhile is_digit ds = []"
  by (induction ds) auto

lemma parse_f64_show_nat:
  assumes "n < 2 ^ 63"
  shows "parse_f64 (show_nat n) = Some (Num (of_nat n))"
proof -
  obtain c cs where s: "show_nat n = c # cs" using show_nat_props[of n] by (cases "show_nat n") auto
  have d: "list_all is_digit (c # cs)" "digits_val (c # cs) = n" using show_nat_props[of n] s by auto
  then have c: "c \<noteq> CHR ''+''" "c \<noteq> CHR ''-''" "c \<noteq> CHR ''i''" "c \<noteq> CHR ''n''"
    by (auto simp: is_digit_def)
  have dec: "parse_decimal (c # cs) = Some (of_nat n)"
    unfolding parse_decimal_def conjunct1[OF takeWhile_digits[OF d(1)]] conjunct2[OF takeWhile_digits[OF d(1)]]
    using d(2) by simp
  have "(of_nat n :: rat) < 2 ^ 63" using assms by (metis of_nat_less_iff of_nat_numeral of_nat_power)
  then have "f_of_exact (of_nat n) = Num (of_nat n)" by (simp add: f_of_exact_def)
  then show ?thesis
    unfolding s parse_f64_def using c dec digits_lower[OF d(1)] by simp
qed

end
