(* ===== verification/Cache_Ban.thy ===== *)
theory Cache_Ban
  imports Stevedore Rust_Words
begin

text \<open>
  \<open>crates/rv-cache/src/error.rs\<close> and \<open>ban.rs\<close>: the errors of the cache engine, and the ban list.
  Regular expressions come from the \<open>regex\<close> crate: their type \<open>'re\<close>, the compilation \<open>re_new\<close> (with
  the text of its error) and the match \<open>is_match\<close> are parameters.
\<close>

section \<open>Errors of the cache engine\<close>

datatype cache_error =
    LookupFailed string | InsertFailed string | StorageErr storage_error | FetchFailed string
  | BanError string | Expired | ObjNotFound | RequestError string

section \<open>Bans\<close>

datatype 're ban_test =
    UrlMatch 're
  | ObjHeaderMatch string 're
  | ObjHeaderEq string string

record 're ban =
  ban_timestamp :: vtim_real
  ban_tests :: "'re ban_test list"
  ban_completed :: bool

primrec test_matches :: "('re \<Rightarrow> string \<Rightarrow> bool) \<Rightarrow> string \<Rightarrow> (string \<Rightarrow> string option) \<Rightarrow> 're ban_test \<Rightarrow> bool" where
  "test_matches is_match url get_header (UrlMatch re) = is_match re url"
| "test_matches is_match url get_header (ObjHeaderMatch h re) =
     (case get_header h of None \<Rightarrow> False | Some v \<Rightarrow> is_match re v)"
| "test_matches is_match url get_header (ObjHeaderEq h value) =
     (case get_header h of None \<Rightarrow> False | Some v \<Rightarrow> v = value)"

definition ban_matches :: "('re \<Rightarrow> string \<Rightarrow> bool) \<Rightarrow> 're ban \<Rightarrow> string \<Rightarrow> (string \<Rightarrow> string option) \<Rightarrow> bool" where
  "ban_matches is_match b url get_header = list_all (test_matches is_match url get_header) (ban_tests b)"

type_synonym 're ban_list = "'re ban list"

section \<open>Parsing\<close>

definition parse_ban_test :: "(string \<Rightarrow> (string, 're) result) \<Rightarrow> string \<Rightarrow> (cache_error, 're ban_test) result" where
  "parse_ban_test re_new part0 =
     (let part = trim part0 in
      case strip_prefix ''req.url ~ '' part of
        Some rest \<Rightarrow>
          (case re_new (trim rest) of
             Inl e \<Rightarrow> Inl (BanError (''invalid regex: '' @ e))
           | Inr re \<Rightarrow> Inr (UrlMatch re))
      | None \<Rightarrow>
          (case strip_prefix ''obj.http.'' part of
             Some rest \<Rightarrow>
               (case split_once '' ~ '' rest of
                  Some (h, pattern) \<Rightarrow>
                    (case re_new (trim pattern) of
                       Inl e \<Rightarrow> Inl (BanError (''invalid regex: '' @ e))
                     | Inr re \<Rightarrow> Inr (ObjHeaderMatch (trim h) re))
                | None \<Rightarrow>
                    (case split_once '' == '' rest of
                       Some (h, value) \<Rightarrow> Inr (ObjHeaderEq (trim h) (trim value))
                     | None \<Rightarrow> Inl (BanError (''invalid ban test: '' @ part))))
           | None \<Rightarrow> Inl (BanError (''unknown ban field: '' @ part))))"

fun parse_ban_tests :: "(string \<Rightarrow> (string, 're) result) \<Rightarrow> string list \<Rightarrow> (cache_error, 're ban_test list) result" where
  "parse_ban_tests re_new [] = Inr []"
| "parse_ban_tests re_new (part # parts) =
     (case parse_ban_test re_new part of
        Inl e \<Rightarrow> Inl e
      | Inr t \<Rightarrow> (case parse_ban_tests re_new parts of Inl e \<Rightarrow> Inl e | Inr ts \<Rightarrow> Inr (t # ts)))"

definition parse_ban_expression :: "(string \<Rightarrow> (string, 're) result) \<Rightarrow> vtim_real \<Rightarrow> string \<Rightarrow> (cache_error, 're ban) result" where
  "parse_ban_expression re_new now expr =
     (case parse_ban_tests re_new (split_str '' && '' expr) of
        Inl e \<Rightarrow> Inl e
      | Inr tests \<Rightarrow>
          (if tests = [] then Inl (BanError ''empty ban expression'')
           else Inr \<lparr>ban_timestamp = now, ban_tests = tests, ban_completed = False\<rparr>))"

section \<open>The ban list\<close>

definition add_ban :: "(string \<Rightarrow> (string, 're) result) \<Rightarrow> vtim_real \<Rightarrow> string \<Rightarrow> 're ban_list \<Rightarrow> (cache_error, 're ban_list) result" where
  "add_ban re_new now expr bans =
     (case parse_ban_expression re_new now expr of Inl e \<Rightarrow> Inl e | Inr b \<Rightarrow> Inr (bans @ [b]))"

definition ban_list_add :: "'re ban \<Rightarrow> 're ban_list \<Rightarrow> 're ban_list" where
  "ban_list_add b bans = bans @ [b]"

definition is_banned :: "('re \<Rightarrow> string \<Rightarrow> bool) \<Rightarrow> 're ban_list \<Rightarrow> objcore \<Rightarrow> string \<Rightarrow> (string \<Rightarrow> string option) \<Rightarrow> bool" where
  "is_banned is_match bans oc url get_header =
     list_ex (\<lambda>b. f_gt (ban_timestamp b) (t_origin oc) \<and> ban_matches is_match b url get_header) bans"

definition lurker_work :: "vtim_real \<Rightarrow> 're ban_list \<Rightarrow> 're ban_list" where
  "lurker_work oldest bans = filter (\<lambda>b. f_ge (ban_timestamp b) oldest \<or> \<not> ban_completed b) bans"

definition mark_completed :: "'re ban_list \<Rightarrow> 're ban_list" where
  "mark_completed bans = map (\<lambda>b. b\<lparr>ban_completed := True\<rparr>) bans"

definition ban_list_len :: "'re ban_list \<Rightarrow> nat" where
  "ban_list_len bans = length bans"

section \<open>The lurker forgets only dead bans\<close>

lemma lurker_keeps:
  assumes "f_ge (t_origin oc) oldest"
  shows "is_banned is_match (lurker_work oldest bans) oc url get_header = is_banned is_match bans oc url get_header"
proof -
  have "f_ge (ban_timestamp b) oldest" if "f_gt (ban_timestamp b) (t_origin oc)" for b :: "'re ban"
    using assms that by (cases "ban_timestamp b"; cases "t_origin oc"; cases oldest) (auto simp: f_le_def f_eq_def)
  then show ?thesis
    unfolding is_banned_def lurker_work_def list_ex_iff by auto
qed

lemma completed_irrelevant:
  "is_banned is_match (mark_completed bans) oc url get_header = is_banned is_match bans oc url get_header"
  by (auto simp: is_banned_def mark_completed_def list_ex_iff ban_matches_def)

datatype 're ban_op = BO_Add "'re ban" | BO_Mark | BO_Lurk vtim_real

primrec ban_exec :: "'re ban_list \<Rightarrow> 're ban_op \<Rightarrow> 're ban_list \<times> unit" where
  "ban_exec bans (BO_Add b) = (ban_list_add b bans, ())"
| "ban_exec bans BO_Mark = (mark_completed bans, ())"
| "ban_exec bans (BO_Lurk oldest) = (lurker_work oldest bans, ())"

text \<open>All bans that were ever added, with no lurker.\<close>

definition added_bans :: "'re ban_op list \<Rightarrow> 're ban_list" where
  "added_bans ops = concat (map (\<lambda>op. case op of BO_Add b \<Rightarrow> [b] | _ \<Rightarrow> []) ops)"

definition lurks_below :: "vtim_real \<Rightarrow> 're ban_op \<Rightarrow> bool" where
  "lurks_below t op = (case op of BO_Lurk oldest \<Rightarrow> f_le oldest t | _ \<Rightarrow> True)"

text \<open>
  C17: The ban lurker never frees an object from a ban: whatever bans are added and however often the
  lurker marks and drops bans, as long as it is told an oldest time that is not later than the object's
  origin, the object is banned exactly when one of all the bans ever added is newer than it and matches.
\<close>

theorem lurker_preserves_bans:
  assumes "list_all (lurks_below (t_origin oc)) ops"
  shows "is_banned is_match (fst (run ban_exec [] ops)) oc url get_header = is_banned is_match (added_bans ops) oc url get_header"
proof -
  have app: "is_banned is_match (xs @ ys) oc url get_header \<longleftrightarrow>
      is_banned is_match xs oc url get_header \<or> is_banned is_match ys oc url get_header" for xs ys
    by (auto simp: is_banned_def list_ex_iff)
  have "is_banned is_match (fst (run ban_exec bans ops)) oc url get_header \<longleftrightarrow>
      is_banned is_match bans oc url get_header \<or> is_banned is_match (added_bans ops) oc url get_header" for bans
    using assms
  proof (induction ops arbitrary: bans)
    case Nil
    then show ?case by (simp add: added_bans_def is_banned_def)
  next
    case (Cons op ops)
    have split: "added_bans (op # ops) = added_bans [op] @ added_bans ops" by (simp add: added_bans_def)
    have "is_banned is_match (fst (ban_exec bans op)) oc url get_header \<longleftrightarrow>
        is_banned is_match bans oc url get_header \<or> is_banned is_match (added_bans [op]) oc url get_header"
    proof (cases op)
      case (BO_Add b)
      then show ?thesis by (simp add: ban_list_add_def app added_bans_def)
    next
      case BO_Mark
      then show ?thesis by (simp add: completed_irrelevant added_bans_def) (simp add: is_banned_def)
    next
      case (BO_Lurk oldest)
      with Cons.prems show ?thesis
        by (simp add: lurks_below_def lurker_keeps added_bans_def) (simp add: is_banned_def)
    qed
    with Cons.IH[of "fst (ban_exec bans op)"] Cons.prems show ?case
      by (simp add: split app split_beta)
  qed
  then show ?thesis by (simp add: is_banned_def)
qed

theorem lurker_preserves_bans_witness:
  "is_banned (\<lambda>p u. prefix p u) (fst (run ban_exec []
       [BO_Add \<lparr>ban_timestamp = Num 20, ban_tests = [UrlMatch ''/a'', ObjHeaderEq ''X'' ''1''], ban_completed = False\<rparr>,
        BO_Mark, BO_Lurk (Num 5)]))
     ((objcore_new (make_digest 1))\<lparr>t_origin := Num 10\<rparr>) ''/a/b'' (\<lambda>h. if h = ''X'' then Some ''1'' else None)"
proof -
  let ?ops = "[BO_Add \<lparr>ban_timestamp = Num 20, ban_tests = [UrlMatch ''/a'', ObjHeaderEq ''X'' ''1''], ban_completed = False\<rparr>,
        BO_Mark, BO_Lurk (Num 5)]"
  have ok: "list_all (lurks_below (t_origin ((objcore_new (make_digest 1))\<lparr>t_origin := Num 10\<rparr>))) ?ops"
    by (simp add: lurks_below_def)
  show ?thesis
    unfolding lurker_preserves_bans[OF ok] by (simp add: added_bans_def is_banned_def ban_matches_def)
qed

section \<open>Ban expressions read back\<close>

text \<open>A test with the text of its pattern, and the expression that the administrator writes for it.\<close>

primrec show_ban_test :: "string ban_test \<Rightarrow> string" where
  "show_ban_test (UrlMatch p) = ''req.url ~ '' @ p"
| "show_ban_test (ObjHeaderMatch h p) = ''obj.http.'' @ h @ '' ~ '' @ p"
| "show_ban_test (ObjHeaderEq h v) = ''obj.http.'' @ h @ '' == '' @ v"

fun show_ban :: "string ban_test list \<Rightarrow> string" where
  "show_ban [] = []"
| "show_ban [t] = show_ban_test t"
| "show_ban (t # ts) = show_ban_test t @ '' && '' @ show_ban ts"

text \<open>The words of a test: printable without spaces, not empty, and not the conjunction itself.\<close>

definition ban_word :: "string \<Rightarrow> bool" where
  "ban_word w \<longleftrightarrow> w \<noteq> [] \<and> list_all graphic w \<and> w \<noteq> ''&&''"

primrec ban_test_ok :: "string ban_test \<Rightarrow> bool" where
  "ban_test_ok (UrlMatch p) \<longleftrightarrow> ban_word p"
| "ban_test_ok (ObjHeaderMatch h p) \<longleftrightarrow> ban_word h \<and> ban_word p"
| "ban_test_ok (ObjHeaderEq h v) \<longleftrightarrow> ban_word h \<and> ban_word v"

lemma trim_word: "ban_word w \<Longrightarrow> trim w = w"
  by (rule trim_graphic) (auto simp: ban_word_def list_all_iff)

lemma ban_word_word: "ban_word w \<Longrightarrow> word w \<and> w \<noteq> ''&&''"
  by (auto simp: ban_word_def word_def list_all_iff)

primrec ban_words :: "string ban_test \<Rightarrow> string list" where
  "ban_words (UrlMatch p) = [''req.url'', ''~'', p]"
| "ban_words (ObjHeaderMatch h p) = [''obj.http.'' @ h, ''~'', p]"
| "ban_words (ObjHeaderEq h v) = [''obj.http.'' @ h, ''=='', v]"

lemma show_ban_test_words: "show_ban_test t = unwords (ban_words t)"
  by (cases t) simp_all

lemma ban_words_ok: "ban_test_ok t \<Longrightarrow> list_all word (ban_words t) \<and> ''&&'' \<notin> set (tl (ban_words t)) \<and> ban_words t \<noteq> []"
  by (cases t) (auto simp: word_def dest: ban_word_word)

lemma word_op [simp]: "word ''&&''" "word ''~''" "word ''==''"
  by (simp_all add: word_def)

lemma show_ban_words:
  "ts \<noteq> [] \<Longrightarrow> \<exists>ws. ws \<noteq> [] \<and> (list_all ban_test_ok ts \<longrightarrow> list_all word ws) \<and> show_ban ts = unwords ws"
proof (induction ts rule: show_ban.induct)
  case (2 t)
  have "ban_words t \<noteq> []" by (cases t) auto
  then show ?case by (intro exI[of _ "ban_words t"]) (auto simp: show_ban_test_words dest: ban_words_ok)
next
  case (3 t u us)
  then obtain ws where ws: "ws \<noteq> []" "list_all ban_test_ok (u # us) \<longrightarrow> list_all word ws" "show_ban (u # us) = unwords ws" by blast
  have "unwords (as @ ''&&'' # ws) = unwords as @ '' && '' @ unwords ws" if "as \<noteq> []" for as
    using that ws(1) by (induction as rule: unwords.induct) (simp_all add: unwords_Cons)
  moreover have "ban_words t \<noteq> []" by (cases t) auto
  ultimately show ?case
    using ws by (intro exI[of _ "ban_words t @ ''&&'' # ws"]) (auto simp: show_ban_test_words dest: ban_words_ok)
qed simp

lemma split_show_ban:
  assumes "list_all ban_test_ok ts" "ts \<noteq> []"
  shows "split_str '' && '' (show_ban ts) = map show_ban_test ts"
  using assms
proof (induction ts rule: show_ban.induct)
  case (2 t)
  have "split_once (spaced ''&&'') (unwords (ban_words t)) = None"
    using ban_words_ok[of t] 2 by (intro split_unwords_none) (auto simp: word_def dest: in_set_butlastD)
  then show ?case by (simp add: split_str.simps[of "'' && ''"] show_ban_test_words)
next
  case (3 t u us)
  obtain ws where ws: "ws \<noteq> []" "list_all word ws" "show_ban (u # us) = unwords ws"
    using show_ban_words[of "u # us"] 3(2) by auto
  have bw: "list_all word (ban_words t)" "''&&'' \<notin> set (tl (ban_words t))" "ban_words t \<noteq> []"
    using ban_words_ok[of t] 3(2) by auto
  have join: "unwords (as @ ''&&'' # ws) = unwords as @ '' && '' @ unwords ws" if "as \<noteq> []" for as
    using that ws(1) by (induction as rule: unwords.induct) (simp_all add: unwords_Cons)
  have "split_once (spaced ''&&'') (unwords (ban_words t @ ''&&'' # ws)) = Some (unwords (ban_words t), unwords ws)"
    by (rule split_unwords) (use bw ws in \<open>auto simp: word_def\<close>)
  then have "split_once '' && '' (show_ban (t # u # us)) = Some (show_ban_test t, show_ban (u # us))"
    using join[OF bw(3)] ws(3) by (simp add: show_ban_test_words)
  then have "split_str '' && '' (show_ban (t # u # us)) = show_ban_test t # split_str '' && '' (show_ban (u # us))"
    by (subst split_str.simps) (simp del: show_ban.simps)
  then show ?case using 3(1,2) by (simp del: show_ban.simps)
qed simp

lemma trim_show_test: "ban_test_ok t \<Longrightarrow> trim (show_ban_test t) = show_ban_test t"
  by (rule trim_graphic) (cases t; auto simp: ban_word_def list_all_iff; simp add: graphic_def)

lemma parse_show_test:
  assumes ok: "ban_test_ok t" and re: "\<forall>p \<in> set_ban_test t. re_new p = Inr (compile p)"
  shows "parse_ban_test re_new (show_ban_test t) = Inr (map_ban_test compile t)"
proof (cases t)
  case (UrlMatch p)
  then show ?thesis
    using trim_show_test[OF ok] trim_word[of p] ok re by (simp add: parse_ban_test_def strip_prefix_def)
next
  case (ObjHeaderMatch h p)
  have w: "word h" "word p" using ok ObjHeaderMatch by (auto dest: ban_word_word)
  have "split_once '' ~ '' (h @ '' ~ '' @ p) = Some (h, p)"
    using split_unwords[of "''~''" "[h]" "[p]"] w by simp
  then show ?thesis
    using trim_show_test[OF ok] trim_word[of p] trim_word[of h] ok re ObjHeaderMatch by (simp add: parse_ban_test_def strip_prefix_def)
next
  case (ObjHeaderEq h v)
  have w: "word h" "word v" using ok ObjHeaderEq by (auto dest: ban_word_word)
  have "split_once '' ~ '' (h @ '' == '' @ v) = None"
    using split_unwords_none[of "''~''" "[h, ''=='', v]"] w by simp
  moreover have "split_once '' == '' (h @ '' == '' @ v) = Some (h, v)"
    using split_unwords[of "''==''" "[h]" "[v]"] w by simp
  ultimately show ?thesis
    using trim_show_test[OF ok] trim_word[of v] trim_word[of h] ok ObjHeaderEq by (simp add: parse_ban_test_def strip_prefix_def)
qed



end
