(* ===== verification/Storage_Malloc.thy ===== *)
theory Storage_Malloc
  imports Stevedore
begin

text \<open>
  \<open>crates/rv-storage/src/malloc.rs\<close>: the heap storage backend, which tracks attributes and the
  space of each object by digest; bodies live in the \<open>ObjCore\<close>.  The reservation loop of
  \<open>try_reserve\<close> is one atomic step, the compare-and-swap that succeeds.
\<close>

section \<open>State and operations\<close>

record stored_object =
  so_attrs :: "obj_attr \<Rightarrow> u8 list option"
  so_body_size :: usize

text \<open>The sizes of the Rust types on a 64-bit platform: a hash map of six words and a \<open>usize\<close>.\<close>

definition SIZE_OF_STORED_OBJECT :: usize where
  "SIZE_OF_STORED_OBJECT = 56"

definition SIZE_OF_OBJ_ATTR :: usize where
  "SIZE_OF_OBJ_ATTR = 1"

definition stored_object_new :: stored_object where
  "stored_object_new = \<lparr>so_attrs = Map.empty, so_body_size = 0\<rparr>"

definition attr_size :: "(obj_attr \<Rightarrow> u8 list option) \<Rightarrow> usize" where
  "attr_size attrs = sum_list (map (\<lambda>a. case attrs a of None \<Rightarrow> 0 | Some v \<Rightarrow> of_nat (length v) + SIZE_OF_OBJ_ATTR) ALL_ATTRS)"

definition stored_object_size :: "stored_object \<Rightarrow> usize" where
  "stored_object_size so = so_body_size so + attr_size (so_attrs so) + SIZE_OF_STORED_OBJECT"

record malloc_stevedore =
  ms_name :: string
  ms_max_size :: usize
  ms_used :: usize
  ms_objects :: "digest \<Rightarrow> stored_object option"
  ms_open :: bool

definition malloc_new :: "string \<Rightarrow> usize \<Rightarrow> malloc_stevedore" where
  "malloc_new name limit = \<lparr>ms_name = name, ms_max_size = limit, ms_used = 0, ms_objects = Map.empty, ms_open = False\<rparr>"

definition malloc_object_count :: "malloc_stevedore \<Rightarrow> nat" where
  "malloc_object_count s = card (dom (ms_objects s))"

text \<open>\<open>checked_add\<close> refuses a sum that does not fit the word.\<close>

definition try_reserve :: "usize \<Rightarrow> malloc_stevedore \<Rightarrow> malloc_stevedore \<times> (storage_error, unit) result" where
  "try_reserve additional s =
     (if unat (ms_used s) + unat additional \<ge> 2 ^ 64 then (s, Inl Full)
      else let new_val = ms_used s + additional in
           if new_val > ms_max_size s then (s, Inl Full)
           else (s\<lparr>ms_used := new_val\<rparr>, Inr ()))"

definition release :: "usize \<Rightarrow> malloc_stevedore \<Rightarrow> malloc_stevedore" where
  "release amount s = s\<lparr>ms_used := ms_used s - amount\<rparr>"

definition malloc_open :: "malloc_stevedore \<Rightarrow> malloc_stevedore" where
  "malloc_open s = s\<lparr>ms_open := True\<rparr>"

definition malloc_close :: "malloc_stevedore \<Rightarrow> malloc_stevedore" where
  "malloc_close s = s\<lparr>ms_open := False, ms_objects := Map.empty, ms_used := 0\<rparr>"

definition malloc_alloc_obj :: "objcore \<Rightarrow> usize \<Rightarrow> malloc_stevedore \<Rightarrow> malloc_stevedore \<times> (storage_error, unit) result" where
  "malloc_alloc_obj oc size_hint s =
     (let reserve = size_hint + SIZE_OF_STORED_OBJECT in
      case try_reserve reserve s of
        (s', Inl e) \<Rightarrow> (s', Inl e)
      | (s', Inr _) \<Rightarrow> (s'\<lparr>ms_objects := (ms_objects s')(oc_digest oc \<mapsto> stored_object_new)\<rparr>, Inr ()))"

definition malloc_free_obj :: "objcore \<Rightarrow> malloc_stevedore \<Rightarrow> malloc_stevedore" where
  "malloc_free_obj oc s =
     (case ms_objects s (oc_digest oc) of
        None \<Rightarrow> s
      | Some obj \<Rightarrow> release (stored_object_size obj) (s\<lparr>ms_objects := (ms_objects s)(oc_digest oc := None)\<rparr>))"

definition malloc_get_space :: "objcore \<Rightarrow> usize \<Rightarrow> malloc_stevedore \<Rightarrow> malloc_stevedore \<times> (storage_error, u8 list) result" where
  "malloc_get_space oc desired s =
     (case try_reserve desired s of (s', Inl e) \<Rightarrow> (s', Inl e) | (s', Inr _) \<Rightarrow> (s', Inr []))"

definition malloc_extend :: "objcore \<Rightarrow> u8 list \<Rightarrow> malloc_stevedore \<Rightarrow> malloc_stevedore \<times> (storage_error, unit) result" where
  "malloc_extend oc data s =
     (case ms_objects s (oc_digest oc) of
        None \<Rightarrow> (s, Inl NotFound)
      | Some entry \<Rightarrow>
          (s\<lparr>ms_objects := (ms_objects s)(oc_digest oc \<mapsto> entry\<lparr>so_body_size := so_body_size entry + of_nat (length data)\<rparr>)\<rparr>, Inr ()))"

definition malloc_get_attr :: "objcore \<Rightarrow> obj_attr \<Rightarrow> malloc_stevedore \<Rightarrow> u8 list option" where
  "malloc_get_attr oc attr s = (case ms_objects s (oc_digest oc) of None \<Rightarrow> None | Some entry \<Rightarrow> so_attrs entry attr)"

definition malloc_set_attr :: "objcore \<Rightarrow> obj_attr \<Rightarrow> u8 list \<Rightarrow> malloc_stevedore \<Rightarrow> malloc_stevedore \<times> (storage_error, unit) result" where
  "malloc_set_attr oc attr data s =
     (case ms_objects s (oc_digest oc) of
        None \<Rightarrow> (s, Inl NotFound)
      | Some entry \<Rightarrow>
          (let old_size = (case so_attrs entry attr of None \<Rightarrow> 0 | Some v \<Rightarrow> length v);
               new_size = length data in
           case (if new_size > old_size then try_reserve (of_nat (new_size - old_size)) s
                 else (release (of_nat (old_size - new_size)) s, Inr ())) of
             (s', Inl e) \<Rightarrow> (s', Inl e)
           | (s', Inr _) \<Rightarrow>
               (s'\<lparr>ms_objects := (ms_objects s')(oc_digest oc \<mapsto> entry\<lparr>so_attrs := (so_attrs entry)(attr \<mapsto> data)\<rparr>)\<rparr>, Inr ())))"

definition malloc_get_body :: "objcore \<Rightarrow> malloc_stevedore \<Rightarrow> u8 list option" where
  "malloc_get_body oc s = (case ms_objects s (oc_digest oc) of None \<Rightarrow> None | Some _ \<Rightarrow> get_body oc)"

definition malloc_free_space :: "malloc_stevedore \<Rightarrow> usize" where
  "malloc_free_space s = (if ms_used s \<le> ms_max_size s then ms_max_size s - ms_used s else 0)"

definition malloc_vtable :: "malloc_stevedore stevedore" where
  "malloc_vtable = \<lparr>sv_alloc_obj = malloc_alloc_obj, sv_free_obj = malloc_free_obj, sv_get_space = malloc_get_space,
     sv_extend = malloc_extend, sv_trim = (\<lambda>oc s. s), sv_get_attr = malloc_get_attr, sv_set_attr = malloc_set_attr,
     sv_get_body = malloc_get_body, sv_total_space = ms_max_size, sv_used_space = ms_used,
     sv_free_space = malloc_free_space\<rparr>"

section \<open>Space accounting\<close>

text \<open>
  The engine allocates an object with its body length as the hint, extends it by the whole body, and
  frees it by digest.  \<open>M_Store\<close> is this pair of calls.
\<close>

datatype malloc_op = M_Store objcore "u8 list" | M_Free objcore

fun malloc_exec :: "malloc_stevedore \<Rightarrow> malloc_op \<Rightarrow> malloc_stevedore \<times> (storage_error, unit) result" where
  "malloc_exec s (M_Store oc body) =
     (case malloc_alloc_obj oc (of_nat (length body)) s of
        (s', Inl e) \<Rightarrow> (s', Inl e)
      | (s', Inr _) \<Rightarrow> malloc_extend oc body s')"
| "malloc_exec s (M_Free oc) = (malloc_free_obj oc s, Inr ())"

text \<open>
  The specification: the length of the body stored last for each digest, and the bytes that belong to
  no object any more because a later store for the same digest replaced theirs.
\<close>

record malloc_ledger =
  led_sizes :: "digest \<Rightarrow> nat option"
  led_lost :: nat

definition object_bytes :: "nat \<Rightarrow> nat" where
  "object_bytes n = n + unat SIZE_OF_STORED_OBJECT"

definition ledger_total :: "malloc_ledger \<Rightarrow> nat" where
  "ledger_total l = (\<Sum>d \<in> dom (led_sizes l). object_bytes (the (led_sizes l d))) + led_lost l"

fun ledger_step :: "nat \<Rightarrow> malloc_ledger \<Rightarrow> malloc_op \<Rightarrow> malloc_ledger \<times> (storage_error, unit) result" where
  "ledger_step limit l (M_Store oc body) =
     (if ledger_total l + object_bytes (length body) > limit then (l, Inl Full)
      else (l\<lparr>led_sizes := (led_sizes l)(oc_digest oc \<mapsto> length body),
              led_lost := led_lost l + (case led_sizes l (oc_digest oc) of None \<Rightarrow> 0 | Some n \<Rightarrow> object_bytes n)\<rparr>, Inr ()))"
| "ledger_step limit l (M_Free oc) = (l\<lparr>led_sizes := (led_sizes l)(oc_digest oc := None)\<rparr>, Inr ())"

text \<open>The stored objects are those of the ledger and the counter is its total.\<close>

definition malloc_repr :: "malloc_stevedore \<Rightarrow> malloc_ledger \<Rightarrow> bool" where
  "malloc_repr s l \<longleftrightarrow> finite (dom (led_sizes l)) \<and>
     ms_objects s = (\<lambda>d. map_option (\<lambda>n. \<lparr>so_attrs = Map.empty, so_body_size = of_nat n\<rparr>) (led_sizes l d)) \<and>
     unat (ms_used s) = ledger_total l \<and> ledger_total l \<le> unat (ms_max_size s)"

lemma ledger_total_store:
  assumes "finite (dom (led_sizes l))"
  shows "ledger_total (l\<lparr>led_sizes := (led_sizes l)(d \<mapsto> n), led_lost := led_lost l +
            (case led_sizes l d of None \<Rightarrow> 0 | Some k \<Rightarrow> object_bytes k)\<rparr>) = ledger_total l + object_bytes n"
proof -
  let ?f = "\<lambda>m d. object_bytes (the (m d))" let ?m = "led_sizes l"
  have "sum (?f (?m(d \<mapsto> n))) (dom ?m - {d}) = sum (?f ?m) (dom ?m - {d})"
    by (rule sum.cong) auto
  moreover have "sum (?f (?m(d \<mapsto> n))) (insert d (dom ?m)) = object_bytes n + sum (?f (?m(d \<mapsto> n))) (dom ?m - {d})"
    using assms by (simp add: sum.insert_remove)
  moreover have "sum (?f ?m) (dom ?m) + led_lost l = sum (?f ?m) (dom ?m - {d}) +
      (led_lost l + (case ?m d of None \<Rightarrow> 0 | Some k \<Rightarrow> object_bytes k))"
  proof (cases "?m d")
    case None
    then have "dom ?m - {d} = dom ?m" by auto
    with None show ?thesis by simp
  next
    case (Some k)
    then show ?thesis using assms by (simp add: sum.remove[of "dom ?m" d] domI)
  qed
  ultimately show ?thesis by (simp add: ledger_total_def)
qed

lemma ledger_total_free:
  assumes "finite (dom (led_sizes l))" "led_sizes l d = Some n"
  shows "ledger_total l = ledger_total (l\<lparr>led_sizes := (led_sizes l)(d := None)\<rparr>) + object_bytes n"
proof -
  let ?m = "led_sizes l"
  have "(\<Sum>x \<in> dom ?m - {d}. object_bytes (the ((?m(d := None)) x))) = (\<Sum>x \<in> dom ?m - {d}. object_bytes (the (?m x)))"
    by (rule sum.cong) auto
  then show ?thesis using assms by (simp add: ledger_total_def sum.remove[of "dom ?m" d] domI)
qed

lemma size_plain [simp]:
  "stored_object_size \<lparr>so_attrs = Map.empty, so_body_size = of_nat n\<rparr> = of_nat (object_bytes n)"
  by (simp add: stored_object_size_def attr_size_def object_bytes_def sum_list_0 SIZE_OF_STORED_OBJECT_def)

lemma malloc_store_simulates:
  assumes "malloc_repr s l" "object_bytes (length body) < 2 ^ 64"
  shows "malloc_repr (fst (malloc_exec s (M_Store oc body))) (fst (ledger_step (unat (ms_max_size s)) l (M_Store oc body))) \<and>
     snd (malloc_exec s (M_Store oc body)) = snd (ledger_step (unat (ms_max_size s)) l (M_Store oc body))"
proof -
  let ?n = "object_bytes (length body)"
  let ?r = "of_nat (length body) + SIZE_OF_STORED_OBJECT"
  have r: "unat ?r = ?n"
  proof -
    have "?r = of_nat ?n" by (simp add: object_bytes_def SIZE_OF_STORED_OBJECT_def)
    then show ?thesis using assms(2) by (simp add: unat_of_nat64)
  qed
  have used: "unat (ms_used s) = ledger_total l" using assms(1) by (simp add: malloc_repr_def)
  show ?thesis
  proof (cases "ledger_total l + ?n > unat (ms_max_size s)")
    case True
    have "try_reserve ?r s = (s, Inl Full)"
    proof (cases "unat (ms_used s) + unat ?r \<ge> 2 ^ 64")
      case False
      then have "unat (ms_used s + ?r) = ledger_total l + ?n"
        using r used by (simp add: unat_add64)
      then have "ms_used s + ?r > ms_max_size s" using True by (simp add: word_less_nat_alt)
      with False show ?thesis by (simp add: try_reserve_def)
    qed (simp add: try_reserve_def)
    with True assms(1) show ?thesis by (simp add: malloc_alloc_obj_def)
  next
    case False
    have lt: "unat (ms_used s) + unat ?r < 2 ^ 64"
      using False r used unat_word64_less[of "ms_max_size s"] by simp
    then have sum: "unat (ms_used s + ?r) = ledger_total l + ?n"
      using r used by (simp add: unat_add64)
    have "\<not> ms_used s + ?r > ms_max_size s" using False sum by (simp add: word_less_nat_alt)
    then have tr: "try_reserve ?r s = (s\<lparr>ms_used := ms_used s + ?r\<rparr>, Inr ())"
      using lt by (simp add: try_reserve_def)
    have fin: "finite (dom (led_sizes l))" using assms(1) by (simp add: malloc_repr_def)
    show ?thesis
      using False assms(1) sum ledger_total_store[OF fin, of "oc_digest oc" "length body"]
      by (auto simp: malloc_alloc_obj_def tr malloc_extend_def malloc_repr_def stored_object_new_def fun_eq_iff)
  qed
qed

lemma malloc_free_simulates:
  assumes "malloc_repr s l"
  shows "malloc_repr (malloc_free_obj oc s) (l\<lparr>led_sizes := (led_sizes l)(oc_digest oc := None)\<rparr>)"
proof (cases "led_sizes l (oc_digest oc)")
  case None
  then have "(led_sizes l)(oc_digest oc := None) = led_sizes l" by (simp add: fun_upd_idem)
  with None assms show ?thesis by (simp add: malloc_free_obj_def malloc_repr_def)
next
  case (Some n)
  have fin: "finite (dom (led_sizes l))" using assms by (simp add: malloc_repr_def)
  let ?l = "l\<lparr>led_sizes := (led_sizes l)(oc_digest oc := None)\<rparr>"
  have tot: "ledger_total l = ledger_total ?l + object_bytes n" by (rule ledger_total_free[OF fin Some])
  have used: "unat (ms_used s) = ledger_total l" and le: "ledger_total l \<le> unat (ms_max_size s)"
    using assms by (simp_all add: malloc_repr_def)
  have "ms_used s = of_nat (ledger_total l)" using used by (metis of_nat_unat64)
  then have "ms_used s - of_nat (object_bytes n) = of_nat (ledger_total ?l)" by (simp add: tot)
  moreover have "ledger_total ?l < 2 ^ 64" using tot le unat_word64_less[of "ms_max_size s"] by linarith
  ultimately have "unat (ms_used s - of_nat (object_bytes n)) = ledger_total ?l"
    by (simp add: unat_of_nat64)
  with Some assms tot le show ?thesis
    by (auto simp: malloc_free_obj_def malloc_repr_def release_def fun_eq_iff)
qed


lemma malloc_exec_max_size: "ms_max_size (fst (malloc_exec s op)) = ms_max_size s"
  by (cases op)
    (auto simp: malloc_alloc_obj_def try_reserve_def malloc_extend_def malloc_free_obj_def release_def Let_def
      split: option.splits if_splits)

definition body_fits :: "malloc_op \<Rightarrow> bool" where
  "body_fits op = (case op of M_Store oc body \<Rightarrow> object_bytes (length body) < 2 ^ 64 | M_Free oc \<Rightarrow> True)"

lemma malloc_exec_simulates:
  assumes "malloc_repr s l \<and> ms_max_size s = limit" "body_fits op"
  shows "(malloc_repr (fst (malloc_exec s op)) (fst (ledger_step (unat limit) l op)) \<and>
           ms_max_size (fst (malloc_exec s op)) = limit) \<and>
         snd (ledger_step (unat limit) l op) = id (snd (malloc_exec s op))"
proof (cases op)
  case (M_Store oc body)
  then show ?thesis
    using malloc_store_simulates[of s l body oc] assms malloc_exec_max_size[of s op]
    by (simp add: body_fits_def del: malloc_exec.simps ledger_step.simps)
next
  case (M_Free oc)
  then show ?thesis using malloc_free_simulates[of s l oc] assms malloc_exec_max_size[of s op] by simp
qed

text \<open>
  C21: For every sequence of stores and frees, the malloc backend accepts and refuses exactly as the
  ledger does and its counter is the ledger's total, which never exceeds the configured size and
  never wraps.  The ledger also says what is never given back: the bytes of an object whose digest
  was stored again before it was freed.
\<close>

theorem malloc_accounting:
  assumes "run malloc_exec (malloc_new name limit) ops = (s, outs)" "list_all body_fits ops"
    and "run (ledger_step (unat limit)) \<lparr>led_sizes = Map.empty, led_lost = 0\<rparr> ops = (l, outs')"
  shows "outs = outs' \<and> unat (ms_used s) = ledger_total l \<and> ledger_total l \<le> unat limit \<and>
         (\<forall>d. (ms_objects s d = None) = (led_sizes l d = None))"
proof -
  let ?l0 = "\<lparr>led_sizes = Map.empty, led_lost = 0\<rparr>"
  have "malloc_repr (malloc_new name limit) ?l0 \<and> ms_max_size (malloc_new name limit) = limit"
    by (simp add: malloc_repr_def malloc_new_def ledger_total_def)
  from run_simulation[where R = "\<lambda>s l. malloc_repr s l \<and> ms_max_size s = limit" and f = malloc_exec and
      g = "ledger_step (unat limit)" and h = id, OF this assms(2)] malloc_exec_simulates
  have "(malloc_repr s l \<and> ms_max_size s = limit) \<and> outs' = outs"
    using assms(1,3) by fastforce
  then show ?thesis by (auto simp: malloc_repr_def)
qed

theorem malloc_accounting_witness:
  "\<exists>s outs. run malloc_exec (malloc_new ''s0'' 200)
      [M_Store (objcore_new (make_digest 1)) [1, 2], M_Store (objcore_new (make_digest 1)) [3], M_Store (objcore_new (make_digest 2)) (replicate 40 0)] = (s, outs) \<and>
      outs = [Inr (), Inr (), Inl Full] \<and> unat (ms_used s) = 115"
proof -
  let ?ops = "[M_Store (objcore_new (make_digest 1)) [1, 2], M_Store (objcore_new (make_digest 1)) [3], M_Store (objcore_new (make_digest 2)) (replicate 40 0)]"
  obtain s outs where r: "run malloc_exec (malloc_new ''s0'' 200) ?ops = (s, outs)" by force
  have fit: "list_all body_fits ?ops" by (simp add: body_fits_def object_bytes_def SIZE_OF_STORED_OBJECT_def)
  have l: "run (ledger_step (unat (200 :: usize))) \<lparr>led_sizes = Map.empty, led_lost = 0\<rparr> ?ops =
      (\<lparr>led_sizes = [make_digest 1 \<mapsto> 1], led_lost = 58\<rparr>, [Inr (), Inr (), Inl Full])"
    by (simp add: ledger_total_def object_bytes_def SIZE_OF_STORED_OBJECT_def objcore_new_def)
  from malloc_accounting[OF r fit l] r show ?thesis
    by (simp add: ledger_total_def object_bytes_def SIZE_OF_STORED_OBJECT_def)
qed

section \<open>Where the counter goes wrong\<close>

text \<open>
  Attributes break the accounting: after an object is allocated, given one attribute and freed,
  the backend is empty but its counter has wrapped below zero, so that it refuses every later
  allocation.
\<close>

theorem malloc_attr_underflow:
  "(let oc = objcore_new (make_digest 1);
        s1 = fst (malloc_alloc_obj oc 0 (malloc_new ''s0'' 1000));
        s2 = fst (malloc_set_attr oc OA_Len (replicate 8 0) s1);
        s3 = malloc_free_obj oc s2
    in ms_objects s3 = Map.empty \<and> ms_used s3 = - 1 \<and> snd (malloc_alloc_obj oc 0 s3) = Inl Full)"
  by (simp add: malloc_alloc_obj_def malloc_set_attr_def malloc_free_obj_def try_reserve_def release_def malloc_new_def
      stored_object_new_def stored_object_size_def attr_size_def ALL_ATTRS_def SIZE_OF_STORED_OBJECT_def SIZE_OF_OBJ_ATTR_def
      objcore_new_def Let_def fun_eq_iff
      unsigned_minus_1_eq_mask mask_eq_exp_minus_1)

end
