(* ===== verification/Storage_File.thy ===== *)
theory Storage_File
  imports Stevedore
begin

text \<open>
  \<open>crates/rv-storage/src/file.rs\<close>: the storage backend on a memory-mapped file with a bump
  allocator.  The mapping is a function from offsets to bytes; raw pointer writes are updates of it.
  Offsets and lengths are naturals: the source bounds every offset by the size of the file.  The
  compare-and-swap loop of \<open>bump_alloc\<close> is one atomic step.
\<close>

section \<open>State and operations\<close>

definition SLOT_HEADER_SIZE :: nat where
  "SLOT_HEADER_SIZE = 64"

definition ALLOC_ALIGN :: nat where
  "ALLOC_ALIGN = 8"

record file_slot =
  slot_offset :: nat
  slot_reserved :: nat
  slot_body_len :: nat
  slot_attrs :: "obj_attr \<Rightarrow> u8 list option"

record file_stevedore =
  ff_name :: string
  ff_path :: string
  ff_size :: nat
  ff_mmap :: "(nat \<Rightarrow> u8) option"
  ff_bump :: nat
  ff_index :: "digest \<Rightarrow> file_slot option"
  ff_open :: bool

definition file_new :: "string \<Rightarrow> string \<Rightarrow> nat \<Rightarrow> file_stevedore" where
  "file_new name path n = \<lparr>ff_name = name, ff_path = path, ff_size = n, ff_mmap = None, ff_bump = 0,
     ff_index = Map.empty, ff_open = False\<rparr>"

definition file_object_count :: "file_stevedore \<Rightarrow> nat" where
  "file_object_count s = card (dom (ff_index s))"

definition file_bump_alloc :: "nat \<Rightarrow> file_stevedore \<Rightarrow> (nat \<times> file_stevedore) option" where
  "file_bump_alloc len s =
     (let aligned = (len + ALLOC_ALIGN - 1) div ALLOC_ALIGN * ALLOC_ALIGN; new_val = ff_bump s + aligned in
      if new_val > ff_size s then None else Some (ff_bump s, s\<lparr>ff_bump := new_val\<rparr>))"

definition not_open :: storage_error where
  "not_open = Io ''file stevedore not open''"

text \<open>The file is truncated and then extended: the fresh mapping is all zeros.\<close>

definition file_open :: "file_stevedore \<Rightarrow> file_stevedore" where
  "file_open s = s\<lparr>ff_mmap := Some (\<lambda>_. 0), ff_bump := 0, ff_open := True\<rparr>"

definition file_close :: "file_stevedore \<Rightarrow> file_stevedore" where
  "file_close s = s\<lparr>ff_mmap := None, ff_index := Map.empty, ff_bump := 0, ff_open := False\<rparr>"

text \<open>\<open>copy_nonoverlapping\<close> of \<open>data\<close> to \<open>base.add(off)\<close>.\<close>

definition mem_write :: "nat \<Rightarrow> u8 list \<Rightarrow> (nat \<Rightarrow> u8) \<Rightarrow> nat \<Rightarrow> u8" where
  "mem_write off data m = (\<lambda>i. if off \<le> i \<and> i < off + length data then data ! (i - off) else m i)"

definition mem_read :: "nat \<Rightarrow> nat \<Rightarrow> (nat \<Rightarrow> u8) \<Rightarrow> u8 list" where
  "mem_read off n m = map m [off ..< off + n]"

definition file_alloc_obj :: "objcore \<Rightarrow> nat \<Rightarrow> file_stevedore \<Rightarrow> file_stevedore \<times> (storage_error, unit) result" where
  "file_alloc_obj oc size_hint s =
     (let total = SLOT_HEADER_SIZE + size_hint in
      case file_bump_alloc total s of
        None \<Rightarrow> (s, Inl Full)
      | Some (offset, s') \<Rightarrow>
          (case ff_mmap s' of
             None \<Rightarrow> (s', Inl not_open)
           | Some m \<Rightarrow>
               (s'\<lparr>ff_mmap := Some (mem_write offset (take 32 (bytes (oc_digest oc))) m),
                   ff_index := (ff_index s')(oc_digest oc \<mapsto>
                      \<lparr>slot_offset = offset, slot_reserved = total, slot_body_len = 0, slot_attrs = Map.empty\<rparr>)\<rparr>, Inr ())))"

definition file_free_obj :: "objcore \<Rightarrow> file_stevedore \<Rightarrow> file_stevedore" where
  "file_free_obj oc s = s\<lparr>ff_index := (ff_index s)(oc_digest oc := None)\<rparr>"

definition file_extend :: "objcore \<Rightarrow> u8 list \<Rightarrow> file_stevedore \<Rightarrow> file_stevedore \<times> (storage_error, unit) result" where
  "file_extend oc data s =
     (case ff_mmap s of
        None \<Rightarrow> (s, Inl not_open)
      | Some m \<Rightarrow>
         (case ff_index s (oc_digest oc) of
            None \<Rightarrow> (s, Inl NotFound)
          | Some slot \<Rightarrow>
             (let body_start = slot_offset slot + SLOT_HEADER_SIZE;
                  write_offset = body_start + slot_body_len slot;
                  write_end = write_offset + length data;
                  reserved_end = slot_offset slot + slot_reserved slot in
              case (if write_end > reserved_end
                    then (case file_bump_alloc (write_end - reserved_end) s of
                            None \<Rightarrow> None
                          | Some (_, s') \<Rightarrow> Some (s', slot\<lparr>slot_reserved := slot_reserved slot + (write_end - reserved_end)\<rparr>))
                    else Some (s, slot)) of
                None \<Rightarrow> (s, Inl Full)
              | Some (s', slot') \<Rightarrow>
                  (s'\<lparr>ff_mmap := Some (mem_write write_offset data m),
                      ff_index := (ff_index s')(oc_digest oc \<mapsto> slot'\<lparr>slot_body_len := slot_body_len slot' + length data\<rparr>)\<rparr>,
                   Inr ()))))"

definition file_get_attr :: "objcore \<Rightarrow> obj_attr \<Rightarrow> file_stevedore \<Rightarrow> u8 list option" where
  "file_get_attr oc attr s = (case ff_index s (oc_digest oc) of None \<Rightarrow> None | Some slot \<Rightarrow> slot_attrs slot attr)"

definition file_set_attr :: "objcore \<Rightarrow> obj_attr \<Rightarrow> u8 list \<Rightarrow> file_stevedore \<Rightarrow> file_stevedore \<times> (storage_error, unit) result" where
  "file_set_attr oc attr data s =
     (case ff_index s (oc_digest oc) of
        None \<Rightarrow> (s, Inl NotFound)
      | Some slot \<Rightarrow>
          (s\<lparr>ff_index := (ff_index s)(oc_digest oc \<mapsto> slot\<lparr>slot_attrs := (slot_attrs slot)(attr \<mapsto> data)\<rparr>)\<rparr>, Inr ()))"

definition file_get_body :: "objcore \<Rightarrow> file_stevedore \<Rightarrow> u8 list option" where
  "file_get_body oc s =
     (case ff_mmap s of
        None \<Rightarrow> None
      | Some m \<Rightarrow>
          (case ff_index s (oc_digest oc) of
             None \<Rightarrow> None
           | Some slot \<Rightarrow>
               (if slot_body_len slot = 0 then None
                else Some (mem_read (slot_offset slot + SLOT_HEADER_SIZE) (slot_body_len slot) m))))"

definition file_free_space :: "file_stevedore \<Rightarrow> nat" where
  "file_free_space s = ff_size s - ff_bump s"

definition file_vtable :: "file_stevedore stevedore" where
  "file_vtable = \<lparr>sv_alloc_obj = (\<lambda>oc hint. file_alloc_obj oc (unat hint)), sv_free_obj = file_free_obj,
     sv_get_space = (\<lambda>oc desired s. (s, Inr [])), sv_extend = file_extend, sv_trim = (\<lambda>oc s. s),
     sv_get_attr = file_get_attr, sv_set_attr = file_set_attr, sv_get_body = file_get_body,
     sv_total_space = (\<lambda>s. of_nat (ff_size s)), sv_used_space = (\<lambda>s. of_nat (ff_bump s)),
     sv_free_space = (\<lambda>s. of_nat (file_free_space s))\<rparr>"

section \<open>Slots do not overlap\<close>

text \<open>
  As long as objects are extended within their reservation, every slot lies below the bump pointer,
  its body fits the reservation, and two slots are disjoint.
\<close>

definition slot_end :: "file_slot \<Rightarrow> nat" where
  "slot_end slot = slot_offset slot + slot_reserved slot"

definition file_inv :: "file_stevedore \<Rightarrow> bool" where
  "file_inv s \<longleftrightarrow> ff_mmap s \<noteq> None \<and>
     (\<forall>d slot. ff_index s d = Some slot \<longrightarrow> slot_end slot \<le> ff_bump s \<and>
        SLOT_HEADER_SIZE + slot_body_len slot \<le> slot_reserved slot) \<and>
     (\<forall>d d' slot slot'. ff_index s d = Some slot \<longrightarrow> ff_index s d' = Some slot' \<longrightarrow> d \<noteq> d' \<longrightarrow>
        slot_end slot \<le> slot_offset slot' \<or> slot_end slot' \<le> slot_offset slot)"

lemma mem_read_write_same [simp]: "mem_read off (length data) (mem_write off data m) = data"
  by (rule nth_equalityI) (simp_all add: mem_read_def mem_write_def)

lemma mem_read_write_other:
  "off + n \<le> off' \<or> off' + length data \<le> off \<Longrightarrow> mem_read off n (mem_write off' data m) = mem_read off n m"
  by (auto simp: mem_read_def mem_write_def)

lemma align_ge: "len \<le> (len + ALLOC_ALIGN - 1) div ALLOC_ALIGN * ALLOC_ALIGN"
  by (simp add: ALLOC_ALIGN_def)

lemma file_store_cases:
  assumes "file_inv s" "length body < 2 ^ 64"
    and st: "store_body_in file_vtable oc body s = (s', r)"
  obtains (full) "r = Inl Full" "s' = s"
  | (stored) m slot b where "r = Inr ()" "ff_mmap s = Some m" "b \<ge> slot_end slot" "slot_offset slot = ff_bump s"
      "slot_reserved slot = SLOT_HEADER_SIZE + length body" "slot_body_len slot = length body"
      "s' = s\<lparr>ff_mmap := Some (mem_write (ff_bump s + SLOT_HEADER_SIZE) body (mem_write (ff_bump s) (take 32 (bytes (oc_digest oc))) m)),
              ff_bump := b, ff_index := (ff_index s)(oc_digest oc \<mapsto> slot)\<rparr>"
proof -
  let ?total = "SLOT_HEADER_SIZE + length body"
  obtain m where m: "ff_mmap s = Some m" using assms(1) by (auto simp: file_inv_def)
  have hint: "unat (of_nat (length body) :: usize) = length body" using assms(2) by (simp add: unat_of_nat64)
  show thesis
  proof (cases "file_bump_alloc ?total s")
    case None
    then have "r = Inl Full" "s' = s"
      using st hint by (auto simp: store_body_in_def file_vtable_def file_alloc_obj_def)
    then show thesis by (rule full)
  next
    case (Some p)
    then obtain b where p: "p = (ff_bump s, s\<lparr>ff_bump := b\<rparr>)" and b: "b = ff_bump s + (?total + ALLOC_ALIGN - 1) div ALLOC_ALIGN * ALLOC_ALIGN"
      by (auto simp: file_bump_alloc_def Let_def split: if_splits)
    let ?slot = "\<lparr>slot_offset = ff_bump s, slot_reserved = ?total, slot_body_len = length body, slot_attrs = Map.empty\<rparr>"
    have "r = Inr ()" "s' = s\<lparr>ff_mmap := Some (mem_write (ff_bump s + SLOT_HEADER_SIZE) body (mem_write (ff_bump s) (take 32 (bytes (oc_digest oc))) m)),
              ff_bump := b, ff_index := (ff_index s)(oc_digest oc \<mapsto> ?slot)\<rparr>"
      using st hint Some p m by (auto simp: store_body_in_def file_vtable_def file_alloc_obj_def file_extend_def)
    then show thesis
      using stored[of m ?slot b] m b align_ge[of ?total] by (simp add: slot_end_def)
  qed
qed


text \<open>A stored body reads back, and no other slot is touched.\<close>

lemma file_get_stored:
  assumes inv: "file_inv s" and m: "ff_mmap s = Some m" and b: "b \<ge> slot_end slot"
    and slot: "slot_offset slot = ff_bump s" "slot_reserved slot = SLOT_HEADER_SIZE + length body" "slot_body_len slot = length body"
    and s': "s' = s\<lparr>ff_mmap := Some (mem_write (ff_bump s + SLOT_HEADER_SIZE) body (mem_write (ff_bump s) (take 32 (bytes (oc_digest oc))) m)),
              ff_bump := b, ff_index := (ff_index s)(oc_digest oc \<mapsto> slot)\<rparr>"
  shows "file_inv s'"
    and "file_get_body oc' s' = (if oc_digest oc' = oc_digest oc then (if body = [] then None else Some body) else file_get_body oc' s)"
proof -
  have old: "slot_end sl \<le> ff_bump s" "SLOT_HEADER_SIZE + slot_body_len sl \<le> slot_reserved sl" if "ff_index s d = Some sl" for d sl
    using inv that unfolding file_inv_def by blast+
  have dj: "slot_end sl \<le> slot_offset sl' \<or> slot_end sl' \<le> slot_offset sl"
    if "ff_index s d = Some sl" "ff_index s d' = Some sl'" "d \<noteq> d'" for d d' sl sl'
    using inv that unfolding file_inv_def by blast
  have bb: "ff_bump s \<le> b" using b slot(1) by (simp add: slot_end_def)
  have old': "slot_end sl \<le> b" if "ff_index s d = Some sl" for d sl
    using old(1)[OF that] bb by simp
  show "file_inv s'"
    unfolding file_inv_def s' using old old' dj b bb slot by (auto simp: slot_end_def)
  show "file_get_body oc' s' = (if oc_digest oc' = oc_digest oc then (if body = [] then None else Some body) else file_get_body oc' s)"
  proof (cases "oc_digest oc' = oc_digest oc")
    case True
    then show ?thesis using slot by (simp add: file_get_body_def s')
  next
    case False
    have keep: "mem_read (slot_offset sl + SLOT_HEADER_SIZE) (slot_body_len sl)
        (mem_write (ff_bump s + SLOT_HEADER_SIZE) body (mem_write (ff_bump s) (take 32 (bytes (oc_digest oc))) m))
        = mem_read (slot_offset sl + SLOT_HEADER_SIZE) (slot_body_len sl) m"
      if "ff_index s d = Some sl" for d sl
      using old[OF that] by (simp add: mem_read_write_other slot_end_def)
    show ?thesis
      using False keep m by (auto simp: file_get_body_def s' split: option.splits)
  qed
qed

lemma file_store_result:
  assumes "file_inv s" "length body < 2 ^ 64" "store_body_in file_vtable oc body s = (s', r)"
  shows "file_inv s'" and "r = Inl e \<Longrightarrow> s' = s"
    and "r = Inr u \<Longrightarrow> file_get_body oc' s' =
       (if oc_digest oc' = oc_digest oc then (if body = [] then None else Some body) else file_get_body oc' s)"
proof -
  have "file_inv s' \<and> (r = Inl e \<longrightarrow> s' = s) \<and> (r = Inr u \<longrightarrow> file_get_body oc' s' =
       (if oc_digest oc' = oc_digest oc then (if body = [] then None else Some body) else file_get_body oc' s))"
    using assms
  proof (cases rule: file_store_cases)
    case full
    then show ?thesis using assms(1) by simp
  next
    case (stored m slot b)
    show ?thesis
      using file_get_stored[OF assms(1) stored(2-7)] stored(1) by simp
  qed
  then show "file_inv s'" and "r = Inl e \<Longrightarrow> s' = s"
    and "r = Inr u \<Longrightarrow> file_get_body oc' s' =
       (if oc_digest oc' = oc_digest oc then (if body = [] then None else Some body) else file_get_body oc' s)"
    by simp_all
qed

lemma file_get_body_sv [simp]: "sv_get_body file_vtable = file_get_body" "sv_free_obj file_vtable = file_free_obj"
  by (simp_all add: file_vtable_def)

interpretation file_bodies: body_store file_vtable file_inv
proof (unfold_locales, unfold file_get_body_sv)
  fix oc oc' :: objcore and s s' :: file_stevedore and body r u e
  show "oc_digest oc = oc_digest oc' \<Longrightarrow> file_get_body oc s = file_get_body oc' s"
    by (simp add: file_get_body_def split: option.splits)
  show "file_inv s'" if "file_inv s" "length body < 2 ^ 64" "store_body_in file_vtable oc body s = (s', r)"
    by (rule file_store_result(1)[OF that])
  show "file_get_body oc' s' = (if oc_digest oc' = oc_digest oc then (if body = [] then None else Some body) else file_get_body oc' s)"
    if "file_inv s" "length body < 2 ^ 64" "store_body_in file_vtable oc body s = (s', Inr u)"
    by (rule file_store_result(3)[OF that refl])
  show "file_get_body oc' s' = file_get_body oc' s"
    if "file_inv s" "length body < 2 ^ 64" "store_body_in file_vtable oc body s = (s', Inl e)"
    using file_store_result(2)[OF that refl] by simp
  show "file_inv (file_free_obj oc s)" if "file_inv s"
    using that unfolding file_inv_def file_free_obj_def by simp
  show "file_get_body oc' (file_free_obj oc s) = (if oc_digest oc' = oc_digest oc then None else file_get_body oc' s)"
    by (simp add: file_free_obj_def file_get_body_def split: option.splits)
qed



section \<open>Extensions beyond the reservation\<close>

text \<open>
  An extension beyond the reservation of a slot writes over the neighbour: after two objects of
  eight bytes each are allocated and written, a second extension of the first one by 72 bytes, which the
  backend accepts, changes the body of the other object.
\<close>

theorem file_extend_corrupts_neighbour:
  "(let a = objcore_new (make_digest 1); b = objcore_new (make_digest 2); s0 = file_open (file_new ''f'' ''p'' 1024);
        s1 = fst (store_body_in file_vtable a (replicate 8 1) s0);
        s2 = fst (store_body_in file_vtable b (replicate 8 2) s1);
        (s3, r) = file_extend a (replicate 72 3) s2
    in file_get_body b s2 = Some (replicate 8 2) \<and> r = Inr () \<and> file_get_body b s3 = Some (replicate 8 3))"
proof -
  have r8: "replicate 8 x = [x, x, x, x, x, x, x, x]" for x :: u8 by (simp add: numeral_eq_Suc)
  show ?thesis
    unfolding r8
    by (simp add: store_body_in_def file_vtable_def file_alloc_obj_def file_bump_alloc_def file_extend_def file_get_body_def
        file_open_def file_new_def SLOT_HEADER_SIZE_def ALLOC_ALIGN_def objcore_new_def Let_def mem_read_def mem_write_def)
qed

end
