(* ===== verification/Storage_Persistent.thy ===== *)
theory Storage_Persistent
  imports Storage_File
begin

text \<open>
  \<open>crates/rv-storage/src/persistent.rs\<close>: the storage backend on a memory-mapped file with a slab
  table at its start.  The mapping is a function from offsets to bytes, as for the file backend.
  \<open>alloc_obj\<close> takes its locks several times; its sections are the definitions \<open>find_free_slab\<close>,
  \<open>alloc_new_slab\<close>, \<open>take_slab\<close>, \<open>write_slab_entry\<close> and the insertion into the index.
\<close>

section \<open>State\<close>

definition FILE_HEADER_SIZE :: nat where
  "FILE_HEADER_SIZE = 128"

definition SLAB_ENTRY_SIZE :: nat where
  "SLAB_ENTRY_SIZE = 64"

definition MAX_SLABS :: nat where
  "MAX_SLABS = 65536"

definition DATA_REGION_OFFSET :: nat where
  "DATA_REGION_OFFSET = FILE_HEADER_SIZE + MAX_SLABS * SLAB_ENTRY_SIZE"

definition DATA_ALIGN :: nat where
  "DATA_ALIGN = 8"

definition MAGIC :: "u8 list" where
  "MAGIC = [0x52, 0x56, 0x53, 0x4C, 0x41, 0x42, 0x30, 0x31]"

definition VERSION :: nat where
  "VERSION = 1"

record slab_entry =
  sl_index :: nat
  sl_offset :: nat
  sl_size :: nat
  sl_in_use :: bool
  sl_digest :: digest
  sl_body_len :: nat
  sl_attrs :: "obj_attr \<Rightarrow> u8 list option"

record persistent_stevedore =
  ps_name :: string
  ps_path :: string
  ps_total_size :: nat
  ps_used_size :: usize
  ps_mmap :: "(nat \<Rightarrow> u8) option"
  ps_allocations :: "slab_entry list"
  ps_digest_index :: "digest \<Rightarrow> nat option"
  ps_open :: bool

text \<open>The constructor asserts that there is a data region; \<open>None\<close> is the panic.\<close>

definition persistent_new :: "string \<Rightarrow> string \<Rightarrow> nat \<Rightarrow> persistent_stevedore option" where
  "persistent_new name path n =
     (if n > DATA_REGION_OFFSET
      then Some \<lparr>ps_name = name, ps_path = path, ps_total_size = n, ps_used_size = 0, ps_mmap = None,
             ps_allocations = [], ps_digest_index = Map.empty, ps_open = False\<rparr>
      else None)"

definition slab_count :: "persistent_stevedore \<Rightarrow> nat" where
  "slab_count s = length (filter sl_in_use (ps_allocations s))"

definition data_capacity :: "persistent_stevedore \<Rightarrow> nat" where
  "data_capacity s = ps_total_size s - DATA_REGION_OFFSET"

section \<open>The slab table on disk\<close>

abbreviation entry_offset :: "nat \<Rightarrow> nat" where
  "entry_offset i \<equiv> FILE_HEADER_SIZE + i * SLAB_ENTRY_SIZE"

definition entry_write :: "slab_entry \<Rightarrow> (nat \<Rightarrow> u8) \<Rightarrow> nat \<Rightarrow> u8" where
  "entry_write slab m =
     (let dst = entry_offset (sl_index slab) in
      mem_write (dst + 49) (le_bytes 8 (sl_body_len slab))
       (mem_write (dst + 48) [if sl_in_use slab then 1 else 0]
        (mem_write (dst + 40) (le_bytes 8 (sl_size slab))
         (mem_write (dst + 32) (le_bytes 8 (sl_offset slab))
          (mem_write dst (take 32 (bytes (sl_digest slab))) m)))))"

definition write_slab_entry :: "slab_entry \<Rightarrow> persistent_stevedore \<Rightarrow> persistent_stevedore" where
  "write_slab_entry slab s = (case ps_mmap s of None \<Rightarrow> s | Some m \<Rightarrow> s\<lparr>ps_mmap := Some (entry_write slab m)\<rparr>)"

definition write_header :: "persistent_stevedore \<Rightarrow> persistent_stevedore" where
  "write_header s =
     (case ps_mmap s of
        None \<Rightarrow> s
      | Some m \<Rightarrow> s\<lparr>ps_mmap := Some (mem_write 12 (le_bytes 8 (ps_total_size s))
            (mem_write 8 (le_bytes 4 VERSION) (mem_write 0 MAGIC m)))\<rparr>)"

definition validate_header :: "persistent_stevedore \<Rightarrow> bool" where
  "validate_header s =
     (case ps_mmap s of
        None \<Rightarrow> False
      | Some m \<Rightarrow> ps_total_size s \<ge> FILE_HEADER_SIZE \<and> mem_read 0 8 m = MAGIC \<and> le_value (mem_read 8 4 m) = VERSION)"

text \<open>
  The scan of \<open>load_existing\<close>; the first argument counts the slots that remain, so the slot is
  \<open>MAX_SLABS\<close> minus it.  The results are the slabs, the index, the recovered digests and the bytes in use.
\<close>

type_synonym scan = "slab_entry list \<times> (digest \<Rightarrow> nat option) \<times> digest list \<times> nat"

fun load_slabs :: "nat \<Rightarrow> nat \<Rightarrow> (nat \<Rightarrow> u8) \<Rightarrow> scan \<Rightarrow> scan" where
  "load_slabs 0 limit m acc = acc"
| "load_slabs (Suc remaining) limit m (allocs, idx, recovered, used) =
     (let i = MAX_SLABS - Suc remaining; off = entry_offset i in
      if off + SLAB_ENTRY_SIZE > limit then (allocs, idx, recovered, used)
      else
        let d = Digest (mem_read off 32 m);
            data_offset = le_value (mem_read (off + 32) 8 m);
            slab_size = le_value (mem_read (off + 40) 8 m);
            in_use = (m (off + 48) \<noteq> 0);
            body_len = le_value (mem_read (off + 49) 8 m) in
        if \<not> in_use then
          (if list_all (\<lambda>b. b = 0) (bytes d) then (allocs, idx, recovered, used)
           else load_slabs remaining limit m
             (allocs @ [\<lparr>sl_index = i, sl_offset = data_offset, sl_size = slab_size, sl_in_use = False,
                sl_digest = d, sl_body_len = 0, sl_attrs = Map.empty\<rparr>], idx, recovered, used))
        else load_slabs remaining limit m
             (allocs @ [\<lparr>sl_index = i, sl_offset = data_offset, sl_size = slab_size, sl_in_use = True,
                sl_digest = d, sl_body_len = body_len, sl_attrs = Map.empty\<rparr>], idx(d \<mapsto> i), recovered @ [d],
              used + slab_size))"

definition load_existing :: "persistent_stevedore \<Rightarrow> persistent_stevedore \<times> objcore list" where
  "load_existing s =
     (case ps_mmap s of
        None \<Rightarrow> (s, [])
      | Some m \<Rightarrow>
          (case load_slabs MAX_SLABS (ps_total_size s) m (ps_allocations s, ps_digest_index s, [], 0) of
             (allocs, idx, recovered, used) \<Rightarrow>
               (s\<lparr>ps_allocations := allocs, ps_digest_index := idx, ps_used_size := of_nat used\<rparr>,
                map objcore_new recovered)))"

section \<open>Allocation\<close>

definition align8 :: "nat \<Rightarrow> nat" where
  "align8 n = (n + DATA_ALIGN - 1) div DATA_ALIGN * DATA_ALIGN"

definition find_free_slab :: "nat \<Rightarrow> persistent_stevedore \<Rightarrow> nat option" where
  "find_free_slab n s = position (\<lambda>slab. \<not> sl_in_use slab \<and> sl_size slab \<ge> n) (ps_allocations s)"

definition slab_end :: "slab_entry \<Rightarrow> nat" where
  "slab_end slab = sl_offset slab + sl_size slab"

definition alloc_new_slab :: "nat \<Rightarrow> persistent_stevedore \<Rightarrow> persistent_stevedore \<times> (storage_error, nat) result" where
  "alloc_new_slab n s =
     (let aligned_size = align8 n; allocs = ps_allocations s;
          next_offset = (if allocs = [] then DATA_REGION_OFFSET else Max (set (map slab_end allocs)));
          aligned_offset = align8 next_offset in
      if aligned_offset + aligned_size > ps_total_size s then (s, Inl Full)
      else if length allocs \<ge> MAX_SLABS then (s, Inl Full)
      else (s\<lparr>ps_allocations := allocs @ [\<lparr>sl_index = length allocs, sl_offset = aligned_offset, sl_size = aligned_size,
                sl_in_use = False, sl_digest = digest_ZERO, sl_body_len = 0, sl_attrs = Map.empty\<rparr>]\<rparr>,
            Inr (length allocs)))"

text \<open>The section that marks the chosen slab, and the write of its entry to disk.\<close>

definition take_slab :: "digest \<Rightarrow> nat \<Rightarrow> persistent_stevedore \<Rightarrow> persistent_stevedore" where
  "take_slab d i s =
     (let slab = (ps_allocations s ! i)\<lparr>sl_in_use := True, sl_digest := d, sl_body_len := 0, sl_attrs := Map.empty\<rparr> in
      write_slab_entry slab
        (s\<lparr>ps_allocations := (ps_allocations s)[i := slab], ps_used_size := ps_used_size s + of_nat (sl_size slab)\<rparr>))"

definition persistent_alloc_obj :: "objcore \<Rightarrow> nat \<Rightarrow> persistent_stevedore \<Rightarrow> persistent_stevedore \<times> (storage_error, unit) result" where
  "persistent_alloc_obj oc size_hint s =
     (let required = max size_hint 64 in
      case (case find_free_slab required s of Some i \<Rightarrow> (s, Inr i) | None \<Rightarrow> alloc_new_slab required s) of
        (s', Inl e) \<Rightarrow> (s', Inl e)
      | (s', Inr i) \<Rightarrow>
          (let s2 = take_slab (oc_digest oc) i s' in
           (s2\<lparr>ps_digest_index := (ps_digest_index s2)(oc_digest oc \<mapsto> i)\<rparr>, Inr ())))"

definition persistent_free_obj :: "objcore \<Rightarrow> persistent_stevedore \<Rightarrow> persistent_stevedore" where
  "persistent_free_obj oc s =
     (case ps_digest_index s (oc_digest oc) of
        None \<Rightarrow> s
      | Some i \<Rightarrow>
          (let s1 = s\<lparr>ps_digest_index := (ps_digest_index s)(oc_digest oc := None)\<rparr> in
           if i < length (ps_allocations s1) then
             (let slab = (ps_allocations s1 ! i)\<lparr>sl_in_use := False, sl_body_len := 0, sl_attrs := Map.empty\<rparr> in
              write_slab_entry slab
                (s1\<lparr>ps_allocations := (ps_allocations s1)[i := slab],
                    ps_used_size := ps_used_size s1 - of_nat (sl_size slab)\<rparr>))
           else s1))"

section \<open>Bodies and attributes\<close>

definition persistent_not_open :: storage_error where
  "persistent_not_open = Io ''persistent stevedore not open''"

definition persistent_extend :: "objcore \<Rightarrow> u8 list \<Rightarrow> persistent_stevedore \<Rightarrow> persistent_stevedore \<times> (storage_error, unit) result" where
  "persistent_extend oc data s =
     (case ps_digest_index s (oc_digest oc) of
        None \<Rightarrow> (s, Inl NotFound)
      | Some i \<Rightarrow>
         (case ps_mmap s of
            None \<Rightarrow> (s, Inl persistent_not_open)
          | Some m \<Rightarrow>
             (case vec_get (ps_allocations s) i of
                None \<Rightarrow> (s, Inl NotFound)
              | Some slab \<Rightarrow>
                 (let write_offset = sl_offset slab + sl_body_len slab; write_end = write_offset + length data in
                  if write_end > sl_offset slab + sl_size slab then (s, Inl Full)
                  else (s\<lparr>ps_mmap := Some (mem_write write_offset data m),
                          ps_allocations := (ps_allocations s)[i := slab\<lparr>sl_body_len := sl_body_len slab + length data\<rparr>]\<rparr>,
                        Inr ())))))"

definition persistent_get_attr :: "objcore \<Rightarrow> obj_attr \<Rightarrow> persistent_stevedore \<Rightarrow> u8 list option" where
  "persistent_get_attr oc attr s =
     (case ps_digest_index s (oc_digest oc) of
        None \<Rightarrow> None
      | Some i \<Rightarrow> (case vec_get (ps_allocations s) i of None \<Rightarrow> None | Some slab \<Rightarrow> sl_attrs slab attr))"

definition persistent_set_attr :: "objcore \<Rightarrow> obj_attr \<Rightarrow> u8 list \<Rightarrow> persistent_stevedore \<Rightarrow> persistent_stevedore \<times> (storage_error, unit) result" where
  "persistent_set_attr oc attr data s =
     (case ps_digest_index s (oc_digest oc) of
        None \<Rightarrow> (s, Inl NotFound)
      | Some i \<Rightarrow>
          (case vec_get (ps_allocations s) i of
             None \<Rightarrow> (s, Inl NotFound)
           | Some slab \<Rightarrow>
               (s\<lparr>ps_allocations := (ps_allocations s)[i := slab\<lparr>sl_attrs := (sl_attrs slab)(attr \<mapsto> data)\<rparr>]\<rparr>, Inr ())))"

text \<open>The slice of the mapping panics, the outer \<open>None\<close>, when it leaves the file.\<close>

definition persistent_read_body :: "objcore \<Rightarrow> persistent_stevedore \<Rightarrow> u8 list option option" where
  "persistent_read_body oc s =
     (case ps_digest_index s (oc_digest oc) of
        None \<Rightarrow> Some None
      | Some i \<Rightarrow>
         (case ps_mmap s of
            None \<Rightarrow> Some None
          | Some m \<Rightarrow>
             (case vec_get (ps_allocations s) i of
                None \<Rightarrow> Some None
              | Some slab \<Rightarrow>
                  (if sl_body_len slab = 0 then Some None
                   else if sl_offset slab + sl_body_len slab > ps_total_size s then None
                   else Some (Some (mem_read (sl_offset slab) (sl_body_len slab) m))))))"

definition persistent_get_body :: "objcore \<Rightarrow> persistent_stevedore \<Rightarrow> u8 list option" where
  "persistent_get_body oc s = (case persistent_read_body oc s of None \<Rightarrow> None | Some r \<Rightarrow> r)"

definition persistent_free_space :: "persistent_stevedore \<Rightarrow> usize" where
  "persistent_free_space s =
     (let limit = of_nat (ps_total_size s) in if ps_used_size s \<le> limit then limit - ps_used_size s else 0)"

definition persistent_vtable :: "persistent_stevedore stevedore" where
  "persistent_vtable = \<lparr>sv_alloc_obj = (\<lambda>oc hint. persistent_alloc_obj oc (unat hint)), sv_free_obj = persistent_free_obj,
     sv_get_space = (\<lambda>oc desired s. (s, Inr [])), sv_extend = persistent_extend, sv_trim = (\<lambda>oc s. s),
     sv_get_attr = persistent_get_attr, sv_set_attr = persistent_set_attr, sv_get_body = persistent_get_body,
     sv_total_space = (\<lambda>s. of_nat (ps_total_size s)), sv_used_space = ps_used_size,
     sv_free_space = persistent_free_space\<rparr>"

section \<open>Opening, closing and compaction\<close>

text \<open>\<open>disk\<close> is the content of the file, \<open>None\<close> when it does not exist; a fresh file reads as zeros.\<close>

definition persistent_open :: "(nat \<Rightarrow> u8) option \<Rightarrow> persistent_stevedore \<Rightarrow> persistent_stevedore" where
  "persistent_open disk s =
     (let s1 = s\<lparr>ps_mmap := Some (case disk of None \<Rightarrow> (\<lambda>_. 0) | Some m \<Rightarrow> m)\<rparr>;
          s2 = (if disk \<noteq> None \<and> validate_header s1 then fst (load_existing s1) else write_header s1) in
      s2\<lparr>ps_open := True\<rparr>)"

definition persistent_close :: "persistent_stevedore \<Rightarrow> persistent_stevedore" where
  "persistent_close s = s\<lparr>ps_mmap := None, ps_allocations := [], ps_digest_index := Map.empty, ps_used_size := 0, ps_open := False\<rparr>"

text \<open>One round of the moving loop of \<open>compact\<close> for slab \<open>i\<close>.\<close>

definition move_slab :: "nat \<Rightarrow> slab_entry list \<times> nat \<times> (nat \<Rightarrow> u8) \<Rightarrow> slab_entry list \<times> nat \<times> (nat \<Rightarrow> u8)" where
  "move_slab i st =
     (case st of (allocs, next_offset, m) \<Rightarrow>
      (let src_offset = sl_offset (allocs ! i); n = sl_body_len (allocs ! i); aligned_size = align8 n;
           m1 = (if next_offset \<noteq> src_offset \<and> n > 0 then mem_write next_offset (mem_read src_offset n m) m else m);
           slab = (allocs ! i)\<lparr>sl_offset := next_offset, sl_size := max aligned_size (sl_size (allocs ! i))\<rparr>;
           dst = entry_offset (sl_index slab);
           m2 = mem_write (dst + 40) (le_bytes 8 (sl_size slab)) (mem_write (dst + 32) (le_bytes 8 (sl_offset slab)) m1) in
       (allocs[i := slab], next_offset + sl_size slab, m2)))"

definition reindex :: "slab_entry list \<Rightarrow> slab_entry list" where
  "reindex slabs = map (\<lambda>(i, slab). slab\<lparr>sl_index := i\<rparr>) (enumerate 0 slabs)"

definition digest_positions :: "slab_entry list \<Rightarrow> digest \<Rightarrow> nat option" where
  "digest_positions slabs = fold (\<lambda>(i, slab) idx. idx(sl_digest slab \<mapsto> i)) (enumerate 0 slabs) Map.empty"

definition compact :: "persistent_stevedore \<Rightarrow> persistent_stevedore" where
  "compact s =
     (case ps_mmap s of
        None \<Rightarrow> s
      | Some m \<Rightarrow>
         (let allocs = ps_allocations s;
              in_use = sort_key (\<lambda>i. sl_offset (allocs ! i)) (filter (\<lambda>i. sl_in_use (allocs ! i)) [0 ..< length allocs]);
              (moved, _, m') = fold move_slab in_use (allocs, DATA_REGION_OFFSET, m);
              active = filter sl_in_use moved in
          s\<lparr>ps_mmap := Some m', ps_digest_index := digest_positions active, ps_allocations := reindex active,
            ps_used_size := of_nat (sum_list (map sl_size active))\<rparr>))"


section \<open>Slabs do not overlap\<close>

definition slabs_wf :: "nat \<Rightarrow> slab_entry list \<Rightarrow> bool" where
  "slabs_wf limit allocs \<longleftrightarrow> length allocs \<le> MAX_SLABS \<and>
     (\<forall>i < length allocs. let slab = allocs ! i in sl_index slab = i \<and> DATA_REGION_OFFSET \<le> sl_offset slab \<and>
        slab_end slab \<le> limit \<and> sl_body_len slab \<le> sl_size slab) \<and>
     (\<forall>i < length allocs. \<forall>j < length allocs. i \<noteq> j \<longrightarrow>
        slab_end (allocs ! i) \<le> sl_offset (allocs ! j) \<or> slab_end (allocs ! j) \<le> sl_offset (allocs ! i))"

definition index_wf :: "slab_entry list \<Rightarrow> (digest \<Rightarrow> nat option) \<Rightarrow> bool" where
  "index_wf allocs idx \<longleftrightarrow> (\<forall>d i. idx d = Some i \<longrightarrow> i < length allocs \<and> sl_in_use (allocs ! i) \<and> sl_digest (allocs ! i) = d)"

definition persistent_inv :: "persistent_stevedore \<Rightarrow> bool" where
  "persistent_inv s \<longleftrightarrow> ps_mmap s \<noteq> None \<and> slabs_wf (ps_total_size s) (ps_allocations s) \<and>
     index_wf (ps_allocations s) (ps_digest_index s)"

text \<open>The data region is out of reach of the slab table.\<close>

lemma entry_offset_data: "i < MAX_SLABS \<Longrightarrow> entry_offset i + SLAB_ENTRY_SIZE \<le> DATA_REGION_OFFSET"
  by (simp add: DATA_REGION_OFFSET_def SLAB_ENTRY_SIZE_def)

lemma mem_write_outside: "x < off \<or> off + length data \<le> x \<Longrightarrow> mem_write off data m x = m x"
  by (auto simp: mem_write_def)

lemma entry_write_data:
  assumes "sl_index slab < MAX_SLABS" "DATA_REGION_OFFSET \<le> x"
  shows "entry_write slab m x = m x"
proof -
  have "entry_offset (sl_index slab) + 64 \<le> x"
    using entry_offset_data[OF assms(1)] assms(2) by (simp add: SLAB_ENTRY_SIZE_def)
  then show ?thesis by (simp add: entry_write_def Let_def mem_write_outside)
qed

lemma mem_read_cong: "(\<And>x. off \<le> x \<Longrightarrow> m x = m' x) \<Longrightarrow> mem_read off n m = mem_read off n m'"
  by (simp add: mem_read_def)

lemma align8_ge: "n \<le> align8 n"
  by (simp add: align8_def DATA_ALIGN_def)

lemma slabs_wfD:
  assumes "slabs_wf limit allocs" "i < length allocs"
  shows "sl_index (allocs ! i) = i" "i < MAX_SLABS" "DATA_REGION_OFFSET \<le> sl_offset (allocs ! i)"
    "slab_end (allocs ! i) \<le> limit" "sl_body_len (allocs ! i) \<le> sl_size (allocs ! i)"
  using assms unfolding slabs_wf_def Let_def by auto

lemma slabs_wf_disjoint:
  assumes "slabs_wf limit allocs" "i < length allocs" "j < length allocs" "i \<noteq> j"
  shows "slab_end (allocs ! i) \<le> sl_offset (allocs ! j) \<or> slab_end (allocs ! j) \<le> sl_offset (allocs ! i)"
  using assms unfolding slabs_wf_def by blast

lemma slabs_wf_update:
  assumes "slabs_wf limit allocs" "i < length allocs" "sl_index slab = i" "sl_offset slab = sl_offset (allocs ! i)"
    "sl_size slab = sl_size (allocs ! i)" "sl_body_len slab \<le> sl_size slab"
  shows "slabs_wf limit (allocs[i := slab])"
  using assms unfolding slabs_wf_def Let_def by (auto simp: nth_list_update slab_end_def)

lemma alloc_new_slab_wf:
  assumes "slabs_wf (ps_total_size s) (ps_allocations s)" "alloc_new_slab n s = (s', Inr i)"
  shows "i = length (ps_allocations s)" "\<exists>slab. s' = s\<lparr>ps_allocations := ps_allocations s @ [slab]\<rparr> \<and> \<not> sl_in_use slab \<and> n \<le> sl_size slab"
    "slabs_wf (ps_total_size s') (ps_allocations s')"
proof -
  let ?allocs = "ps_allocations s"
  let ?next = "if ?allocs = [] then DATA_REGION_OFFSET else Max (set (map slab_end ?allocs))"
  let ?slab = "\<lparr>sl_index = length ?allocs, sl_offset = align8 ?next, sl_size = align8 n, sl_in_use = False,
      sl_digest = digest_ZERO, sl_body_len = 0, sl_attrs = Map.empty\<rparr>"
  have r: "i = length ?allocs" "s' = s\<lparr>ps_allocations := ?allocs @ [?slab]\<rparr>" "length ?allocs < MAX_SLABS"
    "align8 ?next + align8 n \<le> ps_total_size s"
    using assms(2) by (auto simp: alloc_new_slab_def Let_def split: if_splits)
  show "i = length ?allocs" by (rule r(1))
  show "\<exists>slab. s' = s\<lparr>ps_allocations := ?allocs @ [slab]\<rparr> \<and> \<not> sl_in_use slab \<and> n \<le> sl_size slab"
    by (intro exI[of _ ?slab]) (simp add: r(2) align8_ge)
  have below: "slab_end (?allocs ! j) \<le> align8 ?next" if "j < length ?allocs" for j
  proof -
    have "slab_end (?allocs ! j) \<le> Max (set (map slab_end ?allocs))"
      using that by (intro Max_ge) auto
    with that show ?thesis using align8_ge[of ?next] by (auto split: if_splits)
  qed
  have data: "DATA_REGION_OFFSET \<le> align8 ?next"
  proof (cases "?allocs = []")
    case True
    then show ?thesis by (simp add: align8_ge)
  next
    case False
    then have 0: "0 < length ?allocs" by simp
    show ?thesis
      using below[OF 0] slabs_wfD(3)[OF assms(1) 0] by (simp add: slab_end_def)
  qed
  have len: "length (?allocs @ [?slab]) = Suc (length ?allocs)" by simp
  show "slabs_wf (ps_total_size s') (ps_allocations s')"
    unfolding slabs_wf_def Let_def r(2)
    using r(3,4) data below slabs_wfD[OF assms(1)] slabs_wf_disjoint[OF assms(1)]
    by (auto simp: nth_append less_Suc_eq slab_end_def)
qed

text \<open>What an allocation does to the slabs: one slab that was free is taken.\<close>

lemma persistent_alloc_cases:
  assumes inv: "persistent_inv s" and al: "persistent_alloc_obj oc n s = (s', r)"
  obtains (refused) e where "r = Inl e" "s' = s"
  | (taken) i slab m m' where "r = Inr ()" "ps_mmap s = Some m" "ps_mmap s' = Some m'" "\<And>x. DATA_REGION_OFFSET \<le> x \<Longrightarrow> m' x = m x"
      "slabs_wf (ps_total_size s') (ps_allocations s')" "i < length (ps_allocations s')" "ps_allocations s' ! i = slab"
      "sl_in_use slab" "sl_digest slab = oc_digest oc" "sl_body_len slab = 0" "n \<le> sl_size slab"
      "ps_digest_index s' = (ps_digest_index s)(oc_digest oc \<mapsto> i)" "ps_total_size s' = ps_total_size s"
      "\<And>j. j < length (ps_allocations s) \<Longrightarrow> sl_in_use (ps_allocations s ! j) \<Longrightarrow>
         j \<noteq> i \<and> j < length (ps_allocations s') \<and> ps_allocations s' ! j = ps_allocations s ! j"
proof -
  let ?req = "max n 64"
  define pick where "pick = (case find_free_slab ?req s of Some i \<Rightarrow> (s, Inr i) | None \<Rightarrow> alloc_new_slab ?req s)"
  have wf: "slabs_wf (ps_total_size s) (ps_allocations s)" using inv by (simp add: persistent_inv_def)
  obtain m where m: "ps_mmap s = Some m" using inv by (auto simp: persistent_inv_def)
  obtain s1 p where pk: "pick = (s1, p)" by force
  show thesis
  proof (cases p)
    case (Inl e)
    then have "s1 = s" using pk by (auto simp: pick_def alloc_new_slab_def Let_def split: option.splits if_splits)
    then show thesis
      using refused[of e] al Inl pk by (simp add: persistent_alloc_obj_def pick_def[symmetric] Let_def)
  next
    case (Inr i)
    have picked: "i < length (ps_allocations s1) \<and> \<not> sl_in_use (ps_allocations s1 ! i) \<and> ?req \<le> sl_size (ps_allocations s1 ! i) \<and>
        slabs_wf (ps_total_size s1) (ps_allocations s1) \<and> (\<exists>xs. s1 = s\<lparr>ps_allocations := ps_allocations s @ xs\<rparr>)"
    proof (cases "find_free_slab ?req s")
      case (Some k)
      then have "s1 = s" "k = i" using pk Inr by (simp_all add: pick_def)
      moreover have "i < length (ps_allocations s) \<and> \<not> sl_in_use (ps_allocations s ! i) \<and> ?req \<le> sl_size (ps_allocations s ! i)"
        using Some \<open>k = i\<close> position_SomeD[of _ "ps_allocations s" k] unfolding find_free_slab_def by auto
      ultimately show ?thesis using wf by (intro conjI exI[of _ "[]"]) auto
    next
      case None
      then have an: "alloc_new_slab ?req s = (s1, Inr i)" using pk Inr by (simp add: pick_def)
      from alloc_new_slab_wf[OF wf an] show ?thesis by auto
    qed
    then obtain xs where s1: "s1 = s\<lparr>ps_allocations := ps_allocations s @ xs\<rparr>" by blast
    let ?old = "ps_allocations s1 ! i"
    let ?slab = "?old\<lparr>sl_in_use := True, sl_digest := oc_digest oc, sl_body_len := 0, sl_attrs := Map.empty\<rparr>"
    have i: "i < length (ps_allocations s1)" and wf1: "slabs_wf (ps_total_size s1) (ps_allocations s1)" using picked by auto
    have s': "s' = s1\<lparr>ps_allocations := (ps_allocations s1)[i := ?slab], ps_used_size := ps_used_size s1 + of_nat (sl_size ?slab),
         ps_mmap := Some (entry_write ?slab m), ps_digest_index := (ps_digest_index s)(oc_digest oc \<mapsto> i)\<rparr>" and rr: "r = Inr ()"
      using al pk Inr m s1 by (simp_all add: persistent_alloc_obj_def pick_def[symmetric] Let_def take_slab_def write_slab_entry_def)
    show thesis
    proof (rule taken[of m "entry_write ?slab m" i ?slab])
      show "entry_write ?slab m x = m x" if "DATA_REGION_OFFSET \<le> x" for x
        using entry_write_data[of ?slab x m] slabs_wfD(1,2)[OF wf1 i] that by simp
      show "slabs_wf (ps_total_size s') (ps_allocations s')"
        using slabs_wf_update[OF wf1 i, of ?slab] slabs_wfD(1)[OF wf1 i] by (simp add: s')
      show "j \<noteq> i \<and> j < length (ps_allocations s') \<and> ps_allocations s' ! j = ps_allocations s ! j"
        if "j < length (ps_allocations s)" "sl_in_use (ps_allocations s ! j)" for j
      proof -
        have same: "ps_allocations s1 ! j = ps_allocations s ! j" using that(1) by (simp add: s1 nth_append)
        then have "j \<noteq> i" using that(2) picked by auto
        with same show ?thesis using that(1) by (simp add: s' s1)
      qed
    qed (use picked i m in \<open>auto simp: s' rr s1\<close>)
  qed
qed


text \<open>Bodies of the slabs that the index points to are inside the file: no read panics.\<close>

lemma persistent_get_eq:
  assumes "persistent_inv s" "ps_mmap s = Some m"
  shows "persistent_get_body oc s = (case ps_digest_index s (oc_digest oc) of None \<Rightarrow> None
     | Some i \<Rightarrow> let slab = ps_allocations s ! i in
         if sl_body_len slab = 0 then None else Some (mem_read (sl_offset slab) (sl_body_len slab) m))"
proof (cases "ps_digest_index s (oc_digest oc)")
  case (Some i)
  then have i: "i < length (ps_allocations s)" using assms(1) by (auto simp: persistent_inv_def index_wf_def)
  have wf: "slabs_wf (ps_total_size s) (ps_allocations s)" using assms(1) by (simp add: persistent_inv_def)
  have "sl_offset (ps_allocations s ! i) + sl_body_len (ps_allocations s ! i) \<le> ps_total_size s"
    using slabs_wfD(4,5)[OF wf i] by (simp add: slab_end_def)
  with Some i assms(2) show ?thesis
    by (simp add: persistent_get_body_def persistent_read_body_def Let_def)
qed (simp add: persistent_get_body_def persistent_read_body_def)

lemma persistent_store_result:
  assumes inv: "persistent_inv s" and len: "length body < 2 ^ 64"
    and st: "store_body_in persistent_vtable oc body s = (s', r)"
  shows "persistent_inv s'" and "r = Inl e \<Longrightarrow> persistent_get_body oc' s' = persistent_get_body oc' s"
    and "r = Inr u \<Longrightarrow> persistent_get_body oc' s' =
       (if oc_digest oc' = oc_digest oc then (if body = [] then None else Some body) else persistent_get_body oc' s)"
proof -
  have hint: "unat (of_nat (length body) :: usize) = length body" using len by (simp add: unat_of_nat64)
  obtain s1 r1 where al: "persistent_alloc_obj oc (length body) s = (s1, r1)" by force
  have "persistent_inv s' \<and> (r = Inl e \<longrightarrow> persistent_get_body oc' s' = persistent_get_body oc' s) \<and>
     (r = Inr u \<longrightarrow> persistent_get_body oc' s' =
       (if oc_digest oc' = oc_digest oc then (if body = [] then None else Some body) else persistent_get_body oc' s))"
    using inv al
  proof (cases rule: persistent_alloc_cases)
    case (refused e)
    then have "r = Inl e" "s' = s" using st al hint by (auto simp: store_body_in_def persistent_vtable_def)
    with inv show ?thesis by simp
  next
    case (taken i slab m m')
    let ?new = "slab\<lparr>sl_body_len := length body\<rparr>"
    let ?m = "mem_write (sl_offset slab) body m'"
    have s': "s' = s1\<lparr>ps_mmap := Some ?m, ps_allocations := (ps_allocations s1)[i := ?new]\<rparr>" and r: "r = Inr ()"
      using st al hint taken by (auto simp: store_body_in_def persistent_vtable_def persistent_extend_def vec_get_def)
    have wf: "slabs_wf (ps_total_size s') (ps_allocations s')"
      using slabs_wf_update[OF taken(5,6), of ?new] slabs_wfD(1)[OF taken(5,6)] taken(7,11) by (simp add: s')
    have idx: "index_wf (ps_allocations s) (ps_digest_index s)" using inv by (simp add: persistent_inv_def)
    have old: "j \<noteq> i \<and> j < length (ps_allocations s1) \<and> ps_allocations s1 ! j = ps_allocations s ! j \<and>
        j < length (ps_allocations s) \<and> sl_in_use (ps_allocations s ! j) \<and> sl_digest (ps_allocations s ! j) = d"
      if "ps_digest_index s d = Some j" for d j
      using idx that taken(14)[of j] unfolding index_wf_def by blast
    have inv': "persistent_inv s'"
      unfolding persistent_inv_def index_wf_def
      using wf taken(6-9,12) old by (auto simp: s' nth_list_update)
    have m': "ps_mmap s' = Some ?m" by (simp add: s')
    have "persistent_get_body oc' s' =
       (if oc_digest oc' = oc_digest oc then (if body = [] then None else Some body) else persistent_get_body oc' s)"
    proof (cases "oc_digest oc' = oc_digest oc")
      case True
      then show ?thesis using persistent_get_eq[OF inv' m', of oc'] taken(6,7,12) by (simp add: s' Let_def)
    next
      case False
      show ?thesis
      proof (cases "ps_digest_index s (oc_digest oc')")
        case None
        then show ?thesis
          using False persistent_get_eq[OF inv' m', of oc'] persistent_get_eq[OF inv taken(2), of oc'] taken(12) by (simp add: s')
      next
        case (Some j)
        note o = old[OF Some]
        have j1: "j < length (ps_allocations s1)" "j \<noteq> i" using o by auto
        let ?s = "ps_allocations s1 ! j"
        have dj: "slab_end ?s \<le> sl_offset slab \<or> slab_end slab \<le> sl_offset ?s"
          using slabs_wf_disjoint[OF taken(5) j1(1) taken(6) j1(2)] taken(7) by simp
        have "mem_read (sl_offset ?s) (sl_body_len ?s) ?m = mem_read (sl_offset ?s) (sl_body_len ?s) m'"
          using dj slabs_wfD(5)[OF taken(5) j1(1)] taken(11)
          by (intro mem_read_write_other) (auto simp: slab_end_def)
        also have "\<dots> = mem_read (sl_offset ?s) (sl_body_len ?s) m"
          using taken(4) slabs_wfD(3)[OF taken(5) j1(1)] by (intro mem_read_cong) auto
        finally show ?thesis
          using False Some o persistent_get_eq[OF inv' m', of oc'] persistent_get_eq[OF inv taken(2), of oc'] taken(12)
          by (simp add: s' Let_def)
      qed
    qed
    with inv' r show ?thesis by simp
  qed
  then show "persistent_inv s'" and "r = Inl e \<Longrightarrow> persistent_get_body oc' s' = persistent_get_body oc' s"
    and "r = Inr u \<Longrightarrow> persistent_get_body oc' s' =
       (if oc_digest oc' = oc_digest oc then (if body = [] then None else Some body) else persistent_get_body oc' s)"
    by simp_all
qed

lemma persistent_free_result:
  assumes inv: "persistent_inv s"
  shows "persistent_inv (persistent_free_obj oc s)"
    and "persistent_get_body oc' (persistent_free_obj oc s) =
       (if oc_digest oc' = oc_digest oc then None else persistent_get_body oc' s)"
proof -
  obtain m where m: "ps_mmap s = Some m" using inv by (auto simp: persistent_inv_def)
  have wf: "slabs_wf (ps_total_size s) (ps_allocations s)" and idx: "index_wf (ps_allocations s) (ps_digest_index s)"
    using inv by (simp_all add: persistent_inv_def)
  have "persistent_inv (persistent_free_obj oc s) \<and> persistent_get_body oc' (persistent_free_obj oc s) =
       (if oc_digest oc' = oc_digest oc then None else persistent_get_body oc' s)"
  proof (cases "ps_digest_index s (oc_digest oc)")
    case None
    then show ?thesis
      using inv persistent_get_eq[OF inv m, of oc'] by (auto simp: persistent_free_obj_def)
  next
    case (Some i)
    then have i: "i < length (ps_allocations s)" "sl_digest (ps_allocations s ! i) = oc_digest oc"
      using idx by (auto simp: index_wf_def)
    let ?slab = "(ps_allocations s ! i)\<lparr>sl_in_use := False, sl_body_len := 0, sl_attrs := Map.empty\<rparr>"
    let ?s = "persistent_free_obj oc s"
    have s': "?s = s\<lparr>ps_digest_index := (ps_digest_index s)(oc_digest oc := None), ps_allocations := (ps_allocations s)[i := ?slab],
        ps_used_size := ps_used_size s - of_nat (sl_size ?slab), ps_mmap := Some (entry_write ?slab m)\<rparr>"
      using Some i m by (simp add: persistent_free_obj_def Let_def write_slab_entry_def)
    have wf': "slabs_wf (ps_total_size s) ((ps_allocations s)[i := ?slab])"
      using slabs_wf_update[OF wf i(1), of ?slab] slabs_wfD(1)[OF wf i(1)] by simp
    have ne: "j \<noteq> i" if "ps_digest_index s d = Some j" "d \<noteq> oc_digest oc" for d j
      using idx that i(2) unfolding index_wf_def by blast
    have "index_wf ((ps_allocations s)[i := ?slab]) ((ps_digest_index s)(oc_digest oc := None))"
      unfolding index_wf_def
    proof (intro allI impI)
      fix d j
      assume dj: "((ps_digest_index s)(oc_digest oc := None)) d = Some j"
      then have dj: "ps_digest_index s d = Some j" "d \<noteq> oc_digest oc" by (auto split: if_splits)
      then have "i \<noteq> j" using ne by blast
      moreover have "j < length (ps_allocations s)" "sl_in_use (ps_allocations s ! j)" "sl_digest (ps_allocations s ! j) = d"
        using idx dj(1) unfolding index_wf_def by blast+
      ultimately show "j < length ((ps_allocations s)[i := ?slab]) \<and> sl_in_use ((ps_allocations s)[i := ?slab] ! j) \<and>
          sl_digest ((ps_allocations s)[i := ?slab] ! j) = d"
        by simp
    qed
    with wf' have inv': "persistent_inv ?s" by (simp add: persistent_inv_def s')
    have m': "ps_mmap ?s = Some (entry_write ?slab m)" by (simp add: s')
    have same: "mem_read (sl_offset (ps_allocations s ! j)) n (entry_write ?slab m) = mem_read (sl_offset (ps_allocations s ! j)) n m"
      if "j < length (ps_allocations s)" for j n
      using entry_write_data[of ?slab _ m] slabs_wfD(1,2)[OF wf i(1)] slabs_wfD(3)[OF wf that]
      by (intro mem_read_cong) auto
    have "persistent_get_body oc' ?s = (if oc_digest oc' = oc_digest oc then None else persistent_get_body oc' s)"
    proof (cases "ps_digest_index s (oc_digest oc')")
      case None
      then show ?thesis
        using persistent_get_eq[OF inv' m', of oc'] persistent_get_eq[OF inv m, of oc'] by (simp add: s')
    next
      case (Some j)
      then have "j < length (ps_allocations s)" using idx by (auto simp: index_wf_def)
      note sm = same[OF this]
      show ?thesis
      proof (cases "oc_digest oc' = oc_digest oc")
        case True
        then show ?thesis using persistent_get_eq[OF inv' m', of oc'] by (simp add: s')
      next
        case False
        then have "i \<noteq> j" using ne[OF Some] by blast
        then show ?thesis
          using False Some sm persistent_get_eq[OF inv' m', of oc'] persistent_get_eq[OF inv m, of oc']
          by (simp add: s' Let_def)
      qed
    qed
    with inv' show ?thesis by simp
  qed
  then show "persistent_inv (persistent_free_obj oc s)"
    and "persistent_get_body oc' (persistent_free_obj oc s) =
       (if oc_digest oc' = oc_digest oc then None else persistent_get_body oc' s)" by simp_all
qed

lemma persistent_sv [simp]:
  "sv_get_body persistent_vtable = persistent_get_body" "sv_free_obj persistent_vtable = persistent_free_obj"
  by (simp_all add: persistent_vtable_def)

interpretation persistent_bodies: body_store persistent_vtable persistent_inv
proof (unfold_locales, unfold persistent_sv)
  fix oc oc' :: objcore and s s' :: persistent_stevedore and body r u e
  show "oc_digest oc = oc_digest oc' \<Longrightarrow> persistent_get_body oc s = persistent_get_body oc' s"
    by (simp add: persistent_get_body_def persistent_read_body_def)
  show "persistent_inv s'" if "persistent_inv s" "length body < 2 ^ 64" "store_body_in persistent_vtable oc body s = (s', r)"
    by (rule persistent_store_result(1)[OF that])
  show "persistent_get_body oc' s' = (if oc_digest oc' = oc_digest oc then (if body = [] then None else Some body) else persistent_get_body oc' s)"
    if "persistent_inv s" "length body < 2 ^ 64" "store_body_in persistent_vtable oc body s = (s', Inr u)"
    by (rule persistent_store_result(3)[OF that refl])
  show "persistent_get_body oc' s' = persistent_get_body oc' s"
    if "persistent_inv s" "length body < 2 ^ 64" "store_body_in persistent_vtable oc body s = (s', Inl e)"
    by (rule persistent_store_result(2)[OF that refl])
qed (use persistent_free_result in blast)+


lemma persistent_inv_fresh:
  assumes "persistent_new name path n = Some s0"
  shows "persistent_inv (persistent_open None s0)" "persistent_bodies.contents (persistent_open None s0) = Map.empty"
proof -
  have s0: "s0 = \<lparr>ps_name = name, ps_path = path, ps_total_size = n, ps_used_size = 0, ps_mmap = None,
             ps_allocations = [], ps_digest_index = Map.empty, ps_open = False\<rparr>"
    using assms by (simp add: persistent_new_def split: if_splits)
  show "persistent_inv (persistent_open None s0)"
    by (simp add: s0 persistent_open_def write_header_def persistent_inv_def slabs_wf_def index_wf_def Let_def)
  show "persistent_bodies.contents (persistent_open None s0) = Map.empty"
    unfolding persistent_bodies.contents_def fun_eq_iff
    by (simp add: s0 persistent_open_def write_header_def persistent_get_body_def persistent_read_body_def Let_def)
qed



section \<open>Restart\<close>

text \<open>What the slab table on disk says of slab \<open>i\<close>: all of it but the body length, which stays zero.\<close>

definition nonzero :: "digest \<Rightarrow> bool" where
  "nonzero d \<longleftrightarrow> digest_wf d \<and> \<not> list_all (\<lambda>b. b = 0) (bytes d)"

definition entry_matches :: "(nat \<Rightarrow> u8) \<Rightarrow> nat \<Rightarrow> slab_entry \<Rightarrow> bool" where
  "entry_matches m i slab \<longleftrightarrow> nonzero (sl_digest slab) \<and> mem_read (entry_offset i) 32 m = bytes (sl_digest slab) \<and>
     le_value (mem_read (entry_offset i + 32) 8 m) = sl_offset slab \<and>
     le_value (mem_read (entry_offset i + 40) 8 m) = sl_size slab \<and>
     (m (entry_offset i + 48) \<noteq> 0) = sl_in_use slab \<and> le_value (mem_read (entry_offset i + 49) 8 m) = 0"

definition entry_blank :: "(nat \<Rightarrow> u8) \<Rightarrow> nat \<Rightarrow> bool" where
  "entry_blank m i \<longleftrightarrow> (\<forall>k < 64. m (entry_offset i + k) = 0)"

definition header_ok :: "(nat \<Rightarrow> u8) \<Rightarrow> bool" where
  "header_ok m \<longleftrightarrow> mem_read 0 8 m = MAGIC \<and> le_value (mem_read 8 4 m) = VERSION"

definition disk_matches :: "(nat \<Rightarrow> u8) \<Rightarrow> slab_entry list \<Rightarrow> bool" where
  "disk_matches m allocs \<longleftrightarrow> header_ok m \<and> (\<forall>i < length allocs. entry_matches m i (allocs ! i)) \<and>
     (\<forall>i. length allocs \<le> i \<longrightarrow> i < MAX_SLABS \<longrightarrow> entry_blank m i)"

lemma mem_read_cong_range: "(\<And>x. off \<le> x \<Longrightarrow> x < off + n \<Longrightarrow> m x = m' x) \<Longrightarrow> mem_read off n m = mem_read off n m'"
  by (simp add: mem_read_def)

lemma entry_matches_cong:
  assumes "\<And>k. k < 64 \<Longrightarrow> m (entry_offset i + k) = m' (entry_offset i + k)"
  shows "entry_matches m i slab = entry_matches m' i slab" "entry_blank m i = entry_blank m' i"
proof -
  have *: "m x = m' x" if "entry_offset i \<le> x" "x < entry_offset i + 64" for x
    using assms[of "x - entry_offset i"] that by simp
  show "entry_matches m i slab = entry_matches m' i slab"
    unfolding entry_matches_def
    using mem_read_cong_range[of "entry_offset i" 32 m m'] mem_read_cong_range[of "entry_offset i + 32" 8 m m']
      mem_read_cong_range[of "entry_offset i + 40" 8 m m'] mem_read_cong_range[of "entry_offset i + 49" 8 m m'] * by simp
  show "entry_blank m i = entry_blank m' i" using assms by (auto simp: entry_blank_def)
qed

text \<open>The round trip of one table entry.\<close>

lemma mem_read_write_at:
  "n = length data \<Longrightarrow> mem_read off n (mem_write off data m) = data"
  by simp

lemma entry_write_matches:
  assumes "nonzero (sl_digest slab)" "sl_offset slab < 2 ^ 64" "sl_size slab < 2 ^ 64" "sl_body_len slab = 0"
  shows "entry_matches (entry_write slab m) (sl_index slab) slab"
proof -
  have len: "length (bytes (sl_digest slab)) = 32"
    using assms(1) by (simp add: nonzero_def digest_wf_def DIGEST_LEN_def)
  have p: "256 ^ 8 = (2 :: nat) ^ 64" by simp
  show ?thesis
    unfolding entry_matches_def entry_write_def Let_def
    using assms len p
    by (simp add: mem_read_write_other mem_read_write_at[of 32] mem_read_write_at[of 8] del: mem_read_write_same)
       (simp add: mem_write_def)
qed

lemma entry_write_other:
  assumes "i \<noteq> sl_index slab" "k < 64"
  shows "entry_write slab m (entry_offset i + k) = m (entry_offset i + k)"
proof -
  have "entry_offset i + k < entry_offset (sl_index slab) \<or> entry_offset (sl_index slab) + 64 \<le> entry_offset i + k"
  proof (cases "i < sl_index slab")
    case True
    then have "Suc i * SLAB_ENTRY_SIZE \<le> sl_index slab * SLAB_ENTRY_SIZE" by (intro mult_right_mono) auto
    with assms(2) show ?thesis by (simp add: SLAB_ENTRY_SIZE_def)
  next
    case False
    then have "Suc (sl_index slab) * SLAB_ENTRY_SIZE \<le> i * SLAB_ENTRY_SIZE" using assms(1) by (intro mult_right_mono) auto
    then show ?thesis by (simp add: SLAB_ENTRY_SIZE_def)
  qed
  then show ?thesis by (auto simp: entry_write_def Let_def mem_write_outside)
qed


lemma disk_matches_entry_write:
  assumes dm: "header_ok m" "\<And>i. i < length allocs \<Longrightarrow> i \<noteq> j \<Longrightarrow> entry_matches m i (allocs ! i)"
      "\<And>i. length allocs \<le> i \<Longrightarrow> i < MAX_SLABS \<Longrightarrow> i \<noteq> j \<Longrightarrow> entry_blank m i"
    and j: "j < length allocs" "sl_index slab = j" "nonzero (sl_digest slab)" "sl_offset slab < 2 ^ 64" "sl_size slab < 2 ^ 64" "sl_body_len slab = 0"
  shows "disk_matches (entry_write slab m) (allocs[j := slab])"
proof -
  have other: "entry_matches (entry_write slab m) i sl = entry_matches m i sl" "entry_blank (entry_write slab m) i = entry_blank m i"
    if "i \<noteq> j" for i sl
    using entry_matches_cong(1)[of "entry_write slab m" i m sl] entry_matches_cong(2)[of "entry_write slab m" i m]
      entry_write_other[of i slab _ m] that j(2) by auto
  have hdr: "entry_write slab m x = m x" if "x < FILE_HEADER_SIZE" for x
    using that by (simp add: entry_write_def Let_def mem_write_outside)
  have "header_ok (entry_write slab m)"
    using dm(1) hdr mem_read_cong_range[of 0 8 "entry_write slab m" m] mem_read_cong_range[of 8 4 "entry_write slab m" m]
    by (simp add: header_ok_def FILE_HEADER_SIZE_def)
  moreover have "entry_matches (entry_write slab m) j slab"
    using entry_write_matches[of slab m] j by simp
  ultimately show ?thesis
    unfolding disk_matches_def using dm(2,3) other j(1) by (auto simp: nth_list_update)
qed

lemma disk_matches_data_write:
  assumes "disk_matches m allocs" "length allocs \<le> MAX_SLABS" "DATA_REGION_OFFSET \<le> off"
  shows "disk_matches (mem_write off data m) allocs"
proof -
  have low: "mem_write off data m x = m x" if "x < DATA_REGION_OFFSET" for x
    using that assms(3) by (simp add: mem_write_outside)
  have ent: "entry_offset i + k < DATA_REGION_OFFSET" if "i < MAX_SLABS" "k < 64" for i k
    using entry_offset_data[OF that(1)] that(2) by (simp add: SLAB_ENTRY_SIZE_def)
  have "header_ok (mem_write off data m)"
    using assms(1) low mem_read_cong_range[of 0 8 "mem_write off data m" m] mem_read_cong_range[of 8 4 "mem_write off data m" m]
    by (simp add: disk_matches_def header_ok_def DATA_REGION_OFFSET_def FILE_HEADER_SIZE_def)
  moreover have "entry_matches (mem_write off data m) i sl = entry_matches m i sl" "entry_blank (mem_write off data m) i = entry_blank m i"
    if "i < MAX_SLABS" for i sl
    using entry_matches_cong(1)[of "mem_write off data m" i m sl] entry_matches_cong(2)[of "mem_write off data m" i m]
      low ent[OF that] by auto
  ultimately show ?thesis using assms(1,2) unfolding disk_matches_def by auto
qed

lemma disk_matches_body_len:
  assumes "disk_matches m allocs" "sl_index slab = sl_index (allocs ! i)" "sl_offset slab = sl_offset (allocs ! i)" "sl_size slab = sl_size (allocs ! i)"
    "sl_in_use slab = sl_in_use (allocs ! i)" "sl_digest slab = sl_digest (allocs ! i)"
  shows "disk_matches m (allocs[i := slab])"
proof (cases "i < length allocs")
  case True
  have "entry_matches m i slab = entry_matches m i (allocs ! i)" using assms(2-) by (simp add: entry_matches_def)
  then show ?thesis using assms(1) True unfolding disk_matches_def by (auto simp: nth_list_update)
qed (use assms(1) in \<open>simp add: list_update_beyond\<close>)

definition restart_inv :: "persistent_stevedore \<Rightarrow> bool" where
  "restart_inv s \<longleftrightarrow> persistent_inv s \<and> ps_total_size s < 2 ^ 64 \<and> disk_matches (the (ps_mmap s)) (ps_allocations s)"

primrec op_nonzero :: "store_op \<Rightarrow> bool" where
  "op_nonzero (B_Store oc body) \<longleftrightarrow> length body < 2 ^ 64 \<and> nonzero (oc_digest oc)"
| "op_nonzero (B_Free oc) \<longleftrightarrow> nonzero (oc_digest oc)"

lemma take_slab_disk:
  assumes wf: "slabs_wf (ps_total_size s1) (ps_allocations s1)" and lim: "ps_total_size s1 < 2 ^ 64"
    and m: "ps_mmap s1 = Some m" and i: "i < length (ps_allocations s1)" and d: "nonzero d"
    and dm: "header_ok m" "\<And>k. k < length (ps_allocations s1) \<Longrightarrow> k \<noteq> i \<Longrightarrow> entry_matches m k (ps_allocations s1 ! k)"
      "\<And>k. length (ps_allocations s1) \<le> k \<Longrightarrow> k < MAX_SLABS \<Longrightarrow> k \<noteq> i \<Longrightarrow> entry_blank m k"
  shows "disk_matches (the (ps_mmap (take_slab d i s1))) (ps_allocations (take_slab d i s1))"
proof -
  let ?slab = "(ps_allocations s1 ! i)\<lparr>sl_in_use := True, sl_digest := d, sl_body_len := 0, sl_attrs := Map.empty\<rparr>"
  have "sl_offset ?slab < 2 ^ 64" "sl_size ?slab < 2 ^ 64" "sl_index ?slab = i"
    using slabs_wfD(1,4)[OF wf i] lim by (auto simp: slab_end_def)
  from disk_matches_entry_write[OF dm i this(3) _ this(1,2)] d m show ?thesis
    by (simp add: take_slab_def Let_def write_slab_entry_def)
qed


lemma persistent_alloc_disk:
  assumes inv: "restart_inv s" and d: "nonzero (oc_digest oc)" and al: "persistent_alloc_obj oc n s = (s', Inr u)"
  shows "disk_matches (the (ps_mmap s')) (ps_allocations s') \<and> ps_total_size s' = ps_total_size s"
proof -
  let ?req = "max n 64"
  obtain m where m: "ps_mmap s = Some m" using inv by (auto simp: restart_inv_def persistent_inv_def)
  have wf: "slabs_wf (ps_total_size s) (ps_allocations s)" and lim: "ps_total_size s < 2 ^ 64"
    and dm: "disk_matches m (ps_allocations s)"
    using inv m by (simp_all add: restart_inv_def persistent_inv_def)
  obtain s1 i where pk: "(case find_free_slab ?req s of Some i \<Rightarrow> (s, Inr i) | None \<Rightarrow> alloc_new_slab ?req s) = (s1, Inr i)"
    and s': "s' = (take_slab (oc_digest oc) i s1)\<lparr>ps_digest_index := (ps_digest_index (take_slab (oc_digest oc) i s1))(oc_digest oc \<mapsto> i)\<rparr>"
    using al by (auto simp: persistent_alloc_obj_def Let_def split: prod.splits sum.splits)
  have "disk_matches (the (ps_mmap (take_slab (oc_digest oc) i s1))) (ps_allocations (take_slab (oc_digest oc) i s1)) \<and>
      ps_total_size s1 = ps_total_size s"
  proof (cases "find_free_slab ?req s")
    case (Some k)
    then have k: "s1 = s" "k = i" "i < length (ps_allocations s)"
      using pk position_SomeD[of _ "ps_allocations s" k] by (auto simp: find_free_slab_def)
    then show ?thesis
      using take_slab_disk[OF wf lim m _ d, of i] dm unfolding disk_matches_def by simp
  next
    case None
    then have an: "alloc_new_slab ?req s = (s1, Inr i)" using pk by simp
    obtain slab where s1: "s1 = s\<lparr>ps_allocations := ps_allocations s @ [slab]\<rparr>" using alloc_new_slab_wf(2)[OF wf an] by blast
    have i: "i = length (ps_allocations s)" and wf1: "slabs_wf (ps_total_size s1) (ps_allocations s1)"
      using alloc_new_slab_wf[OF wf an] by auto
    have "disk_matches (the (ps_mmap (take_slab (oc_digest oc) i s1))) (ps_allocations (take_slab (oc_digest oc) i s1))"
      by (rule take_slab_disk[OF wf1 _ _ _ d, of m]) (use dm lim m in \<open>auto simp: s1 i disk_matches_def nth_append\<close>)
    then show ?thesis by (simp add: s1)
  qed
  then show ?thesis by (simp add: s' take_slab_def Let_def write_slab_entry_def split: option.splits)
qed

lemma restart_inv_step:
  assumes inv: "restart_inv s" and op: "op_nonzero op" and st: "store_exec persistent_vtable s op = (s', r)"
  shows "restart_inv s'"
proof -
  have pinv: "persistent_inv s" using inv by (simp add: restart_inv_def)
  obtain m where m: "ps_mmap s = Some m" using pinv by (auto simp: persistent_inv_def)
  show ?thesis
  proof (cases op)
    case (B_Store oc body)
    then have len: "length body < 2 ^ 64" and d: "nonzero (oc_digest oc)" and st: "store_body_in persistent_vtable oc body s = (s', r)"
      using op st by auto
    have hint: "unat (of_nat (length body) :: usize) = length body" using len by (simp add: unat_of_nat64)
    have pinv': "persistent_inv s'" by (rule persistent_store_result(1)[OF pinv len st])
    obtain s1 r1 where al: "persistent_alloc_obj oc (length body) s = (s1, r1)" by force
    show ?thesis
      using pinv al
    proof (cases rule: persistent_alloc_cases)
      case (refused e)
      then have "s' = s" using st al hint by (auto simp: store_body_in_def persistent_vtable_def)
      with inv show ?thesis by simp
    next
      case (taken i slab m0 m')
      have al': "persistent_alloc_obj oc (length body) s = (s1, Inr ())" using al taken(1) by simp
      note disk = persistent_alloc_disk[OF inv d al']
      have s': "s' = s1\<lparr>ps_mmap := Some (mem_write (sl_offset slab) body m'),
          ps_allocations := (ps_allocations s1)[i := slab\<lparr>sl_body_len := length body\<rparr>]\<rparr>"
        using st al hint taken by (auto simp: store_body_in_def persistent_vtable_def persistent_extend_def vec_get_def)
      have "disk_matches (mem_write (sl_offset slab) body m') (ps_allocations s1)"
        using disk taken(3) slabs_wfD(3)[OF taken(5,6)] taken(5,7)
        by (intro disk_matches_data_write) (auto simp: slabs_wf_def)
      then have "disk_matches (mem_write (sl_offset slab) body m') ((ps_allocations s1)[i := slab\<lparr>sl_body_len := length body\<rparr>])"
        by (rule disk_matches_body_len) (use taken(7) in auto)
      then show ?thesis using pinv' disk inv by (simp add: restart_inv_def s')
    qed
  next
    case (B_Free oc)
    then have s': "s' = persistent_free_obj oc s" using st by auto
    have pinv': "persistent_inv s'" using persistent_free_result(1)[OF pinv] s' by simp
    have wf: "slabs_wf (ps_total_size s) (ps_allocations s)" and lim: "ps_total_size s < 2 ^ 64"
      and dm: "disk_matches m (ps_allocations s)"
      using inv m by (simp_all add: restart_inv_def persistent_inv_def)
    show ?thesis
    proof (cases "ps_digest_index s (oc_digest oc)")
      case None
      then show ?thesis using inv s' by (simp add: persistent_free_obj_def)
    next
      case (Some i)
      then have i: "i < length (ps_allocations s)" "sl_digest (ps_allocations s ! i) = oc_digest oc"
        using pinv by (auto simp: persistent_inv_def index_wf_def)
      let ?slab = "(ps_allocations s ! i)\<lparr>sl_in_use := False, sl_body_len := 0, sl_attrs := Map.empty\<rparr>"
      have "disk_matches (entry_write ?slab m) ((ps_allocations s)[i := ?slab])"
        using dm i slabs_wfD(1,4)[OF wf i(1)] lim op B_Free
        by (intro disk_matches_entry_write) (auto simp: disk_matches_def slab_end_def)
      then show ?thesis
        using pinv' Some i m lim s' by (simp add: restart_inv_def persistent_free_obj_def Let_def write_slab_entry_def)
    qed
  qed
qed

lemma persistent_total_size: "ps_total_size (fst (store_exec persistent_vtable s op)) = ps_total_size s"
  by (cases op)
    (auto simp: store_body_in_def persistent_vtable_def persistent_alloc_obj_def alloc_new_slab_def take_slab_def write_slab_entry_def
      persistent_extend_def persistent_free_obj_def Let_def split: option.splits prod.splits sum.splits if_splits)

lemma fresh_disk: "disk_matches (mem_write 12 (le_bytes 8 n) (mem_write 8 (le_bytes 4 VERSION) (mem_write 0 MAGIC (\<lambda>_. 0)))) []"
proof -
  let ?m = "mem_write 12 (le_bytes 8 n) (mem_write 8 (le_bytes 4 VERSION) (mem_write 0 MAGIC (\<lambda>_. 0)))"
  have "mem_read 0 8 ?m = MAGIC"
    by (simp add: mem_read_write_other mem_read_write_at MAGIC_def del: mem_read_write_same)
  moreover have "le_value (mem_read 8 4 ?m) = VERSION"
    by (simp add: mem_read_write_other mem_read_write_at VERSION_def del: mem_read_write_same)
  moreover have "?m (entry_offset i + k) = 0" for i k
    by (simp add: mem_write_outside FILE_HEADER_SIZE_def MAGIC_def)
  ultimately show ?thesis by (simp add: disk_matches_def header_ok_def entry_blank_def)
qed

text \<open>The scan of a table that matches: every slab comes back, with nothing of its body.\<close>

definition forget_body :: "slab_entry \<Rightarrow> slab_entry" where
  "forget_body slab = slab\<lparr>sl_body_len := 0, sl_attrs := Map.empty\<rparr>"

lemma load_slabs_matches:
  assumes dm: "disk_matches m allocs" and wf: "slabs_wf limit allocs" and lim: "DATA_REGION_OFFSET \<le> limit"
  shows "k \<le> length allocs \<Longrightarrow> fst (load_slabs (MAX_SLABS - k) limit m (acc, idx, rec, used)) = acc @ map forget_body (drop k allocs)"
proof (induction "length allocs - k" arbitrary: k acc idx rec used)
  case 0
  then have k: "k = length allocs" by simp
  show ?case
  proof (cases "MAX_SLABS - k")
    case (Suc r)
    then have kM: "k < MAX_SLABS" and i: "MAX_SLABS - Suc r = k" by auto
    have "entry_offset k + SLAB_ENTRY_SIZE \<le> limit" using entry_offset_data[OF kM] lim by linarith
    moreover have bl: "entry_blank m k" using dm k kM by (simp add: disk_matches_def)
    then have "m (entry_offset k + 48) = 0" "mem_read (entry_offset k) 32 m = replicate 32 0"
      by (simp_all add: entry_blank_def mem_read_def list_eq_iff_nth_eq)
    ultimately have "fst (load_slabs (Suc r) limit m (acc, idx, rec, used)) = acc"
      unfolding load_slabs.simps(2) Let_def i by (simp add: list_all_iff del: load_slabs.simps)
    then show ?thesis using k Suc by simp
  qed (use k in simp)
next
  case (Suc n)
  then have k: "k < length allocs" by simp
  have kM: "k < MAX_SLABS" using slabs_wfD(2)[OF wf k] .
  then obtain r where r: "MAX_SLABS - k = Suc r" "MAX_SLABS - Suc r = k" "r = MAX_SLABS - Suc k"
    by (cases "MAX_SLABS - k") auto
  have off: "entry_offset k + SLAB_ENTRY_SIZE \<le> limit" using entry_offset_data[OF kM] lim by linarith
  have em: "entry_matches m k (allocs ! k)" using dm k by (simp add: disk_matches_def)
  have dr: "drop k allocs = allocs ! k # drop (Suc k) allocs" using k by (simp add: Cons_nth_drop_Suc)
  have fb: "forget_body (allocs ! k) = \<lparr>sl_index = k, sl_offset = sl_offset (allocs ! k), sl_size = sl_size (allocs ! k),
      sl_in_use = sl_in_use (allocs ! k), sl_digest = sl_digest (allocs ! k), sl_body_len = 0, sl_attrs = Map.empty\<rparr>"
    using slabs_wfD(1)[OF wf k] by (simp add: forget_body_def)
  note e = em[unfolded entry_matches_def nonzero_def]
  have "\<exists>idx' rec' used'. load_slabs (Suc r) limit m (acc, idx, rec, used) = load_slabs r limit m (acc @ [forget_body (allocs ! k)], idx', rec', used')"
    unfolding load_slabs.simps(2) Let_def r(2) fb
    by (cases "sl_in_use (allocs ! k)") (use e off in \<open>simp_all del: load_slabs.simps, blast+\<close>)
  then obtain idx' rec' used' where
    "load_slabs (Suc r) limit m (acc, idx, rec, used) = load_slabs r limit m (acc @ [forget_body (allocs ! k)], idx', rec', used')" by blast
  moreover have "Suc k \<le> length allocs" "n = length allocs - Suc k" using k Suc by auto
  ultimately show ?case
    using Suc.hyps(1)[of "Suc k" "acc @ [forget_body (allocs ! k)]" idx' rec' used']
    unfolding r(1) dr r(3) by simp
qed

text \<open>
  C24: A restart recovers the slab table and loses every body: after any sequence of stores and frees
  on a fresh file, opening the file again yields exactly the same slabs, with their digests, offsets,
  sizes and use flags, but the length of every body is zero, so that no body can be read any more.
\<close>

theorem persistent_restart_forgets_bodies:
  assumes "persistent_new name path n = Some s0" "n < 2 ^ 64" "list_all op_nonzero ops"
    and "run (store_exec persistent_vtable) (persistent_open None s0) ops = (s, outs)"
  shows "ps_allocations (persistent_open (ps_mmap s) s0) = map forget_body (ps_allocations s) \<and>
         persistent_get_body oc (persistent_open (ps_mmap s) s0) = None"
proof -
  have n: "n > DATA_REGION_OFFSET" and s0: "s0 = \<lparr>ps_name = name, ps_path = path, ps_total_size = n, ps_used_size = 0, ps_mmap = None,
             ps_allocations = [], ps_digest_index = Map.empty, ps_open = False\<rparr>"
    using assms(1) by (simp_all add: persistent_new_def split: if_splits)
  have "restart_inv (persistent_open None s0) \<and> ps_total_size (persistent_open None s0) = n"
    using persistent_inv_fresh(1)[OF assms(1)] assms(2) fresh_disk[of n]
    by (simp add: restart_inv_def s0 persistent_open_def write_header_def Let_def)
  then have inv: "restart_inv s \<and> ps_total_size s = n"
    using run_simulation[where R = "\<lambda>s t. (restart_inv s \<and> ps_total_size s = n) \<and> s = t" and f = "store_exec persistent_vtable" and
        g = "store_exec persistent_vtable" and P = op_nonzero and h = id and cs = ops and s = "persistent_open None s0" and t = "persistent_open None s0"]
      restart_inv_step persistent_total_size assms(3,4) by (metis (no_types, lifting) fst_conv id_apply prod.collapse)
  obtain m where m: "ps_mmap s = Some m" using inv by (auto simp: restart_inv_def persistent_inv_def)
  have dm: "disk_matches m (ps_allocations s)" and wf: "slabs_wf n (ps_allocations s)"
    using inv m by (auto simp: restart_inv_def persistent_inv_def)
  obtain allocs idx rc used where ld: "load_slabs MAX_SLABS n m ([], Map.empty, [], 0) = (allocs, idx, rc, used)"
    by (metis prod_cases4)
  have al: "allocs = map forget_body (ps_allocations s)"
    using load_slabs_matches[OF dm wf, of 0 "[]" Map.empty "[]" 0] n ld by simp
  have hv: "FILE_HEADER_SIZE \<le> n" using n by (simp add: DATA_REGION_OFFSET_def)
  let ?s = "persistent_open (ps_mmap s) s0"
  have opn: "?s = s0\<lparr>ps_mmap := Some m, ps_allocations := allocs, ps_digest_index := idx, ps_used_size := of_nat used, ps_open := True\<rparr>"
    using dm hv m by (simp add: persistent_open_def validate_header_def disk_matches_def header_ok_def load_existing_def s0 ld Let_def)
  have "persistent_get_body oc ?s = None"
    by (auto simp: persistent_get_body_def persistent_read_body_def opn al vec_get_def forget_body_def split: option.splits)
  then show ?thesis by (simp add: opn al)
qed

theorem persistent_restart_forgets_bodies_witness:
  "\<exists>s0 s outs. persistent_new ''p'' ''f'' 5000000 = Some s0 \<and>
     run (store_exec persistent_vtable) (persistent_open None s0) [B_Store (objcore_new (make_digest 1)) [1, 2, 3]] = (s, outs) \<and>
     outs = [Inr ()] \<and> persistent_get_body (objcore_new (make_digest 1)) (persistent_open (ps_mmap s) s0) = None"
proof -
  let ?ops = "[B_Store (objcore_new (make_digest 1)) [1, 2, 3]]"
  obtain s0 where n: "persistent_new ''p'' ''f'' 5000000 = Some s0"
    by (simp add: persistent_new_def DATA_REGION_OFFSET_def FILE_HEADER_SIZE_def MAX_SLABS_def SLAB_ENTRY_SIZE_def)
  then have s0: "s0 = \<lparr>ps_name = ''p'', ps_path = ''f'', ps_total_size = 5000000, ps_used_size = 0, ps_mmap = None,
             ps_allocations = [], ps_digest_index = Map.empty, ps_open = False\<rparr>"
    by (simp add: persistent_new_def split: if_splits)
  obtain s outs where r: "run (store_exec persistent_vtable) (persistent_open None s0) ?ops = (s, outs)" by force
  then have outs: "outs = [Inr ()]"
    by (auto simp: store_body_in_def persistent_vtable_def persistent_alloc_obj_def find_free_slab_def alloc_new_slab_def
        take_slab_def write_slab_entry_def persistent_extend_def persistent_open_def write_header_def
        s0 DATA_REGION_OFFSET_def FILE_HEADER_SIZE_def MAX_SLABS_def SLAB_ENTRY_SIZE_def align8_def DATA_ALIGN_def objcore_new_def Let_def)
  have nz: "list_all op_nonzero ?ops"
    by (simp add: nonzero_def objcore_new_def bytes_make_digest)
  from persistent_restart_forgets_bodies[OF n _ nz r] outs r n show ?thesis by simp
qed


section \<open>Two allocations at once\<close>

text \<open>
  The two sections of \<open>alloc_obj\<close> that a concurrent allocation can come between: the search for a
  free slab, and the taking of the slab found with its entry in the index.
\<close>

definition finish_alloc :: "digest \<Rightarrow> nat \<Rightarrow> persistent_stevedore \<Rightarrow> persistent_stevedore" where
  "finish_alloc d i s = (let s2 = take_slab d i s in s2\<lparr>ps_digest_index := (ps_digest_index s2)(d \<mapsto> i)\<rparr>)"

lemma alloc_obj_sections:
  "find_free_slab (max n 64) s = Some i \<Longrightarrow> persistent_alloc_obj oc n s = (finish_alloc (oc_digest oc) i s, Inr ())"
  by (simp add: persistent_alloc_obj_def finish_alloc_def Let_def)

text \<open>
  Two concurrent allocations can be given the same slab: when a free slab fits both requests and
  both searches run before either takes it, the index maps both digests to that slab.
\<close>

theorem persistent_alloc_race:
  assumes "find_free_slab (max n 64) s = Some i" "d1 \<noteq> d2"
  shows "let s' = finish_alloc d2 i (finish_alloc d1 i s) in
         ps_digest_index s' d1 = Some i \<and> ps_digest_index s' d2 = Some i"
  using assms by (simp add: finish_alloc_def take_slab_def write_slab_entry_def Let_def split: option.splits)

theorem persistent_alloc_race_witness:
  "let s0 = \<lparr>ps_name = ''p'', ps_path = ''f'', ps_total_size = 5000000, ps_used_size = 0, ps_mmap = Some (\<lambda>_. 0),
      ps_allocations = [\<lparr>sl_index = 0, sl_offset = DATA_REGION_OFFSET, sl_size = 64, sl_in_use = False, sl_digest = make_digest 9,
        sl_body_len = 0, sl_attrs = Map.empty\<rparr>], ps_digest_index = Map.empty, ps_open = True\<rparr>;
       s' = finish_alloc (make_digest 2) 0 (finish_alloc (make_digest 1) 0 s0)
   in find_free_slab 64 s0 = Some 0 \<and> ps_digest_index s' (make_digest 1) = Some 0 \<and> ps_digest_index s' (make_digest 2) = Some 0"
proof -
  define s0 where "s0 = \<lparr>ps_name = ''p'', ps_path = ''f'', ps_total_size = 5000000, ps_used_size = 0, ps_mmap = Some (\<lambda>_. 0 :: u8),
      ps_allocations = [\<lparr>sl_index = 0, sl_offset = DATA_REGION_OFFSET, sl_size = 64, sl_in_use = False, sl_digest = make_digest 9,
        sl_body_len = 0, sl_attrs = Map.empty\<rparr>], ps_digest_index = Map.empty, ps_open = True\<rparr>"
  have f: "find_free_slab (max 0 64) s0 = Some 0" by (simp add: s0_def find_free_slab_def)
  have "make_digest 1 \<noteq> make_digest 2" by simp
  from persistent_alloc_race[OF f this] f show ?thesis
    unfolding s0_def by (simp add: Let_def)
qed

end
