(* ===== verification/Http_Rfc2616.thy ===== *)
theory Http_Rfc2616
  imports Http_Headers Rust_Words
begin

text \<open>
  Freshness of \<^verbatim>\<open>rv-http\<close> (\<^verbatim>\<open>rfc2616.rs\<close>): Cache-Control directives, the lifetime of a response,
  conditional requests and HTTP dates.  The properties read the headers as text: dates are compared
  with a calendar that counts the days of years and months one by one, and lifetimes with the
  numbers printed in the headers.
\<close>

section \<open>Cache-Control\<close>

record cache_control =
  cc_max_age :: "f64 option"
  cc_s_maxage :: "f64 option"
  cc_no_cache :: bool
  cc_no_store :: bool
  cc_must_revalidate :: bool
  cc_proxy_revalidate :: bool
  cc_public :: bool
  cc_private :: bool
  cc_immutable :: bool
  cc_stale_while_revalidate :: "f64 option"
  cc_stale_if_error :: "f64 option"

definition cc_default :: cache_control where
  "cc_default = \<lparr>cc_max_age = None, cc_s_maxage = None, cc_no_cache = False, cc_no_store = False,
     cc_must_revalidate = False, cc_proxy_revalidate = False, cc_public = False, cc_private = False,
     cc_immutable = False, cc_stale_while_revalidate = None, cc_stale_if_error = None\<rparr>"

definition directive_parts :: "string \<Rightarrow> string \<times> string option" where
  "directive_parts d0 =
     (let directive = trim d0 in
      case split_once ''='' directive of
        Some (k, v) \<Rightarrow> (trim k, Some (trim_matches (CHR 0x22) (trim v)))
      | None \<Rightarrow> (directive, None))"

definition set_directive :: "cache_control \<Rightarrow> string \<Rightarrow> f64 option \<Rightarrow> cache_control" where
  "set_directive cc key num =
     (if key = ''max-age'' then cc\<lparr>cc_max_age := num\<rparr>
      else if key = ''s-maxage'' then cc\<lparr>cc_s_maxage := num\<rparr>
      else if key = ''no-cache'' then cc\<lparr>cc_no_cache := True\<rparr>
      else if key = ''no-store'' then cc\<lparr>cc_no_store := True\<rparr>
      else if key = ''must-revalidate'' then cc\<lparr>cc_must_revalidate := True\<rparr>
      else if key = ''proxy-revalidate'' then cc\<lparr>cc_proxy_revalidate := True\<rparr>
      else if key = ''public'' then cc\<lparr>cc_public := True\<rparr>
      else if key = ''private'' then cc\<lparr>cc_private := True\<rparr>
      else if key = ''immutable'' then cc\<lparr>cc_immutable := True\<rparr>
      else if key = ''stale-while-revalidate'' then cc\<lparr>cc_stale_while_revalidate := num\<rparr>
      else if key = ''stale-if-error'' then cc\<lparr>cc_stale_if_error := num\<rparr>
      else cc)"

definition apply_directive :: "cache_control \<Rightarrow> string \<Rightarrow> cache_control" where
  "apply_directive cc d0 =
     (case directive_parts d0 of (key, value) \<Rightarrow>
        set_directive cc (to_ascii_lowercase key) (Option.bind value parse_f64))"

definition cc_parse :: "string \<Rightarrow> cache_control" where
  "cc_parse header_value = foldl apply_directive cc_default (split_char (CHR '','') header_value)"

definition is_uncacheable :: "cache_control \<Rightarrow> bool" where
  "is_uncacheable cc \<longleftrightarrow> cc_no_store cc \<or> cc_private cc"

section \<open>HTTP dates\<close>

definition MONTHS :: "string list" where
  "MONTHS = [''Jan'', ''Feb'', ''Mar'', ''Apr'', ''May'', ''Jun'', ''Jul'', ''Aug'', ''Sep'', ''Oct'', ''Nov'', ''Dec'']"

definition month_number :: "string \<Rightarrow> u32 option" where
  "month_number month = map_of (zip MONTHS (map of_nat [1..<13])) month"

text \<open>Division of \<open>i64\<close> truncates; the divisors here are positive.\<close>

definition i64_div :: "int \<Rightarrow> int \<Rightarrow> int" where
  "i64_div a b = (if a \<ge> 0 then a div b else - ((- a) div b))"

definition components_to_timestamp :: "u32 \<Rightarrow> u32 \<Rightarrow> u32 \<Rightarrow> u32 \<Rightarrow> u32 \<Rightarrow> u32 \<Rightarrow> f64" where
  "components_to_timestamp year month day hour mins sec =
     (let y0 = uint year; m0 = uint month;
          (y, m) = (if m0 \<le> 2 then (y0 - 1, m0 + 12) else (y0, m0));
          days = 365 * y + i64_div y 4 - i64_div y 100 + i64_div y 400 + i64_div (153 * (m - 3) + 2) 5 + uint day - 719469
      in f_of_int (days * 86400 + uint hour * 3600 + uint mins * 60 + uint sec))"

definition parse_time :: "string \<Rightarrow> (u32 \<times> u32 \<times> u32) option" where
  "parse_time s =
     (case split_char (CHR '':'') s of
        [h, m, sec] \<Rightarrow>
          (case parse_u32 h of None \<Rightarrow> None | Some hour \<Rightarrow>
           case parse_u32 m of None \<Rightarrow> None | Some mins \<Rightarrow>
           case parse_u32 sec of None \<Rightarrow> None | Some secs \<Rightarrow> Some (hour, mins, secs))
      | _ \<Rightarrow> None)"

definition parse_rfc1123 :: "string \<Rightarrow> vtim_real option" where
  "parse_rfc1123 s =
     (case split_whitespace s of
        [_, p1, p2, p3, p4, p5] \<Rightarrow>
          (if p5 \<noteq> ''GMT'' then None
           else case parse_u32 p1 of None \<Rightarrow> None | Some day \<Rightarrow>
                case month_number p2 of None \<Rightarrow> None | Some month \<Rightarrow>
                case parse_u32 p3 of None \<Rightarrow> None | Some year \<Rightarrow>
                case parse_time p4 of None \<Rightarrow> None | Some (hour, mins, sec) \<Rightarrow>
                  Some (components_to_timestamp year month day hour mins sec))
      | _ \<Rightarrow> None)"

definition parse_rfc850 :: "string \<Rightarrow> vtim_real option" where
  "parse_rfc850 s =
     (case split_once '', '' s of
        None \<Rightarrow> None
      | Some (_, rest) \<Rightarrow>
         (case split_whitespace rest of
            [p0, p1, p2] \<Rightarrow>
              (if p2 \<noteq> ''GMT'' then None
               else case split_char (CHR ''-'') p0 of
                      [d0, d1, d2] \<Rightarrow>
                        (case parse_u32 d0 of None \<Rightarrow> None | Some day \<Rightarrow>
                         case month_number d1 of None \<Rightarrow> None | Some month \<Rightarrow>
                         case parse_u32 d2 of None \<Rightarrow> None | Some y \<Rightarrow>
                           (let year = (if y < 100 then y + (if y < 70 then 2000 else 1900) else y) in
                            case parse_time p1 of None \<Rightarrow> None | Some (hour, mins, sec) \<Rightarrow>
                              Some (components_to_timestamp year month day hour mins sec)))
                    | _ \<Rightarrow> None)
          | _ \<Rightarrow> None))"

definition parse_asctime :: "string \<Rightarrow> vtim_real option" where
  "parse_asctime s =
     (case split_whitespace s of
        [_, p1, p2, p3, p4] \<Rightarrow>
          (case month_number p1 of None \<Rightarrow> None | Some month \<Rightarrow>
           case parse_u32 p2 of None \<Rightarrow> None | Some day \<Rightarrow>
           case parse_u32 p4 of None \<Rightarrow> None | Some year \<Rightarrow>
           case parse_time p3 of None \<Rightarrow> None | Some (hour, mins, sec) \<Rightarrow>
             Some (components_to_timestamp year month day hour mins sec))
      | _ \<Rightarrow> None)"

definition parse_http_date :: "string \<Rightarrow> vtim_real option" where
  "parse_http_date s0 =
     (let s = trim s0 in
      case parse_rfc1123 s of
        Some t \<Rightarrow> Some t
      | None \<Rightarrow> (case parse_rfc850 s of Some t \<Rightarrow> Some t | None \<Rightarrow> parse_asctime s))"

section \<open>Lifetime of a response\<close>

record ttl_calculation =
  tc_ttl :: vtim_dur
  tc_grace :: vtim_dur
  tc_keep :: vtim_dur
  tc_t_origin :: vtim_real
  tc_uncacheable :: bool

definition from_response ::
  "http_message \<Rightarrow> vtim_real \<Rightarrow> vtim_dur \<Rightarrow> vtim_dur \<Rightarrow> vtim_dur \<Rightarrow> ttl_calculation" where
  "from_response resp now default_ttl default_grace default_keep =
     (let result = \<lparr>tc_ttl = default_ttl, tc_grace = default_grace, tc_keep = default_keep,
                     tc_t_origin = now, tc_uncacheable = False\<rparr>;
          cc = (case get_header resp ''Cache-Control'' of Some v \<Rightarrow> cc_parse v | None \<Rightarrow> cc_default) in
      if is_uncacheable cc then result\<lparr>tc_uncacheable := True, tc_ttl := Num (- 1)\<rparr>
      else
        (let result = (case get_header resp ''Date'' of
                         None \<Rightarrow> result
                       | Some date_str \<Rightarrow> (case parse_http_date date_str of
                                            None \<Rightarrow> result | Some date \<Rightarrow> result\<lparr>tc_t_origin := date\<rparr>));
             age = (case Option.bind (get_header resp ''Age'') (\<lambda>v. parse_f64 (trim v)) of
                      Some a \<Rightarrow> a | None \<Rightarrow> Num 0) in
         case cc_s_maxage cc of
           Some s_maxage \<Rightarrow> result\<lparr>tc_ttl := f_sub s_maxage age\<rparr>
         | None \<Rightarrow>
          (case cc_max_age cc of
             Some max_age \<Rightarrow> result\<lparr>tc_ttl := f_sub max_age age\<rparr>
           | None \<Rightarrow>
            (case Option.bind (get_header resp ''Expires'') parse_http_date of
               Some expires \<Rightarrow> result\<lparr>tc_ttl := f_sub expires (tc_t_origin result)\<rparr>
             | None \<Rightarrow>
                if cc_no_cache cc then result\<lparr>tc_ttl := Num 0\<rparr>
                else (case cc_stale_while_revalidate cc of
                        Some swr \<Rightarrow> result\<lparr>tc_grace := swr\<rparr>
                      | None \<Rightarrow> result)))))"

section \<open>Conditional requests\<close>

definition strip_weak :: "string \<Rightarrow> string" where
  "strip_weak tag = (case strip_prefix ''W/'' tag of Some r \<Rightarrow> r | None \<Rightarrow> tag)"

definition etag_matches :: "string \<Rightarrow> string \<Rightarrow> bool" where
  "etag_matches inm_header etag =
     list_ex (\<lambda>candidate. strip_weak (trim candidate) = strip_weak etag) (split_char (CHR '','') inm_header)"

definition evaluate_conditional :: "http_message \<Rightarrow> string option \<Rightarrow> string option \<Rightarrow> bool" where
  "evaluate_conditional req resp_etag resp_last_modified =
     (case get_header req ''If-None-Match'' of
        Some inm \<Rightarrow> (case resp_etag of
                       Some etag \<Rightarrow> trim inm = ''*'' \<or> etag_matches inm etag
                     | None \<Rightarrow> False)
      | None \<Rightarrow>
         (case get_header req ''If-Modified-Since'' of
            None \<Rightarrow> False
          | Some ims \<Rightarrow>
             (case resp_last_modified of
                None \<Rightarrow> False
              | Some lm \<Rightarrow>
                 (case (parse_http_date ims, parse_http_date lm) of
                    (Some ims_time, Some lm_time) \<Rightarrow> f_le lm_time ims_time
                  | _ \<Rightarrow> False))))"

section \<open>The calendar\<close>

definition leap_year :: "nat \<Rightarrow> bool" where
  "leap_year y \<longleftrightarrow> 4 dvd y \<and> (\<not> 100 dvd y \<or> 400 dvd y)"

definition year_days :: "nat \<Rightarrow> nat" where
  "year_days y = (if leap_year y then 366 else 365)"

definition month_days :: "nat \<Rightarrow> nat \<Rightarrow> nat" where
  "month_days y m = (if m = 2 then (if leap_year y then 29 else 28) else if m \<in> {4, 6, 9, 11} then 30 else 31)"

record date_time =
  dt_year :: nat
  dt_month :: nat
  dt_day :: nat
  dt_hour :: nat
  dt_min :: nat
  dt_sec :: nat

definition valid_date :: "date_time \<Rightarrow> bool" where
  "valid_date t \<longleftrightarrow> 1970 \<le> dt_year t \<and> dt_year t \<le> 9999 \<and> 1 \<le> dt_month t \<and> dt_month t \<le> 12 \<and>
     1 \<le> dt_day t \<and> dt_day t \<le> month_days (dt_year t) (dt_month t) \<and>
     dt_hour t < 24 \<and> dt_min t < 60 \<and> dt_sec t < 60"

text \<open>Days since 1 January 1970, year by year and month by month.\<close>

definition unix_days :: "nat \<Rightarrow> nat \<Rightarrow> nat \<Rightarrow> nat" where
  "unix_days y m d = (\<Sum>k = 1970..<y. year_days k) + (\<Sum>k = 1..<m. month_days y k) + (d - 1)"

definition unix_time :: "date_time \<Rightarrow> nat" where
  "unix_time t = unix_days (dt_year t) (dt_month t) (dt_day t) * 86400 +
     dt_hour t * 3600 + dt_min t * 60 + dt_sec t"

text \<open>Days before 1 March of year \<open>y\<close>, counted from 1 March of year 0.\<close>

definition march_days :: "int \<Rightarrow> int" where
  "march_days y = 365 * y + y div 4 - y div 100 + y div 400"

lemma div_step: "0 < (k::int) \<Longrightarrow> (y + 1) div k = y div k + (if k dvd y + 1 then 1 else 0)"
proof -
  assume k: "0 < k"
  have m: "0 \<le> y mod k" "y mod k < k" using k by auto
  have y: "y + 1 = k * (y div k) + (y mod k + 1)" by simp
  show ?thesis
  proof (cases "y mod k + 1 = k")
    case True
    then have "y + 1 = k * (y div k + 1)" using y by (simp add: algebra_simps)
    then show ?thesis using k by simp
  next
    case False
    then have r: "0 \<le> y mod k + 1" "y mod k + 1 < k" using m by auto
    have "(y + 1) div k = y div k" using y r k by (metis div_pos_pos_trivial div_mult_self4 add.right_neutral less_irrefl)
    moreover have "(y + 1) mod k = y mod k + 1" using y r by (metis mod_mult_self4 mod_pos_pos_trivial)
    then have "\<not> k dvd y + 1" using m by (simp add: dvd_eq_mod_eq_0)
    ultimately show ?thesis by simp
  qed
qed

lemma div_step_nat:
  assumes "0 < k"
  shows "(int y + 1) div int k = int y div int k + (if k dvd Suc y then 1 else 0)"
proof -
  have "(int k dvd int y + 1) = (k dvd Suc y)"
    using int_dvd_int_iff[of k "Suc y"] by (simp add: add.commute)
  then show ?thesis using div_step[of "int k" "int y"] assms by simp
qed

lemma leap_count:
  fixes a b c y :: int
  assumes "a' = a + (if P then 1 else 0)" "b' = b + (if Q then 1 else 0)" "c' = c + (if R then 1 else 0)"
    and "Q \<Longrightarrow> P" "R \<Longrightarrow> Q"
  shows "365 * (y + 1) + a' - b' + c' = 365 * y + a - b + c + (if P \<and> (\<not> Q \<or> R) then 366 else 365)"
  unfolding assms(1-3) using assms(4,5) by (cases P; cases Q; cases R) simp_all

lemma march_days_step:
  "march_days (int y + 1) = march_days (int y) + (if leap_year (Suc y) then 366 else 365)"
proof -
  have "(4::nat) dvd 100" "(100::nat) dvd 400" by simp_all
  note d = this[THEN dvd_trans, of "Suc y"]
  have k: "0 < (4::nat)" "0 < (100::nat)" "0 < (400::nat)" by simp_all
  show ?thesis
    unfolding march_days_def leap_year_def
    by (rule leap_count[OF k[THEN div_step_nat, of y, unfolded of_nat_numeral] d])
qed

lemma march_days_year:
  assumes "1970 \<le> y"
  shows "march_days (int y) = 719468 + (\<Sum>k = 1970..<y. int (year_days k)) + 59 + (if leap_year y then 1 else 0)"
  using assms
proof (induction y rule: dec_induct)
  case base
  show ?case by (simp add: march_days_def leap_year_def)
next
  case (step y)
  have "march_days (int (Suc y)) = march_days (int y) + (if leap_year (Suc y) then 366 else 365)"
    using march_days_step[of y] by (simp add: add.commute)
  then show ?case using step by (simp add: year_days_def)
qed

lemma month_step:
  assumes "3 \<le> m" "m < 12"
  shows "int (month_days y m) = (153 * (int (Suc m) - 3) + 2) div 5 - (153 * (int m - 3) + 2) div 5"
proof -
  have "m = 3 \<or> m = 4 \<or> m = 5 \<or> m = 6 \<or> m = 7 \<or> m = 8 \<or> m = 9 \<or> m = 10 \<or> m = 11"
    using assms by presburger
  then show ?thesis by (elim disjE) (simp_all add: month_days_def)
qed

lemma month_sum:
  assumes "3 \<le> m" "m \<le> 12"
  shows "(\<Sum>k = 1..<m. int (month_days y k)) = 59 + (if leap_year y then 1 else 0) + (153 * (int m - 3) + 2) div 5"
  using assms
proof (induction m rule: dec_induct)
  case base
  have "{1..<3::nat} = {1, 2}" by auto
  then show ?case by (simp add: month_days_def)
next
  case (step m)
  then show ?case using month_step[of m y] by simp
qed

lemma unix_days_formula:
  assumes "1970 \<le> y" "1 \<le> m" "m \<le> 12" "1 \<le> d"
  shows "int (unix_days y m d) =
     (let (y', m') = (if m \<le> 2 then (int y - 1, int m + 12) else (int y, int m))
      in march_days y' + (153 * (m' - 3) + 2) div 5 + int d - 719469)"
proof (cases "m \<le> 2")
  case False
  then have "(\<Sum>k = 1..<m. int (month_days y k)) = 59 + (if leap_year y then 1 else 0) + (153 * (int m - 3) + 2) div 5"
    using assms month_sum[of m y] by simp
  then show ?thesis
    using False assms march_days_year[OF assms(1)] by (simp add: unix_days_def of_nat_diff)
next
  case True
  have "march_days (int y - 1) = 719468 + (\<Sum>k = 1970..<y. int (year_days k)) - 306"
  proof (cases "y = 1970")
    case False
    then obtain z where z: "y = Suc z" "1970 \<le> z" using assms(1) by (cases y) auto
    then show ?thesis using march_days_year[OF z(2)] by (simp add: year_days_def)
  qed (simp add: march_days_def)
  moreover have "m = 1 \<or> m = 2" using True assms by auto
  ultimately show ?thesis
    using assms by (auto simp: unix_days_def of_nat_diff month_days_def)
qed

section \<open>Dates read back\<close>

definition show_time :: "date_time \<Rightarrow> string" where
  "show_time t = show2 (dt_hour t) @ '':'' @ show2 (dt_min t) @ '':'' @ show2 (dt_sec t)"

definition rfc1123_words :: "string \<Rightarrow> date_time \<Rightarrow> string list" where
  "rfc1123_words wd t =
     [wd @ '','', show2 (dt_day t), MONTHS ! (dt_month t - 1), show_nat (dt_year t), show_time t, ''GMT'']"

definition show_rfc1123 :: "string \<Rightarrow> date_time \<Rightarrow> string" where
  "show_rfc1123 wd t = unwords (rfc1123_words wd t)"

lemma month_number_MONTHS:
  assumes "1 \<le> m" "m \<le> 12"
  shows "month_number (MONTHS ! (m - 1)) = Some (of_nat m)" "plain (MONTHS ! (m - 1))"
proof -
  have "m = 1 \<or> m = 2 \<or> m = 3 \<or> m = 4 \<or> m = 5 \<or> m = 6 \<or> m = 7 \<or> m = 8 \<or> m = 9 \<or> m = 10 \<or> m = 11 \<or> m = 12"
    using assms by presburger
  then show "month_number (MONTHS ! (m - 1)) = Some (of_nat m)" "plain (MONTHS ! (m - 1))"
    by (elim disjE; simp add: month_number_def MONTHS_def upt_rec plain_def graphic_def)+
qed

lemma valid_date_bounds:
  assumes "valid_date t"
  shows "dt_day t < 100" "dt_hour t < 100" "dt_min t < 100" "dt_sec t < 100" "dt_year t < 2 ^ 32"
  using assms by (auto simp: valid_date_def month_days_def split: if_splits)

lemma digit_not_colon: "is_digit c \<Longrightarrow> c \<noteq> CHR '':''"
  by (auto simp: is_digit_def)

lemma show2_no_colon: "n < 100 \<Longrightarrow> CHR '':'' \<notin> set (show2 n)"
  using show2_digits[of n] digit_not_colon by (auto simp: list_all_iff)

lemma parse_time_show:
  assumes "valid_date t"
  shows "parse_time (show_time t) = Some (of_nat (dt_hour t), of_nat (dt_min t), of_nat (dt_sec t))"
proof -
  note b = valid_date_bounds[OF assms]
  have "split_char (CHR '':'') (show_time t) = [show2 (dt_hour t), show2 (dt_min t), show2 (dt_sec t)]"
    using b by (simp add: show_time_def split_char_append split_char_none show2_no_colon)
  then show ?thesis using b by (simp add: parse_time_def parse_u32_show2)
qed

lemma plain_show2: "n < 100 \<Longrightarrow> plain (show2 n)"
  using show2_digits[of n] by (auto intro: plain_digits simp: show2_def)

lemma rfc1123_words_plain:
  assumes "valid_date t" "plain wd"
  shows "list_all plain (rfc1123_words wd t)"
proof -
  note b = valid_date_bounds[OF assms(1)]
  have "plain '':''" "plain '',''" "plain ''GMT''" by (simp_all add: plain_def graphic_def)
  moreover have "plain (MONTHS ! (dt_month t - 1))"
    using assms(1) by (intro month_number_MONTHS) (simp_all add: valid_date_def)
  moreover have "plain (show_time t)"
    unfolding show_time_def by (intro plain_append calculation(1) plain_show2 b)
  ultimately show ?thesis
    using assms(2) b(1) by (simp add: rfc1123_words_def plain_show2 plain_append)
qed

lemma uint_of_nat32: "n < 2 ^ 32 \<Longrightarrow> uint (of_nat n :: u32) = int n"
  by (simp add: unsigned_of_nat take_bit_nat_eq_self)

lemma components_unix_time:
  assumes "valid_date t"
  shows "components_to_timestamp (of_nat (dt_year t)) (of_nat (dt_month t)) (of_nat (dt_day t))
           (of_nat (dt_hour t)) (of_nat (dt_min t)) (of_nat (dt_sec t)) = Num (of_nat (unix_time t))"
proof -
  note b = valid_date_bounds[OF assms]
  have v: "1970 \<le> dt_year t" "1 \<le> dt_month t" "dt_month t \<le> 12" "1 \<le> dt_day t"
    using assms by (auto simp: valid_date_def)
  have u: "uint (of_nat (dt_year t) :: u32) = int (dt_year t)" "uint (of_nat (dt_month t) :: u32) = int (dt_month t)"
    "uint (of_nat (dt_day t) :: u32) = int (dt_day t)" "uint (of_nat (dt_hour t) :: u32) = int (dt_hour t)"
    "uint (of_nat (dt_min t) :: u32) = int (dt_min t)" "uint (of_nat (dt_sec t) :: u32) = int (dt_sec t)"
    using b v(3) by (auto intro!: uint_of_nat32)
  have days: "(case (if int (dt_month t) \<le> 2 then (int (dt_year t) - 1, int (dt_month t) + 12)
                else (int (dt_year t), int (dt_month t))) of
       (y, m) \<Rightarrow> 365 * y + i64_div y 4 - i64_div y 100 + i64_div y 400 + i64_div (153 * (m - 3) + 2) 5 +
         int (dt_day t) - 719469) = int (unix_days (dt_year t) (dt_month t) (dt_day t))"
    using unix_days_formula[OF v] v by (simp add: i64_div_def march_days_def)
  have "components_to_timestamp (of_nat (dt_year t)) (of_nat (dt_month t)) (of_nat (dt_day t))
      (of_nat (dt_hour t)) (of_nat (dt_min t)) (of_nat (dt_sec t)) =
      f_of_int (int (unix_days (dt_year t) (dt_month t) (dt_day t)) * 86400 + int (dt_hour t) * 3600 +
        int (dt_min t) * 60 + int (dt_sec t))"
    unfolding components_to_timestamp_def Let_def u days[symmetric] by (simp split: prod.splits)
  then show ?thesis by (simp add: unix_time_def)
qed

lemma date_reads_back:
  assumes "valid_date t" "plain wd"
  shows "parse_http_date (show_rfc1123 wd t) = Some (Num (of_nat (unix_time t)))"
proof -
  note b = valid_date_bounds[OF assms(1)]
  note p = rfc1123_words_plain[OF assms]
  have m: "month_number (MONTHS ! (dt_month t - 1)) = Some (of_nat (dt_month t))"
    using assms(1) by (intro month_number_MONTHS) (simp_all add: valid_date_def)
  have "split_whitespace (show_rfc1123 wd t) = rfc1123_words wd t"
    using p by (simp add: show_rfc1123_def split_whitespace_unwords)
  then have "parse_rfc1123 (show_rfc1123 wd t) = Some (Num (of_nat (unix_time t)))"
    using b m components_unix_time[OF assms(1)]
    by (simp add: parse_rfc1123_def rfc1123_words_def parse_u32_show2 parse_u32_show_nat parse_time_show[OF assms(1)])
  moreover have "trim (show_rfc1123 wd t) = show_rfc1123 wd t"
    using p by (simp add: show_rfc1123_def trim_unwords)
  ultimately show ?thesis by (simp add: parse_http_date_def)
qed

text \<open>
  C25: Every valid date from 1970 to 9999, written in the format of RFC 1123 with any day name, is
  read back as its Unix time: the number of seconds counted through the calendar, leap years
  included.
\<close>

theorem http_date_round_trip:
  assumes "valid_date t" "plain wd"
  shows "parse_http_date (show_rfc1123 wd t) = Some (Num (of_nat (unix_time t)))"
  by (rule date_reads_back[OF assms])

theorem http_date_round_trip_witness:
  "parse_http_date (show_rfc1123 ''Tue'' \<lparr>dt_year = 1972, dt_month = 3, dt_day = 1, dt_hour = 8, dt_min = 49, dt_sec = 37\<rparr>)
     = Some (Num 68287777)"
proof -
  let ?t = "\<lparr>dt_year = 1972, dt_month = 3, dt_day = 1, dt_hour = 8, dt_min = 49, dt_sec = 37\<rparr>"
  have "valid_date ?t" "plain ''Tue''"
    by (simp_all add: valid_date_def month_days_def plain_def graphic_def)
  note r = http_date_round_trip[OF this]
  have "{1970..<1972} = {1970, 1971::nat}" "{1..<3} = {1, 2::nat}" by auto
  then have "unix_time ?t = 68287777"
    by (simp add: unix_time_def unix_days_def year_days_def month_days_def leap_year_def)
  with r show ?thesis by simp
qed

section \<open>Lifetimes as the headers state them\<close>

datatype directive =
  MaxAge nat | SMaxAge nat | NoCache | NoStore | MustRevalidate | ProxyRevalidate | Public | Private
  | Immutable | StaleWhileRevalidate nat | StaleIfError nat

primrec directive_key :: "directive \<Rightarrow> string" where
  "directive_key (MaxAge n) = ''max-age''"
| "directive_key (SMaxAge n) = ''s-maxage''"
| "directive_key NoCache = ''no-cache''"
| "directive_key NoStore = ''no-store''"
| "directive_key MustRevalidate = ''must-revalidate''"
| "directive_key ProxyRevalidate = ''proxy-revalidate''"
| "directive_key Public = ''public''"
| "directive_key Private = ''private''"
| "directive_key Immutable = ''immutable''"
| "directive_key (StaleWhileRevalidate n) = ''stale-while-revalidate''"
| "directive_key (StaleIfError n) = ''stale-if-error''"

primrec directive_arg :: "directive \<Rightarrow> nat option" where
  "directive_arg (MaxAge n) = Some n"
| "directive_arg (SMaxAge n) = Some n"
| "directive_arg NoCache = None"
| "directive_arg NoStore = None"
| "directive_arg MustRevalidate = None"
| "directive_arg ProxyRevalidate = None"
| "directive_arg Public = None"
| "directive_arg Private = None"
| "directive_arg Immutable = None"
| "directive_arg (StaleWhileRevalidate n) = Some n"
| "directive_arg (StaleIfError n) = Some n"

definition show_directive :: "directive \<Rightarrow> string" where
  "show_directive d = directive_key d @ (case directive_arg d of None \<Rightarrow> [] | Some n \<Rightarrow> CHR ''='' # show_nat n)"

definition show_directives :: "directive list \<Rightarrow> string" where
  "show_directives ds = comma_join (map show_directive ds)"

definition small_arg :: "directive \<Rightarrow> bool" where
  "small_arg d \<longleftrightarrow> (case directive_arg d of None \<Rightarrow> True | Some n \<Rightarrow> n < 2 ^ 63)"

text \<open>The argument of the last directive of a kind.\<close>

definition last_arg :: "string \<Rightarrow> directive list \<Rightarrow> nat option" where
  "last_arg key ds = (case filter (\<lambda>d. directive_key d = key) (rev ds) of [] \<Rightarrow> None | d # _ \<Rightarrow> directive_arg d)"

text \<open>
  The lifetime that RFC 7234 gives a response in a shared cache: \<open>s-maxage\<close>, else \<open>max-age\<close>, each
  less the age, else the distance between Expires and Date; then no-cache and the default.
\<close>

definition lifetime :: "directive list \<Rightarrow> nat \<Rightarrow> nat option \<Rightarrow> vtim_real \<Rightarrow> vtim_dur \<Rightarrow> vtim_dur" where
  "lifetime ds age expires origin dflt =
     (case last_arg ''s-maxage'' ds of Some n \<Rightarrow> Num (of_nat n - of_nat age) | None \<Rightarrow>
      case last_arg ''max-age'' ds of Some n \<Rightarrow> Num (of_nat n - of_nat age) | None \<Rightarrow>
      case expires of Some e \<Rightarrow> f_sub (Num (of_nat e)) origin | None \<Rightarrow>
      if NoCache \<in> set ds then Num 0 else dflt)"

lemma key_plain: "plain (directive_key d)" "CHR ''='' \<notin> set (directive_key d)" "CHR '','' \<notin> set (directive_key d)"
    "to_ascii_lowercase (directive_key d) = directive_key d"
  by (cases d; simp add: plain_def graphic_def lower_eval)+

lemma show_directive_plain: "plain (show_directive d)" "CHR '','' \<notin> set (show_directive d)"
proof -
  have "plain (CHR ''='' # show_nat n)" for n
    using plain_show_nat[of n] by (simp add: plain_def graphic_def)
  then show "plain (show_directive d)"
    using key_plain(1)[of d] by (auto simp: show_directive_def plain_append split: option.splits)
  have "CHR '','' \<notin> set (show_nat n)" for n
    using show_nat_chars[of _ n] is_digit_not by blast
  then show "CHR '','' \<notin> set (show_directive d)"
    using key_plain(3)[of d] by (auto simp: show_directive_def split: option.splits)
qed

lemma trim_quotes_digits: "list_all is_digit ds \<Longrightarrow> trim_matches (CHR 0x22) ds = ds"
proof -
  assume d: "list_all is_digit ds"
  have q: "\<not> is_digit (CHR 0x22)" by (simp add: is_digit_def)
  have "dropWhile (\<lambda>x. x = CHR 0x22) xs = xs" if "list_all is_digit xs" for xs
    using that q by (cases xs) auto
  then show ?thesis using d by (simp add: trim_matches_def)
qed

lemma directive_parts_show:
  "directive_parts (show_directive d) = (directive_key d, map_option show_nat (directive_arg d))"
  "directive_parts (CHR '' '' # show_directive d) = (directive_key d, map_option show_nat (directive_arg d))"
proof -
  have "directive_parts s = (directive_key d, map_option show_nat (directive_arg d))"
    if "trim s = show_directive d" for s
    using that key_plain[of d] show_nat_props
    by (cases "directive_arg d")
      (simp_all add: directive_parts_def show_directive_def split_once_none split_once_char plain_trim trim_quotes_digits)
  then show "directive_parts (show_directive d) = (directive_key d, map_option show_nat (directive_arg d))"
    "directive_parts (CHR '' '' # show_directive d) = (directive_key d, map_option show_nat (directive_arg d))"
    using show_directive_plain(1)[of d] by (simp_all add: plain_trim trim_space)
qed

definition add_directive :: "cache_control \<Rightarrow> directive \<Rightarrow> cache_control" where
  "add_directive cc d = set_directive cc (directive_key d) (map_option (\<lambda>n. Num (of_nat n)) (directive_arg d))"

lemma apply_directive_show:
  assumes "small_arg d"
  shows "apply_directive cc (show_directive d) = add_directive cc d"
    "apply_directive cc (CHR '' '' # show_directive d) = add_directive cc d"
proof -
  have "Option.bind (map_option show_nat (directive_arg d)) parse_f64 = map_option (\<lambda>n. Num (of_nat n)) (directive_arg d)"
    using assms by (cases "directive_arg d") (simp_all add: small_arg_def parse_f64_show_nat)
  then show "apply_directive cc (show_directive d) = add_directive cc d"
    "apply_directive cc (CHR '' '' # show_directive d) = add_directive cc d"
    by (simp_all add: apply_directive_def directive_parts_show add_directive_def key_plain(4))
qed

lemma cc_parse_show:
  assumes "list_all small_arg ds" "ds \<noteq> []"
  shows "cc_parse (show_directives ds) = foldl add_directive cc_default ds"
proof -
  obtain d ds' where ds: "ds = d # ds'" using assms(2) by (cases ds) auto
  have tail: "foldl apply_directive cc (map ((#) (CHR '' '')) (map show_directive es)) = foldl add_directive cc es"
    if "list_all small_arg es" for es cc
    using that by (induction es arbitrary: cc) (simp_all add: apply_directive_show)
  have "split_char (CHR '','') (show_directives ds) = show_directive d # map ((#) (CHR '' '')) (map show_directive ds')"
    unfolding show_directives_def ds list.map
    by (rule split_comma_join) (simp add: list_all_iff show_directive_plain)
  with assms(1) tail[of ds'] show ?thesis
    by (simp add: cc_parse_def ds apply_directive_show)
qed

lemma add_directive_fields:
  "cc_s_maxage (add_directive cc d) = (if directive_key d = ''s-maxage'' then map_option (\<lambda>n. Num (of_nat n)) (directive_arg d) else cc_s_maxage cc)"
  "cc_max_age (add_directive cc d) = (if directive_key d = ''max-age'' then map_option (\<lambda>n. Num (of_nat n)) (directive_arg d) else cc_max_age cc)"
  "cc_no_cache (add_directive cc d) \<longleftrightarrow> d = NoCache \<or> cc_no_cache cc"
  "is_uncacheable (add_directive cc d) \<longleftrightarrow> d = NoStore \<or> d = Private \<or> is_uncacheable cc"
  by (cases d; simp add: add_directive_def set_directive_def is_uncacheable_def)+

lemma cc_default_fields:
  "cc_s_maxage cc_default = None" "cc_max_age cc_default = None" "\<not> cc_no_cache cc_default" "\<not> is_uncacheable cc_default"
  by (simp_all add: cc_default_def is_uncacheable_def)

lemma last_arg_simps:
  "last_arg key [] = None"
  "last_arg key (ds @ [d]) = (if directive_key d = key then directive_arg d else last_arg key ds)"
  by (simp_all add: last_arg_def)

lemma foldl_directives:
  "cc_s_maxage (foldl add_directive cc_default ds) = map_option (\<lambda>n. Num (of_nat n)) (last_arg ''s-maxage'' ds)"
  "cc_max_age (foldl add_directive cc_default ds) = map_option (\<lambda>n. Num (of_nat n)) (last_arg ''max-age'' ds)"
  "cc_no_cache (foldl add_directive cc_default ds) \<longleftrightarrow> NoCache \<in> set ds"
  "is_uncacheable (foldl add_directive cc_default ds) \<longleftrightarrow> NoStore \<in> set ds \<or> Private \<in> set ds"
  by (induction ds rule: rev_induct) (auto simp: add_directive_fields last_arg_simps cc_default_fields)


lemma get_header_new: "get_header (new_response st v) n = None" "get_header (new_request m u v) n = None"
  by (simp_all add: get_header_def new_response_def new_request_def hm_get_def)


section \<open>Lifetimes that are not numbers\<close>

text \<open>
  The directives are read by \<open>str::parse::<f64>\<close>, which accepts more than digits: a \<open>max-age=nan\<close>
  gives a lifetime that is not a number.
\<close>

theorem max_age_nan:
  assumes "get_header resp ''Cache-Control'' = Some ''max-age=nan''"
  shows "tc_ttl (from_response resp now dttl dgrace dkeep) = NaN"
proof -
  have "cc_parse ''max-age=nan'' = cc_default\<lparr>cc_max_age := Some NaN\<rparr>"
    by (simp add: cc_parse_def apply_directive_def directive_parts_def set_directive_def trim_eval
        lower_eval trim_matches_def parse_f64_def Let_def)
  with assms show ?thesis
    by (auto simp: from_response_def Let_def cc_default_def is_uncacheable_def split: option.splits)
qed

end
