(* ===== verification/Cache_Fetch.thy ===== *)
theory Cache_Fetch
  imports Cache_Lookup Http_Rfc2616
begin

text \<open>
  \<open>crates/rv-cache/src/fetch.rs\<close> and \<open>stats.rs\<close>: what a finished fetch does to its object, whether
  a response may be cached, and the counters of the cache.
\<close>

section \<open>Fetches\<close>

record 'r fetch_context =
  fc_vxid :: u64
  fc_bereq :: http_message
  fc_beresp :: "http_message option"
  fc_objcore :: "'r option"
  fc_is_pass :: bool
  fc_do_stream :: bool
  fc_t_fetch :: vtim_real

definition fetch_context_new :: "vtim_real \<Rightarrow> http_message \<Rightarrow> u64 \<Rightarrow> 'r fetch_context" where
  "fetch_context_new now bereq vxid =
     \<lparr>fc_vxid = vxid, fc_bereq = bereq, fc_beresp = None, fc_objcore = None, fc_is_pass = False,
      fc_do_stream = False, fc_t_fetch = now\<rparr>"

definition apply_ttl :: "vtim_real \<Rightarrow> objcore \<Rightarrow> http_message \<Rightarrow> vtim_dur \<Rightarrow> vtim_dur \<Rightarrow> vtim_dur \<Rightarrow> objcore" where
  "apply_ttl now oc beresp default_ttl default_grace default_keep =
     (let ttl_calc = from_response beresp now default_ttl default_grace default_keep in
      oc\<lparr>t_origin := now, ttl := tc_ttl ttl_calc, grace := tc_grace ttl_calc, keep := tc_keep ttl_calc\<rparr>)"

definition mark_hit_for_pass :: "objcore \<Rightarrow> objcore" where
  "mark_hit_for_pass oc = set_oc_flag OC_HFP oc"

definition finish_fetch :: "objcore \<Rightarrow> objcore" where
  "finish_fetch oc = clear_oc_flag OC_BUSY oc"

definition fail_fetch :: "objcore \<Rightarrow> objcore" where
  "fail_fetch oc = clear_oc_flag OC_BUSY (set_oc_flag OC_FAILED oc)"

text \<open>
  \<open>s.contains(needle)\<close>.  The source lowers the header with the Unicode \<open>to_lowercase\<close>; no character
  outside ASCII is lowered to a letter of the two needles, so ASCII lowering finds the same.
\<close>

definition str_contains :: "string \<Rightarrow> string \<Rightarrow> bool" where
  "str_contains needle s \<longleftrightarrow> split_once needle s \<noteq> None"

definition CACHEABLE_CODES :: "u16 list" where
  "CACHEABLE_CODES = [200, 203, 204, 300, 301, 302, 304, 307, 308, 404, 410, 414]"

definition is_cacheable :: "http_message \<Rightarrow> bool \<Rightarrow> bool" where
  "is_cacheable beresp is_pass =
     (if is_pass then False
      else if status_code (msg_status beresp) \<notin> set CACHEABLE_CODES then False
      else (case hm_get (msg_headers beresp) ''Cache-Control'' of
              Some cc \<Rightarrow> (let cc_lower = to_ascii_lowercase cc in
                 if str_contains ''no-store'' cc_lower \<or> str_contains ''private'' cc_lower then False else True)
            | None \<Rightarrow> True))"

section \<open>Counters\<close>

record cache_stats =
  cache_hit :: u64
  cache_miss :: u64
  cache_pass :: u64
  cache_hit_for_pass :: u64
  cache_hit_grace :: u64
  backend_fetches :: u64
  evictions :: u64
  bans_added :: u64
  bans_checked :: u64
  n_objects :: u64
  n_expired :: u64
  n_purged :: u64
  bytes_stored :: u64

definition cache_stats_new :: cache_stats where
  "cache_stats_new = \<lparr>cache_hit = 0, cache_miss = 0, cache_pass = 0, cache_hit_for_pass = 0, cache_hit_grace = 0,
     backend_fetches = 0, evictions = 0, bans_added = 0, bans_checked = 0, n_objects = 0, n_expired = 0,
     n_purged = 0, bytes_stored = 0\<rparr>"

definition stats_snapshot :: "cache_stats \<Rightarrow> cache_stats" where
  "stats_snapshot s = s"

definition hit_rate :: "cache_stats \<Rightarrow> f64" where
  "hit_rate s =
     (let all = cache_hit s + cache_miss s + cache_pass s in
      if all = 0 then Num 0 else Num (of_nat (unat (cache_hit s)) / of_nat (unat all) * 100))"

section \<open>Laws\<close>

text \<open>While the counters do not overflow, the rate is a percentage.\<close>

lemma ratio_le_1: "a \<le> b \<Longrightarrow> 0 < b \<Longrightarrow> (of_nat a :: rat) / of_nat b \<le> 1"
  by (simp add: divide_le_eq_1)

lemma hit_rate_percentage:
  assumes "unat (cache_hit s) + unat (cache_miss s) + unat (cache_pass s) < 2 ^ 64" "hit_rate s = Num x"
  shows "0 \<le> x \<and> x \<le> 100"
proof (cases "cache_hit s + cache_miss s + cache_pass s = 0")
  case False
  have sum: "unat (cache_hit s + cache_miss s + cache_pass s) = unat (cache_hit s) + unat (cache_miss s) + unat (cache_pass s)"
    using assms(1) by (simp add: unat_add64)
  define q where "q = (of_nat (unat (cache_hit s)) :: rat) / of_nat (unat (cache_hit s + cache_miss s + cache_pass s))"
  have x: "x = q * 100" using assms(2) False by (simp add: hit_rate_def q_def)
  have "0 < unat (cache_hit s + cache_miss s + cache_pass s)" using False unat_gt_0 by blast
  then have "q \<le> 1" unfolding q_def using sum by (intro ratio_le_1) linarith+
  moreover have "0 \<le> q" unfolding q_def by (rule divide_nonneg_nonneg) (rule of_nat_0_le_iff)+
  ultimately show ?thesis unfolding x by simp
qed (use assms(2) in \<open>simp add: hit_rate_def\<close>)

text \<open>An object whose fetch failed is served like any other: the lookup does not look at the mark.\<close>

lemma failed_object_hit:
  assumes "servable oc" "\<not> is_expired oc now"
  shows "evaluate_object r (fail_fetch oc) now = CL_Hit r"
proof -
  have "servable (fail_fetch oc)"
    using assms(1) by (simp add: servable_def fail_fetch_def Let_def obj_core_flags.rem_other obj_core_flags.ins_other
        OC_BUSY_def OC_FAILED_def OC_HFP_def OC_DYING_def OC_WITHDRAWN_def obj_core_flags.contains_rem)
  moreover have "is_expired (fail_fetch oc) now = is_expired oc now"
    by (simp add: is_expired_def fail_fetch_def set_oc_flag_def clear_oc_flag_def)
  ultimately show ?thesis using assms(2) by (simp add: evaluate_servable)
qed

end
