(* ===== verification/Cache_Engine.thy ===== *)
theory Cache_Engine
  imports Cache_Fetch Cache_Expiry Cache_Ban Sharded_Lru Http_Vary Hash_Lists Storage_Malloc Log_Tags
begin

text \<open>
  \<open>crates/rv-cache/src/engine.rs\<close>: the cache engine, which composes the object table, the LRU
  tracker, the expiry queue, the bans, the counters and a storage backend.

  An \<open>Arc<ObjCore>\<close> is an index into \<open>ce_arena\<close>, the list of all objects ever made.  The storage
  backend and the hash backend are trait objects: records of functions over their states.  The
  clock \<open>now\<close> and the allocator of the tracker's nodes are parameters, as is the compiler of regular
  expressions.  The tracker follows raw pointers, so that every operation returns \<open>None\<close> when it
  would follow an invalid one.  Of a log record, the lifetime that it prints is kept.
\<close>

section \<open>State\<close>

definition DEFAULT_MAX_OBJECTS :: nat where
  "DEFAULT_MAX_OBJECTS = 100000"

record ttl_info =
  ti_ttl :: vtim_dur
  ti_grace :: vtim_dur
  ti_keep :: vtim_dur

definition ttl_info_default :: ttl_info where
  "ttl_info_default = \<lparr>ti_ttl = Num 120, ti_grace = Num 10, ti_keep = Num 0\<rparr>"

text \<open>The trait \<open>HashSlinger\<close>, over the store of the object heads.\<close>

record 'h hash_vtable =
  hv_lookup :: "'h \<Rightarrow> oh_heap \<Rightarrow> digest \<Rightarrow> oh_ref \<Rightarrow> 'h \<times> oh_heap \<times> oh_ref \<times> oh_ref option"
  hv_deref :: "'h \<Rightarrow> oh_heap \<Rightarrow> oh_ref \<Rightarrow> 'h \<times> oh_heap \<times> bool"

record ('s, 'h, 're) cache_engine =
  ce_hash :: 'h
  ce_heads :: oh_heap
  ce_storage :: 's
  ce_ban_list :: "'re ban_list"
  ce_expiry :: "nat expiry_manager"
  ce_stats :: cache_stats
  ce_log :: "(log_tag \<times> vtim_dur) list"
  ce_objects :: "digest \<Rightarrow> nat list option"
  ce_lru :: sharded_lru
  ce_max_objects :: nat
  ce_arena :: "objcore list"

definition with_max_objects :: "'h \<Rightarrow> 's \<Rightarrow> nat \<Rightarrow> ('s, 'h, 're) cache_engine" where
  "with_max_objects hash storage max_objects =
     \<lparr>ce_hash = hash, ce_heads = Map.empty, ce_storage = storage, ce_ban_list = [], ce_expiry = expiry_new, ce_stats = cache_stats_new,
      ce_log = [], ce_objects = Map.empty, ce_lru = sharded_new (of_nat max_objects), ce_max_objects = max_objects,
      ce_arena = []\<rparr>"

definition engine_new :: "'h \<Rightarrow> 's \<Rightarrow> ('s, 'h, 're) cache_engine" where
  "engine_new hash storage = with_max_objects hash storage DEFAULT_MAX_OBJECTS"

section \<open>Lookup\<close>

definition vary_ok :: "header_map option \<Rightarrow> objcore \<Rightarrow> bool" where
  "vary_ok request_headers oc =
     (case request_headers of
        None \<Rightarrow> True
      | Some req_hdrs \<Rightarrow> (case get_vary oc of None \<Rightarrow> True | Some data \<Rightarrow> vary_matches data req_hdrs))"

text \<open>The loop over the variants, with its grace candidate; \<open>None\<close> when nothing can be served.\<close>

fun scan_variants :: "objcore list \<Rightarrow> header_map option \<Rightarrow> vtim_real \<Rightarrow> nat list \<Rightarrow> nat option \<Rightarrow> nat cache_lookup_result option" where
  "scan_variants arena hdrs now [] grace_candidate = map_option CL_Grace grace_candidate"
| "scan_variants arena hdrs now (r # rs) grace_candidate =
     (if \<not> vary_ok hdrs (arena ! r) then scan_variants arena hdrs now rs grace_candidate
      else (case evaluate_object r (arena ! r) now of
              CL_Hit x \<Rightarrow> Some (CL_Hit x)
            | CL_Grace _ \<Rightarrow> scan_variants arena hdrs now rs (if grace_candidate = None then Some r else grace_candidate)
            | _ \<Rightarrow> scan_variants arena hdrs now rs grace_candidate))"

definition engine_lookup :: "vtim_real \<Rightarrow> digest \<Rightarrow> header_map option \<Rightarrow> ('s, 'h, 're) cache_engine \<Rightarrow>
    (('s, 'h, 're) cache_engine \<times> nat cache_lookup_result) option" where
  "engine_lookup now d hdrs e =
     (let miss = (\<lambda>e. (e\<lparr>ce_stats := (ce_stats e)\<lparr>cache_miss := cache_miss (ce_stats e) + 1\<rparr>\<rparr>, CL_Miss)) in
      case ce_objects e d of
        None \<Rightarrow> Some (miss e)
      | Some variants \<Rightarrow>
         (case scan_variants (ce_arena e) hdrs now variants None of
            Some (CL_Hit r) \<Rightarrow> do {
              l \<leftarrow> sharded_touch (ce_lru e) d;
              Some (e\<lparr>ce_stats := (ce_stats e)\<lparr>cache_hit := cache_hit (ce_stats e) + 1\<rparr>, ce_lru := l\<rparr>, CL_Hit r) }
          | Some res \<Rightarrow> do {
              l \<leftarrow> sharded_touch (ce_lru e) d;
              Some (e\<lparr>ce_stats := (ce_stats e)\<lparr>cache_hit_grace := cache_hit_grace (ce_stats e) + 1\<rparr>, ce_lru := l\<rparr>, res) }
          | None \<Rightarrow> do {
              l \<leftarrow> sharded_remove (ce_lru e) d;
              Some (miss (e\<lparr>ce_objects := (ce_objects e)(d := None), ce_lru := l\<rparr>)) }))"

definition engine_evaluate :: "vtim_real \<Rightarrow> nat \<Rightarrow> ('s, 'h, 're) cache_engine \<Rightarrow> ('s, 'h, 're) cache_engine \<times> nat cache_lookup_result" where
  "engine_evaluate now r e =
     (let result = evaluate_object r (ce_arena e ! r) now; st = ce_stats e in
      (case result of
         CL_Hit _ \<Rightarrow> e\<lparr>ce_stats := st\<lparr>cache_hit := cache_hit st + 1\<rparr>\<rparr>
       | CL_Grace _ \<Rightarrow> e\<lparr>ce_stats := st\<lparr>cache_hit_grace := cache_hit_grace st + 1\<rparr>\<rparr>
       | CL_HitForPass \<Rightarrow> e\<lparr>ce_stats := st\<lparr>cache_hit_for_pass := cache_hit_for_pass st + 1\<rparr>\<rparr>
       | CL_Miss \<Rightarrow> e\<lparr>ce_stats := st\<lparr>cache_miss := cache_miss st + 1\<rparr>\<rparr>
       | CL_Busy \<Rightarrow> e, result))"

section \<open>Insertion and eviction\<close>

text \<open>Freeing the storage of every variant of a digest, as often as there are variants.\<close>

definition free_variants :: "'s stevedore \<Rightarrow> digest \<Rightarrow> nat list \<Rightarrow> 's \<Rightarrow> 's" where
  "free_variants sv d variants s = fold (\<lambda>_. sv_free_obj sv (objcore_new d)) variants s"

definition evict_victim :: "'s stevedore \<Rightarrow> digest \<Rightarrow> ('s, 'h, 're) cache_engine \<Rightarrow> ('s, 'h, 're) cache_engine" where
  "evict_victim sv victim e =
     (case ce_objects e victim of
        None \<Rightarrow> e
      | Some variants \<Rightarrow>
          e\<lparr>ce_objects := (ce_objects e)(victim := None),
            ce_storage := free_variants sv victim variants (ce_storage e),
            ce_stats := (ce_stats e)\<lparr>evictions := evictions (ce_stats e) + of_nat (length variants)\<rparr>\<rparr>)"

text \<open>The eviction loop; \<open>None\<close> would also be the value of a loop that does not end.\<close>

partial_function (option) enforce_capacity :: "'s stevedore \<Rightarrow> ('s, 'h, 're) cache_engine \<Rightarrow> ('s, 'h, 're) cache_engine option" where
  "enforce_capacity sv e =
     (if sharded_len (ce_lru e) \<ge> ce_max_objects e
      then Option.bind (sharded_evict_oldest (ce_lru e)) (\<lambda>p.
             (case snd p of
                None \<Rightarrow> Some (e\<lparr>ce_lru := fst p\<rparr>)
              | Some victim \<Rightarrow> enforce_capacity sv (evict_victim sv victim (e\<lparr>ce_lru := fst p\<rparr>))))
      else Some e)"

text \<open>The object that an insertion makes.\<close>

definition cached_object :: "vtim_real \<Rightarrow> digest \<Rightarrow> u8 list \<Rightarrow> ttl_info \<Rightarrow> u8 list option \<Rightarrow> objcore" where
  "cached_object now d body ti vary =
     (let oc = store_body body ((objcore_new d)\<lparr>t_origin := now, ttl := ti_ttl ti, grace := ti_grace ti, keep := ti_keep ti\<rparr>)
      in case vary of Some data \<Rightarrow> set_vary data oc | None \<Rightarrow> oc)"

definition engine_insert :: "'s stevedore \<Rightarrow> (node_heap \<Rightarrow> ptr) \<Rightarrow> vtim_real \<Rightarrow> digest \<Rightarrow> u8 list \<Rightarrow> ttl_info \<Rightarrow> u8 list option \<Rightarrow>
    ('s, 'h, 're) cache_engine \<Rightarrow> (('s, 'h, 're) cache_engine \<times> (cache_error, nat) result) option" where
  "engine_insert sv alloc now d body ti vary e0 = do {
     e \<leftarrow> enforce_capacity sv e0;
     (case sv_alloc_obj sv (objcore_new d) (of_nat (length body)) (ce_storage e) of
        (s1, Inl err) \<Rightarrow> Some (e\<lparr>ce_storage := s1\<rparr>, Inl (StorageErr err))
      | (s1, Inr _) \<Rightarrow>
         (case sv_extend sv ((objcore_new d)\<lparr>t_origin := now, ttl := ti_ttl ti, grace := ti_grace ti, keep := ti_keep ti\<rparr>) body s1 of
            (s2, Inl err) \<Rightarrow> Some (e\<lparr>ce_storage := s2\<rparr>, Inl (StorageErr err))
          | (s2, Inr _) \<Rightarrow>
             (let oc = cached_object now d body ti vary; r = length (ce_arena e); st = ce_stats e in do {
                l \<leftarrow> sharded_insert alloc (ce_lru e) d;
                Some (e\<lparr>ce_storage := s2, ce_arena := ce_arena e @ [oc],
                  ce_objects := (ce_objects e)(d \<mapsto> (case ce_objects e d of Some rs \<Rightarrow> rs | None \<Rightarrow> []) @ [r]),
                  ce_lru := l, ce_expiry := expiry_insert r oc (ce_expiry e),
                  ce_stats := st\<lparr>n_objects := n_objects st + 1, bytes_stored := bytes_stored st + of_nat (length body)\<rparr>,
                  ce_log := ce_log e @ [(LT_ObjHeader, ti_ttl ti)]\<rparr>, Inr r) }))) }"

section \<open>Removal\<close>

definition engine_remove :: "'s stevedore \<Rightarrow> digest \<Rightarrow> ('s, 'h, 're) cache_engine \<Rightarrow> (('s, 'h, 're) cache_engine \<times> nat) option" where
  "engine_remove sv d e =
     (let removed = ce_objects e d; e1 = e\<lparr>ce_objects := (ce_objects e)(d := None)\<rparr> in do {
        l \<leftarrow> sharded_remove (ce_lru e1) d;
        (let e2 = e1\<lparr>ce_lru := l\<rparr>; n = (case removed of Some variants \<Rightarrow> length variants | None \<Rightarrow> 0) in
         Some (if n > 0
               then e2\<lparr>ce_storage := free_variants sv d (the removed) (ce_storage e2),
                       ce_stats := (ce_stats e2)\<lparr>evictions := evictions (ce_stats e2) + of_nat n\<rparr>\<rparr>
               else e2, n)) })"

definition engine_purge :: "'h hash_vtable \<Rightarrow> (oh_heap \<Rightarrow> oh_ref) \<Rightarrow> digest \<Rightarrow> ('s, 'h, 're) cache_engine \<Rightarrow> ('s, 'h, 're) cache_engine option" where
  "engine_purge hs new_head d e =
     (let new_oh = new_head (ce_heads e);
          (h1, heads1, oh, _) = hv_lookup hs (ce_hash e) ((ce_heads e)(new_oh \<mapsto> objhead_new d)) d new_oh;
          (h2, heads2, _) = hv_deref hs h1 heads1 oh;
          e1 = e\<lparr>ce_hash := h2, ce_heads := heads2, ce_objects := (ce_objects e)(d := None)\<rparr>
      in do {
        l \<leftarrow> sharded_remove (ce_lru e1) d;
        Some (e1\<lparr>ce_lru := l, ce_stats := (ce_stats e1)\<lparr>n_purged := n_purged (ce_stats e1) + 1\<rparr>\<rparr>) })"

definition engine_ban :: "(string \<Rightarrow> (string, 're) result) \<Rightarrow> vtim_real \<Rightarrow> string \<Rightarrow> ('s, 'h, 're) cache_engine \<Rightarrow>
    ('s, 'h, 're) cache_engine \<times> (cache_error, unit) result" where
  "engine_ban re_new now expr e =
     (case add_ban re_new now expr (ce_ban_list e) of
        Inl err \<Rightarrow> (e, Inl err)
      | Inr bans \<Rightarrow> (e\<lparr>ce_ban_list := bans, ce_stats := (ce_stats e)\<lparr>bans_added := bans_added (ce_stats e) + 1\<rparr>\<rparr>, Inr ()))"

fun drop_expired :: "'s stevedore \<Rightarrow> nat list \<Rightarrow> ('s, 'h, 're) cache_engine \<Rightarrow> ('s, 'h, 're) cache_engine option" where
  "drop_expired sv [] e = Some e"
| "drop_expired sv (r # rs) e =
     (let d = oc_digest (ce_arena e ! r) in do {
        l \<leftarrow> sharded_remove (ce_lru e) d;
        drop_expired sv rs (e\<lparr>ce_lru := l, ce_objects := (ce_objects e)(d := None),
                              ce_storage := sv_free_obj sv (objcore_new d) (ce_storage e)\<rparr>) })"

definition expire_objects :: "'s stevedore \<Rightarrow> vtim_real \<Rightarrow> ('s, 'h, 're) cache_engine \<Rightarrow> (('s, 'h, 're) cache_engine \<times> nat) option" where
  "expire_objects sv now e0 =
     (let (expired, ex) = expire now (ce_expiry e0); n = length expired in do {
        e \<leftarrow> drop_expired sv expired (e0\<lparr>ce_expiry := ex\<rparr>);
        (let st = ce_stats e in
         Some (if n > 0 then e\<lparr>ce_stats := st\<lparr>n_expired := n_expired st + of_nat n, evictions := evictions st + of_nat n\<rparr>\<rparr> else e, n)) })"

section \<open>Histories\<close>

datatype engine_op =
    EO_Lookup vtim_real digest "header_map option"
  | EO_Insert vtim_real digest "u8 list" ttl_info "u8 list option"
  | EO_Remove digest
  | EO_Purge digest
  | EO_Ban vtim_real string
  | EO_Expire vtim_real

datatype engine_out =
    Out_Lookup "nat cache_lookup_result"
  | Out_Insert "(cache_error, nat) result"
  | Out_Count nat
  | Out_Ban "(cache_error, unit) result"
  | Out_Done

text \<open>The world of an engine: its backends, the allocator and the regular expressions.\<close>

record ('s, 'h, 're) world =
  w_storage :: "'s stevedore"
  w_hash :: "'h hash_vtable"
  w_new_head :: "oh_heap \<Rightarrow> oh_ref"
  w_alloc :: "node_heap \<Rightarrow> ptr"
  w_regex :: "string \<Rightarrow> (string, 're) result"

fun engine_exec :: "('s, 'h, 're) world \<Rightarrow> ('s, 'h, 're) cache_engine \<Rightarrow> engine_op \<Rightarrow> (('s, 'h, 're) cache_engine \<times> engine_out) option" where
  "engine_exec w e (EO_Lookup now d hdrs) = map_option (map_prod id Out_Lookup) (engine_lookup now d hdrs e)"
| "engine_exec w e (EO_Insert now d body ti vary) =
     map_option (map_prod id Out_Insert) (engine_insert (w_storage w) (w_alloc w) now d body ti vary e)"
| "engine_exec w e (EO_Remove d) = map_option (map_prod id Out_Count) (engine_remove (w_storage w) d e)"
| "engine_exec w e (EO_Purge d) = map_option (\<lambda>e'. (e', Out_Done)) (engine_purge (w_hash w) (w_new_head w) d e)"
| "engine_exec w e (EO_Ban now expr) = Some (map_prod id Out_Ban (engine_ban (w_regex w) now expr e))"
| "engine_exec w e (EO_Expire now) = map_option (map_prod id Out_Count) (expire_objects (w_storage w) now e)"

fun engine_run :: "('s, 'h, 're) world \<Rightarrow> ('s, 'h, 're) cache_engine \<Rightarrow> engine_op list \<Rightarrow> (('s, 'h, 're) cache_engine \<times> engine_out list) option" where
  "engine_run w e [] = Some (e, [])"
| "engine_run w e (c # cs) = do {
     (e', x) \<leftarrow> engine_exec w e c;
     (e'', xs) \<leftarrow> engine_run w e' cs;
     Some (e'', x # xs) }"

section \<open>The tracker as a list of digests\<close>

definition lru_tracks :: "sharded_lru \<Rightarrow> digest list \<Rightarrow> bool" where
  "lru_tracks l ds \<longleftrightarrow> (\<exists>g. sharded_repr l g \<and> map fst g = ds)"

lemma lru_tracks_new: "lru_tracks (sharded_new n) []"
  using sharded_new_repr by (auto simp: lru_tracks_def)

lemma lru_tracks_len: "lru_tracks l ds \<Longrightarrow> sharded_len l = length ds"
  by (auto simp: lru_tracks_def dest: sharded_len_repr(1))

lemma lru_tracks_step:
  assumes "lru_tracks l ds" "sl_clock l \<noteq> -1" "fresh_alloc alloc"
  obtains l' x where "slru_step alloc l op = Some (l', x)" "lru_tracks l' (fst (slru_spec ds op))"
    "sl_clock l' = sl_clock l \<or> sl_clock l' = sl_clock l + 1"
  using assms slru_step_sim unfolding lru_tracks_def by (metis fst_conv)

lemma lru_insert:
  assumes "lru_tracks l ds" "sl_clock l \<noteq> -1" "fresh_alloc alloc"
  obtains l' where "sharded_insert alloc l d = Some l'" "lru_tracks l' (removeAll d ds @ [d])"
    "sl_clock l' = sl_clock l \<or> sl_clock l' = sl_clock l + 1"
  using lru_tracks_step[OF assms, of "SInsert d"] by auto

lemma lru_touch:
  assumes "lru_tracks l ds" "sl_clock l \<noteq> -1"
  obtains l' where "sharded_touch l d = Some l'" "lru_tracks l' (move_to_end d ds)"
    "sl_clock l' = sl_clock l \<or> sl_clock l' = sl_clock l + 1"
  using lru_tracks_step[OF assms fresh_bump_alloc, of "STouch d"] by auto

lemma sharded_remove_clock: "sharded_remove l d = Some l' \<Longrightarrow> sl_clock l' = sl_clock l"
  by (auto simp: sharded_remove_def split: bind_splits)

lemma lru_remove:
  assumes "lru_tracks l ds" "sl_clock l \<noteq> -1"
  obtains l' where "sharded_remove l d = Some l'" "lru_tracks l' (removeAll d ds)" "sl_clock l' = sl_clock l"
  using lru_tracks_step[OF assms fresh_bump_alloc, of "SRemove d"] by (auto dest: sharded_remove_clock)

lemma lru_evict:
  assumes "lru_tracks l ds"
  obtains l' where "sharded_evict_oldest l = Some (l', first_of ds None)" "lru_tracks l' (tl ds)" "sl_clock l' = sl_clock l"
proof -
  from assms obtain g where g: "sharded_repr l g" "map fst g = ds" by (auto simp: lru_tracks_def)
  from g(1) obtain l' where "sharded_evict_oldest l = Some (l', first_of (map fst g) None)"
    "sharded_repr l' (tl g)" "sl_clock l' = sl_clock l" by (rule sharded_evict_repr)
  with g(2) show ?thesis by (intro that[of l']) (auto simp: lru_tracks_def map_tl)
qed

lemma lru_tracks_distinct: "lru_tracks l ds \<Longrightarrow> distinct ds"
  by (auto simp: lru_tracks_def sharded_repr_def)

section \<open>The invariant\<close>

text \<open>
  The tracker and the table hold the same digests, at most as many as allowed (one when no object is
  allowed), and every variant is an object of its digest.
\<close>

definition variants_ok :: "('s, 'h, 're) cache_engine \<Rightarrow> bool" where
  "variants_ok e \<longleftrightarrow> (\<forall>d vs. ce_objects e d = Some vs \<longrightarrow>
     vs \<noteq> [] \<and> (\<forall>r \<in> set vs. r < length (ce_arena e) \<and> oc_digest (ce_arena e ! r) = d))"

definition indexed :: "('s, 'h, 're) cache_engine \<Rightarrow> digest list \<Rightarrow> bool" where
  "indexed e ds \<longleftrightarrow> lru_tracks (ce_lru e) ds \<and> set ds = dom (ce_objects e) \<and> variants_ok e"

definition engine_inv :: "('s, 'h, 're) cache_engine \<Rightarrow> bool" where
  "engine_inv e \<longleftrightarrow> (\<exists>ds. indexed e ds \<and> length ds \<le> max 1 (ce_max_objects e))"

lemma engine_inv_new: "engine_inv (with_max_objects h s n)"
  unfolding engine_inv_def indexed_def
  by (rule exI[of _ "[]"]) (simp add: with_max_objects_def lru_tracks_new variants_ok_def)

lemma variants_ok_subset:
  "variants_ok e \<Longrightarrow> ce_arena e' = ce_arena e \<Longrightarrow> ce_objects e' \<subseteq>\<^sub>m ce_objects e \<Longrightarrow> variants_ok e'"
  unfolding variants_ok_def map_le_def by (metis domIff option.distinct(1))

text \<open>What every operation of the engine guarantees, besides the invariant.\<close>

definition inserts :: "digest \<Rightarrow> engine_op \<Rightarrow> bool" where
  "inserts d op \<longleftrightarrow> (case op of EO_Insert _ d' _ _ _ \<Rightarrow> d' = d | _ \<Rightarrow> False)"

definition drops :: "digest \<Rightarrow> engine_op \<Rightarrow> bool" where
  "drops d op \<longleftrightarrow> op = EO_Remove d \<or> op = EO_Purge d"

definition served :: "('s, 'h, 're) cache_engine \<Rightarrow> vtim_real \<Rightarrow> digest \<Rightarrow> header_map option \<Rightarrow> nat cache_lookup_result \<Rightarrow> bool" where
  "served e now d hdrs res \<longleftrightarrow> res = CL_Miss \<or>
     (\<exists>r < length (ce_arena e). oc_digest (ce_arena e ! r) = d \<and> ce_objects e d \<noteq> None \<and> vary_ok hdrs (ce_arena e ! r) \<and>
        res \<in> {CL_Hit r, CL_Grace r} \<and> evaluate_object r (ce_arena e ! r) now = res)"

definition new_objects :: "engine_op \<Rightarrow> engine_out \<Rightarrow> objcore list" where
  "new_objects op out =
     (case (op, out) of (EO_Insert now d body ti vary, Out_Insert (Inr r)) \<Rightarrow> [cached_object now d body ti vary] | _ \<Rightarrow> [])"

definition effect :: "('s, 'h, 're) cache_engine \<Rightarrow> engine_op \<Rightarrow> engine_out \<Rightarrow> ('s, 'h, 're) cache_engine \<Rightarrow> bool" where
  "effect e op out e' \<longleftrightarrow>
     ce_max_objects e' = ce_max_objects e \<and>
     ce_arena e' = ce_arena e @ new_objects op out \<and>
     (\<forall>d. ce_objects e d = None \<and> \<not> inserts d op \<longrightarrow> ce_objects e' d = None) \<and>
     (\<forall>d. drops d op \<longrightarrow> ce_objects e' d = None) \<and>
     (case (op, out) of
        (EO_Lookup now d hdrs, Out_Lookup res) \<Rightarrow> served e now d hdrs res
      | (EO_Lookup now d hdrs, _) \<Rightarrow> False
      | (EO_Insert now d body ti vary, Out_Insert (Inr r)) \<Rightarrow> r = length (ce_arena e)
      | _ \<Rightarrow> True) \<and>
     (sl_clock (ce_lru e') = sl_clock (ce_lru e) \<or> sl_clock (ce_lru e') = sl_clock (ce_lru e) + 1)"

section \<open>Every operation keeps it\<close>

lemma scan_result:
  assumes "scan_variants arena hdrs now rs gc = Some res"
    and "\<And>r. gc = Some r \<Longrightarrow> r \<in> S \<and> vary_ok hdrs (arena ! r) \<and> evaluate_object r (arena ! r) now = CL_Grace r"
    and "set rs \<subseteq> S"
  shows "\<exists>r \<in> S. vary_ok hdrs (arena ! r) \<and> res \<in> {CL_Hit r, CL_Grace r} \<and> evaluate_object r (arena ! r) now = res"
  using assms
proof (induction rs arbitrary: gc)
  case (Cons r rs)
  have keep: ?case if "scan_variants arena hdrs now rs gc = Some res"
    by (rule Cons.IH[OF that]) (use Cons.prems in auto)
  show ?case
  proof (cases "vary_ok hdrs (arena ! r)")
    case True
    then show ?thesis
    proof (cases "evaluate_object r (arena ! r) now")
      case (CL_Hit x)
      then have "x = r" using evaluate_cases(2)[of r "arena ! r" now x] by simp
      with CL_Hit True Cons.prems show ?thesis by auto
    next
      case (CL_Grace x)
      then have x: "x = r" using evaluate_cases(2)[of r "arena ! r" now x] by simp
      have "scan_variants arena hdrs now rs (if gc = None then Some r else gc) = Some res"
        using CL_Grace True Cons.prems(1) by simp
      then show ?thesis
        by (rule Cons.IH) (use CL_Grace x True Cons.prems in \<open>auto split: if_splits\<close>)
    qed (use True Cons.prems(1) keep in simp_all)
  qed (use Cons.prems(1) keep in simp)
qed auto

lemma scan_not_other: "scan_variants arena hdrs now rs gc \<noteq> Some CL_Miss"
  "scan_variants arena hdrs now rs gc \<noteq> Some CL_HitForPass" "scan_variants arena hdrs now rs gc \<noteq> Some CL_Busy"
  by (induction rs arbitrary: gc) (auto split: cache_lookup_result.splits)

lemma indexed_drop:
  assumes "indexed e ds" "lru_tracks l (removeAll d ds)"
    and "ce_lru e' = l" "ce_objects e' = (ce_objects e)(d := None)" "ce_arena e' = ce_arena e"
  shows "indexed e' (removeAll d ds)"
  using assms variants_ok_subset[of e e'] unfolding indexed_def by (auto simp: map_le_def)

lemma set_moved_last: "set (move_to_end d ds) = set ds"
  by (auto simp: move_to_end_def)

text \<open>The list that the tracker holds has as many entries as the table has digests.\<close>

lemma engine_inv_iff:
  "engine_inv e \<longleftrightarrow> (\<exists>ds. indexed e ds) \<and> card (dom (ce_objects e)) \<le> max 1 (ce_max_objects e)"
proof -
  have "length ds = card (dom (ce_objects e))" if "indexed e ds" for ds
    using that lru_tracks_distinct[of "ce_lru e" ds] distinct_card[of ds] by (auto simp: indexed_def)
  then show ?thesis unfolding engine_inv_def by auto
qed

lemma engine_inv_fewer:
  assumes "engine_inv e" "indexed e' ds'" "dom (ce_objects e') \<subseteq> dom (ce_objects e)" "ce_max_objects e' = ce_max_objects e"
  shows "engine_inv e'"
proof -
  from assms(1) obtain ds where "indexed e ds" by (auto simp: engine_inv_def)
  then have "finite (dom (ce_objects e))" by (metis indexed_def List.finite_set)
  then have "card (dom (ce_objects e')) \<le> card (dom (ce_objects e))" using assms(3) by (rule card_mono)
  with assms show ?thesis by (auto simp: engine_inv_iff)
qed

lemma lookup_step:
  assumes inv: "engine_inv e" and clock: "sl_clock (ce_lru e) \<noteq> -1"
  shows "\<exists>e' out. engine_exec w e (EO_Lookup now d hdrs) = Some (e', out) \<and> engine_inv e' \<and>
           effect e (EO_Lookup now d hdrs) out e'"
proof -
  from inv obtain ds where ix: "indexed e ds" by (auto simp: engine_inv_def)
  then have tr: "lru_tracks (ce_lru e) ds" and vo: "variants_ok e" by (auto simp: indexed_def)
  show ?thesis
  proof (cases "ce_objects e d")
    case None
    let ?e = "e\<lparr>ce_stats := (ce_stats e)\<lparr>cache_miss := cache_miss (ce_stats e) + 1\<rparr>\<rparr>"
    have "engine_inv ?e" using ix by (intro engine_inv_fewer[OF inv, of _ ds]) (simp_all add: indexed_def variants_ok_def)
    then show ?thesis
      using None by (simp add: engine_lookup_def effect_def served_def new_objects_def drops_def)
  next
    case (Some vs)
    show ?thesis
    proof (cases "scan_variants (ce_arena e) hdrs now vs None")
      case None
      from tr clock obtain l where l: "sharded_remove (ce_lru e) d = Some l" "lru_tracks l (removeAll d ds)"
        "sl_clock l = sl_clock (ce_lru e)" by (rule lru_remove)
      let ?e = "e\<lparr>ce_objects := (ce_objects e)(d := None), ce_lru := l,
        ce_stats := (ce_stats e)\<lparr>cache_miss := cache_miss (ce_stats e) + 1\<rparr>\<rparr>"
      have "indexed ?e (removeAll d ds)" by (rule indexed_drop[OF ix l(2)]) simp_all
      then have "engine_inv ?e" by (rule engine_inv_fewer[OF inv]) auto
      then show ?thesis
        using Some None l by (simp add: engine_lookup_def effect_def served_def new_objects_def drops_def)
    next
      case res: (Some res)
      from scan_result[OF res, of "set vs"] obtain r where r: "r \<in> set vs" "vary_ok hdrs (ce_arena e ! r)"
        "res \<in> {CL_Hit r, CL_Grace r}" "evaluate_object r (ce_arena e ! r) now = res" by auto
      have sv: "served e now d hdrs res"
        using r Some vo unfolding served_def variants_ok_def by auto
      from tr clock obtain l where l: "sharded_touch (ce_lru e) d = Some l" "lru_tracks l (move_to_end d ds)"
        "sl_clock l = sl_clock (ce_lru e) \<or> sl_clock l = sl_clock (ce_lru e) + 1" by (rule lru_touch)
      have "engine_inv (e\<lparr>ce_stats := st, ce_lru := l\<rparr>)" for st
        using ix l(2) by (intro engine_inv_fewer[OF inv, of _ "move_to_end d ds"])
          (simp_all add: indexed_def variants_ok_def set_moved_last)
      then show ?thesis
        using Some res r(3) l(1,3) sv by (auto simp: engine_lookup_def effect_def new_objects_def drops_def inserts_def)
    qed
  qed
qed

lemma remove_step:
  assumes inv: "engine_inv e" and clock: "sl_clock (ce_lru e) \<noteq> -1"
  shows "\<exists>e' out. engine_exec w e (EO_Remove d) = Some (e', out) \<and> engine_inv e' \<and> effect e (EO_Remove d) out e'"
    and "\<exists>e' out. engine_exec w e (EO_Purge d) = Some (e', out) \<and> engine_inv e' \<and> effect e (EO_Purge d) out e'"
proof -
  from inv obtain ds where ix: "indexed e ds" by (auto simp: engine_inv_def)
  then have "lru_tracks (ce_lru e) ds" by (auto simp: indexed_def)
  from this clock obtain l where l: "sharded_remove (ce_lru e) d = Some l" "lru_tracks l (removeAll d ds)"
    "sl_clock l = sl_clock (ce_lru e)" by (rule lru_remove)
  have keep: "engine_inv e'" if "ce_lru e' = l" "ce_objects e' = (ce_objects e)(d := None)" "ce_arena e' = ce_arena e"
    "ce_max_objects e' = ce_max_objects e" for e' :: "('a, 'b, 'c) cache_engine"
    using that by (intro engine_inv_fewer[OF inv indexed_drop[OF ix l(2)]]) auto
  show "\<exists>e' out. engine_exec w e (EO_Remove d) = Some (e', out) \<and> engine_inv e' \<and> effect e (EO_Remove d) out e'"
    using l(1,3) by (auto simp: engine_remove_def Let_def effect_def new_objects_def drops_def intro!: keep)
  show "\<exists>e' out. engine_exec w e (EO_Purge d) = Some (e', out) \<and> engine_inv e' \<and> effect e (EO_Purge d) out e'"
    using l(1,3) by (auto simp: engine_purge_def Let_def effect_def new_objects_def drops_def intro!: keep split: prod.splits)
qed

lemma map_le_drop:
  assumes "m \<subseteq>\<^sub>m n(d := None)"
  shows "m \<subseteq>\<^sub>m n" "m d = None"
proof -
  show "m d = None" using assms by (metis fun_upd_same map_le_def domIff)
  then show "m \<subseteq>\<^sub>m n" using assms by (auto simp: map_le_def)
qed

lemma drop_expired_ok:
  assumes "indexed e ds" "sl_clock (ce_lru e) \<noteq> -1"
  shows "\<exists>e' ds'. drop_expired sv rs e = Some e' \<and> indexed e' ds' \<and> ce_objects e' \<subseteq>\<^sub>m ce_objects e \<and>
     ce_arena e' = ce_arena e \<and> ce_max_objects e' = ce_max_objects e \<and> sl_clock (ce_lru e') = sl_clock (ce_lru e) \<and>
     (\<forall>r \<in> set rs. ce_objects e' (oc_digest (ce_arena e ! r)) = None)"
  using assms
proof (induction rs arbitrary: e ds)
  case (Cons r rs)
  let ?d = "oc_digest (ce_arena e ! r)"
  have "lru_tracks (ce_lru e) ds" using Cons.prems(1) by (simp add: indexed_def)
  from this Cons.prems(2) obtain l where l: "sharded_remove (ce_lru e) ?d = Some l"
    "lru_tracks l (removeAll ?d ds)" "sl_clock l = sl_clock (ce_lru e)" by (rule lru_remove)
  let ?e = "e\<lparr>ce_lru := l, ce_objects := (ce_objects e)(?d := None),
    ce_storage := sv_free_obj sv (objcore_new ?d) (ce_storage e)\<rparr>"
  have "indexed ?e (removeAll ?d ds)" by (rule indexed_drop[OF Cons.prems(1) l(2)]) simp_all
  moreover have "sl_clock (ce_lru ?e) \<noteq> -1" using l(3) Cons.prems(2) by simp
  ultimately obtain e' ds' where e':
    "drop_expired sv rs ?e = Some e'" "indexed e' ds'" "ce_objects e' \<subseteq>\<^sub>m ce_objects ?e"
    "ce_arena e' = ce_arena ?e" "ce_max_objects e' = ce_max_objects ?e" "sl_clock (ce_lru e') = sl_clock (ce_lru ?e)"
    "\<forall>r \<in> set rs. ce_objects e' (oc_digest (ce_arena ?e ! r)) = None"
    using Cons.IH by blast
  have "ce_objects e' \<subseteq>\<^sub>m (ce_objects e)(?d := None)" using e'(3) by simp
  note none = map_le_drop[OF this]
  with e' l show ?case by (intro exI[of _ e'] exI[of _ ds']) simp
qed auto

lemma expire_step:
  assumes inv: "engine_inv e" and clock: "sl_clock (ce_lru e) \<noteq> -1"
  shows "\<exists>e' out. engine_exec w e (EO_Expire now) = Some (e', out) \<and> engine_inv e' \<and> effect e (EO_Expire now) out e'"
proof -
  from inv obtain ds where ix: "indexed e ds" by (auto simp: engine_inv_def)
  obtain expired ex where ex: "expire now (ce_expiry e) = (expired, ex)" by (cases "expire now (ce_expiry e)")
  have "indexed (e\<lparr>ce_expiry := ex\<rparr>) ds" using ix by (simp add: indexed_def variants_ok_def)
  from drop_expired_ok[OF this, of "w_storage w" expired] clock obtain e' ds' where e':
    "drop_expired (w_storage w) expired (e\<lparr>ce_expiry := ex\<rparr>) = Some e'" "indexed e' ds'" "ce_objects e' \<subseteq>\<^sub>m ce_objects e"
    "ce_arena e' = ce_arena e" "ce_max_objects e' = ce_max_objects e" "sl_clock (ce_lru e') = sl_clock (ce_lru e)"
    by auto
  have "dom (ce_objects e') \<subseteq> dom (ce_objects e)" using e'(3) by (rule map_le_implies_dom_le)
  note fewer = engine_inv_fewer[OF inv _ _ e'(5)] this
  have "engine_inv e'" by (rule fewer(1)[OF e'(2) fewer(2)])
  moreover have "indexed (e'\<lparr>ce_stats := st\<rparr>) ds'" for st using e'(2) by (simp add: indexed_def variants_ok_def)
  then have "engine_inv (e'\<lparr>ce_stats := st\<rparr>)" for st
    using e'(5) fewer(2) by (intro engine_inv_fewer[OF inv, of "e'\<lparr>ce_stats := st\<rparr>" ds']) simp_all
  moreover have "ce_objects e d = None \<Longrightarrow> ce_objects e' d = None" for d
    using e'(3) by (metis map_le_def domIff)
  ultimately show ?thesis
    using e'(1,4,5,6) ex by (auto simp: expire_objects_def Let_def effect_def new_objects_def drops_def)
qed

section \<open>Insertion keeps it\<close>

text \<open>
  The eviction loop ends, follows no invalid pointer, and leaves room for one more digest (or
  nothing at all).
\<close>

lemma evict_victim_fields:
  assumes "ce_objects e d \<noteq> None"
  shows "ce_objects (evict_victim sv d e) = (ce_objects e)(d := None)" "ce_arena (evict_victim sv d e) = ce_arena e"
    "ce_lru (evict_victim sv d e) = ce_lru e" "ce_max_objects (evict_victim sv d e) = ce_max_objects e"
  using assms by (auto simp: evict_victim_def)

lemma enforce_capacity_ok:
  assumes "indexed e ds"
  shows "\<exists>e' ds'. enforce_capacity sv e = Some e' \<and> indexed e' ds' \<and> ce_objects e' \<subseteq>\<^sub>m ce_objects e \<and>
     ce_arena e' = ce_arena e \<and> ce_max_objects e' = ce_max_objects e \<and> sl_clock (ce_lru e') = sl_clock (ce_lru e) \<and>
     (ds' = [] \<or> length ds' < ce_max_objects e)"
  using assms
proof (induction ds arbitrary: e)
  case Nil
  then have tr: "lru_tracks (ce_lru e) []" by (simp add: indexed_def)
  show ?case
  proof (cases "ce_max_objects e \<le> sharded_len (ce_lru e)")
    case True
    from tr obtain l where l: "sharded_evict_oldest (ce_lru e) = Some (l, first_of [] None)" "lru_tracks l (tl [])"
      "sl_clock l = sl_clock (ce_lru e)" by (rule lru_evict)
    have "enforce_capacity sv e = Some (e\<lparr>ce_lru := l\<rparr>)"
      using True l(1) by (subst enforce_capacity.simps) simp
    moreover have "indexed (e\<lparr>ce_lru := l\<rparr>) []" using Nil l(2) by (simp add: indexed_def variants_ok_def)
    ultimately show ?thesis using l(3) by (intro exI[of _ "e\<lparr>ce_lru := l\<rparr>"] exI[of _ "[]"]) simp
  next
    case False
    then have "enforce_capacity sv e = Some e" by (subst enforce_capacity.simps) simp
    then show ?thesis using Nil by (intro exI[of _ e] exI[of _ "[]"]) simp
  qed
next
  case (Cons d ds)
  have tr: "lru_tracks (ce_lru e) (d # ds)" and vo: "variants_ok e" and dom: "set (d # ds) = dom (ce_objects e)"
    using Cons.prems by (auto simp: indexed_def)
  show ?case
  proof (cases "ce_max_objects e \<le> sharded_len (ce_lru e)")
    case True
    from tr obtain l where l: "sharded_evict_oldest (ce_lru e) = Some (l, first_of (d # ds) None)"
      "lru_tracks l (tl (d # ds))" "sl_clock l = sl_clock (ce_lru e)" by (rule lru_evict)
    let ?e = "evict_victim sv d (e\<lparr>ce_lru := l\<rparr>)"
    have enf: "enforce_capacity sv e = enforce_capacity sv ?e"
      using True l(1) by (subst enforce_capacity.simps) simp
    have "ce_objects (e\<lparr>ce_lru := l\<rparr>) d \<noteq> None" using dom by auto
    note f = evict_victim_fields[OF this, of sv]
    have "removeAll d (d # ds) = ds" using lru_tracks_distinct[OF tr] by simp
    then have "indexed ?e ds"
      using indexed_drop[OF Cons.prems, of l d ?e] l(2) f by simp
    from Cons.IH[OF this] obtain e' ds' where e': "enforce_capacity sv ?e = Some e'" "indexed e' ds'"
      "ce_objects e' \<subseteq>\<^sub>m ce_objects ?e" "ce_arena e' = ce_arena ?e" "ce_max_objects e' = ce_max_objects ?e"
      "sl_clock (ce_lru e') = sl_clock (ce_lru ?e)" "ds' = [] \<or> length ds' < ce_max_objects ?e" by blast
    have "ce_objects e' \<subseteq>\<^sub>m ce_objects e"
      using e'(3) f(1) map_le_drop(1) by simp
    then show ?thesis using enf e' f l(3) by (intro exI[of _ e'] exI[of _ ds']) simp
  next
    case False
    then have "enforce_capacity sv e = Some e" by (subst enforce_capacity.simps) simp
    moreover have "length (d # ds) < ce_max_objects e" using False lru_tracks_len[OF tr] by simp
    ultimately show ?thesis using Cons.prems by (intro exI[of _ e] exI[of _ "d # ds"]) simp
  qed
qed

lemma cached_object_digest [simp]: "oc_digest (cached_object now d body ti vary) = d"
  by (simp add: cached_object_def objcore_new_def store_body_def set_vary_def Let_def split: option.splits)

lemma variants_okD:
  "variants_ok e \<Longrightarrow> ce_objects e d = Some vs \<Longrightarrow> r \<in> set vs \<Longrightarrow> r < length (ce_arena e) \<and> oc_digest (ce_arena e ! r) = d"
  by (simp add: variants_ok_def)

lemma variants_ok_insert:
  assumes "variants_ok e" and a: "ce_arena e' = ce_arena e @ [oc]" "oc_digest oc = d"
    and m: "ce_objects e' = (ce_objects e)(d \<mapsto> (case ce_objects e d of Some rs \<Rightarrow> rs | None \<Rightarrow> []) @ [length (ce_arena e)])"
  shows "variants_ok e'"
  unfolding variants_ok_def
proof (intro allI impI conjI ballI)
  fix d' vs assume o: "ce_objects e' d' = Some vs"
  show "vs \<noteq> []" using assms(1) o m by (auto simp: variants_ok_def split: if_splits)
  fix r assume r: "r \<in> set vs"
  have "r = length (ce_arena e) \<and> d' = d \<or> r < length (ce_arena e) \<and> oc_digest (ce_arena e ! r) = d'"
    using o r m variants_okD[OF assms(1)] by (auto split: if_splits option.splits)
  then show "r < length (ce_arena e')" "oc_digest (ce_arena e' ! r) = d'"
    using a by (auto simp: nth_append)
qed

lemma insert_step:
  assumes inv: "engine_inv e" and clock: "sl_clock (ce_lru e) \<noteq> -1" and alloc: "fresh_alloc (w_alloc w)"
  shows "\<exists>e' out. engine_exec w e (EO_Insert now d body ti vary) = Some (e', out) \<and> engine_inv e' \<and>
           effect e (EO_Insert now d body ti vary) out e'"
proof -
  let ?op = "EO_Insert now d body ti vary"
  from inv obtain ds0 where "indexed e ds0" by (auto simp: engine_inv_def)
  from enforce_capacity_ok[OF this, of "w_storage w"] obtain e1 ds where e1:
    "enforce_capacity (w_storage w) e = Some e1" "indexed e1 ds" "ce_objects e1 \<subseteq>\<^sub>m ce_objects e"
    "ce_arena e1 = ce_arena e" "ce_max_objects e1 = ce_max_objects e" "sl_clock (ce_lru e1) = sl_clock (ce_lru e)"
    "ds = [] \<or> length ds < ce_max_objects e" by blast
  have none: "ce_objects e x = None \<Longrightarrow> ce_objects e1 x = None" for x using e1(3) by (metis map_le_def domIff)
  have refused: "engine_inv (e1\<lparr>ce_storage := s\<rparr>)" "effect e ?op (Out_Insert (Inl err)) (e1\<lparr>ce_storage := s\<rparr>)" for s err
  proof -
    have "indexed (e1\<lparr>ce_storage := s\<rparr>) ds" using e1(2) by (simp add: indexed_def variants_ok_def)
    then show "engine_inv (e1\<lparr>ce_storage := s\<rparr>)"
      using e1(3,5) by (intro engine_inv_fewer[OF inv]) (auto dest: map_le_implies_dom_le)
    show "effect e ?op (Out_Insert (Inl err)) (e1\<lparr>ce_storage := s\<rparr>)"
      using e1(4-6) none by (auto simp: effect_def new_objects_def drops_def)
  qed
  obtain s1 x1 where a: "sv_alloc_obj (w_storage w) (objcore_new d) (of_nat (length body)) (ce_storage e1) = (s1, x1)"
    by fastforce
  let ?oc1 = "(objcore_new d)\<lparr>t_origin := now, ttl := ti_ttl ti, grace := ti_grace ti, keep := ti_keep ti\<rparr>"
  obtain s2 x2 where x: "sv_extend (w_storage w) ?oc1 body s1 = (s2, x2)" by fastforce
  show ?thesis
  proof (cases x1)
    case (Inl err)
    then have "engine_exec w e ?op = Some (e1\<lparr>ce_storage := s1\<rparr>, Out_Insert (Inl (StorageErr err)))"
      using e1(1) a by (simp add: engine_insert_def)
    with refused show ?thesis by blast
  next
    case ok1: (Inr u1)
    show ?thesis
    proof (cases x2)
      case (Inl err)
      then have "engine_exec w e ?op = Some (e1\<lparr>ce_storage := s2\<rparr>, Out_Insert (Inl (StorageErr err)))"
        using e1(1) a x ok1 by (simp add: engine_insert_def)
      with refused show ?thesis by blast
    next
      case ok2: (Inr u2)
      have tr: "lru_tracks (ce_lru e1) ds" and dom: "set ds = dom (ce_objects e1)" and vo: "variants_ok e1"
        using e1(2) by (auto simp: indexed_def)
      have "sl_clock (ce_lru e1) \<noteq> -1" using e1(6) clock by simp
      with tr obtain l where l: "sharded_insert (w_alloc w) (ce_lru e1) d = Some l" "lru_tracks l (removeAll d ds @ [d])"
        "sl_clock l = sl_clock (ce_lru e1) \<or> sl_clock l = sl_clock (ce_lru e1) + 1"
        using alloc by (metis lru_insert)
      define oc where "oc = cached_object now d body ti vary"
      define vs where "vs = (case ce_objects e1 d of Some rs \<Rightarrow> rs | None \<Rightarrow> []) @ [length (ce_arena e1)]"
      define st where "st = (ce_stats e1)\<lparr>n_objects := n_objects (ce_stats e1) + 1, bytes_stored := bytes_stored (ce_stats e1) + of_nat (length body)\<rparr>"
      define e' where "e' = e1\<lparr>ce_storage := s2, ce_arena := ce_arena e1 @ [oc], ce_objects := (ce_objects e1)(d \<mapsto> vs),
        ce_lru := l, ce_expiry := expiry_insert (length (ce_arena e1)) oc (ce_expiry e1), ce_stats := st,
        ce_log := ce_log e1 @ [(LT_ObjHeader, ti_ttl ti)]\<rparr>"
      have run: "engine_exec w e ?op = Some (e', Out_Insert (Inr (length (ce_arena e1))))"
        using e1(1) a x ok1 ok2 l(1) by (simp add: engine_insert_def Let_def e'_def oc_def vs_def st_def)
      have "variants_ok e'"
        by (rule variants_ok_insert[OF vo, of e' oc d]) (simp_all add: e'_def vs_def oc_def)
      then have "indexed e' (removeAll d ds @ [d])"
        using l(2) dom by (auto simp: indexed_def e'_def)
      moreover have "length (removeAll d ds @ [d]) \<le> max 1 (ce_max_objects e')"
        using e1(5,7) by (auto simp: e'_def Suc_le_eq intro: le_less_trans[OF length_removeAll_less_eq])
      ultimately have "engine_inv e'" unfolding engine_inv_def by blast
      moreover have "effect e ?op (Out_Insert (Inr (length (ce_arena e1)))) e'"
        using e1(4-6) none l(3) by (auto simp: effect_def new_objects_def drops_def inserts_def e'_def oc_def)
      ultimately show ?thesis using run by blast
    qed
  qed
qed

lemma engine_step:
  assumes "engine_inv e" "sl_clock (ce_lru e) \<noteq> -1" "fresh_alloc (w_alloc w)"
  shows "\<exists>e' out. engine_exec w e op = Some (e', out) \<and> engine_inv e' \<and> effect e op out e'"
proof (cases op)
  case (EO_Ban now expr)
  obtain e' res where b: "engine_ban (w_regex w) now expr e = (e', res)" by fastforce
  then have "engine_inv e'" "effect e op (Out_Ban res) e'"
    using assms(1) by (auto simp: engine_ban_def EO_Ban effect_def new_objects_def drops_def engine_inv_def
        indexed_def variants_ok_def split: sum.splits)
  then show ?thesis using b by (simp add: EO_Ban)
next
  case (EO_Lookup now d hdrs)
  show ?thesis unfolding EO_Lookup by (rule lookup_step[OF assms(1,2)])
next
  case (EO_Insert now d body ti vary)
  show ?thesis unfolding EO_Insert by (rule insert_step[OF assms])
next
  case (EO_Remove d)
  show ?thesis unfolding EO_Remove by (rule remove_step(1)[OF assms(1,2)])
next
  case (EO_Purge d)
  show ?thesis unfolding EO_Purge by (rule remove_step(2)[OF assms(1,2)])
next
  case (EO_Expire now)
  show ?thesis unfolding EO_Expire by (rule expire_step[OF assms(1,2)])
qed

section \<open>Histories keep it\<close>

text \<open>
  A history from a good state runs to its end, step by step: \<open>states w e ops\<close> are the engines before
  each operation and after the last.
\<close>

lemma clock_next:
  assumes "unat (sl_clock l) + Suc n < 2 ^ 64"
  shows "sl_clock l \<noteq> -1" "sl_clock l' = sl_clock l \<or> sl_clock l' = sl_clock l + 1 \<Longrightarrow> unat (sl_clock l') + n < 2 ^ 64"
proof -
  show ne: "sl_clock l \<noteq> -1"
    using assms by (auto simp: unsigned_minus_1_eq_mask mask_eq_exp_minus_1)
  have "unat (sl_clock l + 1) = Suc (unat (sl_clock l))"
    using assms by (subst unat_add64) simp_all
  then show "unat (sl_clock l') + n < 2 ^ 64" if "sl_clock l' = sl_clock l \<or> sl_clock l' = sl_clock l + 1"
    using that assms by auto
qed

lemma engine_run_steps:
  assumes "engine_inv e" "unat (sl_clock (ce_lru e)) + length ops < 2 ^ 64" "fresh_alloc (w_alloc w)"
  shows "\<exists>es outs. length es = Suc (length ops) \<and> length outs = length ops \<and> es ! 0 = e \<and>
     engine_run w e ops = Some (es ! length ops, outs) \<and> list_all engine_inv es \<and>
     (\<forall>k < length ops. effect (es ! k) (ops ! k) (outs ! k) (es ! Suc k))"
  using assms
proof (induction ops arbitrary: e)
  case Nil
  then show ?case by (intro exI[of _ "[e]"] exI[of _ "[]"]) simp
next
  case (Cons op ops)
  have c: "unat (sl_clock (ce_lru e)) + Suc (length ops) < 2 ^ 64" using Cons.prems(2) by simp
  from engine_step[OF Cons.prems(1) clock_next(1)[OF c] Cons.prems(3)] obtain e' out where
    e': "engine_exec w e op = Some (e', out)" "engine_inv e'" "effect e op out e'" by blast
  have "unat (sl_clock (ce_lru e')) + length ops < 2 ^ 64"
    by (rule clock_next(2)[OF c]) (use e'(3) in \<open>simp add: effect_def\<close>)
  from Cons.IH[OF e'(2) this Cons.prems(3)] obtain es outs where es: "length es = Suc (length ops)"
    "length outs = length ops" "es ! 0 = e'" "engine_run w e' ops = Some (es ! length ops, outs)" "list_all engine_inv es"
    "\<forall>k < length ops. effect (es ! k) (ops ! k) (outs ! k) (es ! Suc k)" by blast
  have "effect ((e # es) ! k) ((op # ops) ! k) ((out # outs) ! k) ((e # es) ! Suc k)" if "k < Suc (length ops)" for k
    using that e'(3) es(3,6) by (cases k) auto
  then show ?case
    using e' es Cons.prems(1) by (intro exI[of _ "e # es"] exI[of _ "out # outs"]) simp
qed

text \<open>Objects are only added, so a reference keeps its object.\<close>

lemma arena_grows:
  assumes "\<forall>k < n. effect (es ! k) (ops ! k) (outs ! k) (es ! Suc k)" "j \<le> k" "k \<le> n"
  shows "prefix (ce_arena (es ! j)) (ce_arena (es ! k))"
  using assms(2,3)
proof (induction k rule: dec_induct)
  case (step k)
  then have "ce_arena (es ! Suc k) = ce_arena (es ! k) @ new_objects (ops ! k) (outs ! k)"
    using assms(1) by (simp add: effect_def)
  with step show ?case by (metis Suc_leD prefix_prefix)
qed simp

lemma prefix_nth: "prefix xs ys \<Longrightarrow> i < length xs \<Longrightarrow> ys ! i = xs ! i"
  by (auto simp: prefix_def nth_append)

lemma arena_origin:
  assumes "\<forall>k < n. effect (es ! k) (ops ! k) (outs ! k) (es ! Suc k)" "k \<le> n" "ce_arena (es ! 0) = []"
    and "r < length (ce_arena (es ! k))"
  shows "\<exists>j < k. \<exists>t d body ti vary. ops ! j = EO_Insert t d body ti vary \<and> outs ! j = Out_Insert (Inr r) \<and>
    ce_arena (es ! k) ! r = cached_object t d body ti vary"
  using assms(2,4)
proof (induction k)
  case (Suc k)
  have ef: "effect (es ! k) (ops ! k) (outs ! k) (es ! Suc k)" using Suc.prems(1) assms(1) by simp
  then have ar: "ce_arena (es ! Suc k) = ce_arena (es ! k) @ new_objects (ops ! k) (outs ! k)" by (simp add: effect_def)
  show ?case
  proof (cases "r < length (ce_arena (es ! k))")
    case True
    with Suc obtain j t d body ti vary where "j < k" "ops ! j = EO_Insert t d body ti vary"
      "outs ! j = Out_Insert (Inr r)" "ce_arena (es ! k) ! r = cached_object t d body ti vary" by auto
    then show ?thesis using True ar by (intro exI[of _ j]) (simp add: nth_append)
  next
    case False
    with Suc.prems(2) ar have "new_objects (ops ! k) (outs ! k) \<noteq> []" by auto
    then obtain t d body ti vary x where o: "ops ! k = EO_Insert t d body ti vary" "outs ! k = Out_Insert (Inr x)"
      by (auto simp: new_objects_def split: engine_op.splits engine_out.splits sum.splits)
    then have "x = length (ce_arena (es ! k))" using ef by (simp add: effect_def)
    moreover have "r = length (ce_arena (es ! k))"
      using False Suc.prems(2) ar o by (simp add: new_objects_def)
    ultimately show ?thesis using o ar by (intro exI[of _ k]) (simp add: new_objects_def)
  qed
qed (use assms(3) in simp)

lemma engine_run_returns:
  fixes hash :: 'h and storage :: 's and w :: "('s, 'h, 're) world"
  assumes "fresh_alloc (w_alloc w)" "length ops < 2 ^ 64"
  shows "\<exists>e outs. engine_run w (with_max_objects hash storage max_objects) ops = Some (e, outs)"
proof -
  let ?e0 = "with_max_objects hash storage max_objects :: ('s, 'h, 're) cache_engine"
  have "unat (sl_clock (ce_lru ?e0)) + length ops < 2 ^ 64"
    using assms(2) by (simp add: with_max_objects_def sharded_new_def)
  from engine_run_steps[OF engine_inv_new this assms(1)] show ?thesis by blast
qed

section \<open>What the engine guarantees\<close>

text \<open>
  C27: The engine never follows an invalid pointer and stays within its bound.  Whatever backends it
  is given, for any history of fewer than \<open>2\<^sup>6\<^sup>4\<close> operations on a new engine every operation returns,
  the eviction loop included; at every moment the LRU tracker counts exactly the digests of the
  object table, and these are at most \<open>max_objects\<close> (or one, when that is 0).
\<close>

theorem engine_bounded:
  fixes hash :: 'h and storage :: 's and w :: "('s, 'h, 're) world"
  assumes "fresh_alloc (w_alloc w)" "length ops < 2 ^ 64"
  shows "\<exists>e outs. engine_run w (with_max_objects hash storage max_objects) ops = Some (e, outs) \<and>
     sharded_len (ce_lru e) = card (dom (ce_objects e)) \<and> card (dom (ce_objects e)) \<le> max 1 max_objects"
proof -
  let ?e0 = "with_max_objects hash storage max_objects :: ('s, 'h, 're) cache_engine"
  have "unat (sl_clock (ce_lru ?e0)) + length ops < 2 ^ 64"
    using assms(2) by (simp add: with_max_objects_def sharded_new_def)
  from engine_run_steps[OF engine_inv_new this assms(1)] obtain es outs where es: "length es = Suc (length ops)" "es ! 0 = ?e0"
    "engine_run w ?e0 ops = Some (es ! length ops, outs)" "list_all engine_inv es"
    "\<forall>k < length ops. effect (es ! k) (ops ! k) (outs ! k) (es ! Suc k)" by blast
  let ?e = "es ! length ops"
  have "ce_max_objects (es ! k) = max_objects" if "k \<le> length ops" for k
    using that es(2,5) by (induction k) (simp_all add: with_max_objects_def effect_def)
  then have m: "ce_max_objects ?e = max_objects" by simp
  have inv: "engine_inv ?e" using es(1,4) by (simp add: list_all_length)
  then obtain ds where "indexed ?e ds" by (auto simp: engine_inv_def)
  then have "sharded_len (ce_lru ?e) = card (dom (ce_objects ?e))"
    by (metis indexed_def lru_tracks_len lru_tracks_distinct distinct_card)
  then show ?thesis using es(3) inv m by (auto simp: engine_inv_iff)
qed

text \<open>The histories of the properties: any on a new engine.\<close>

lemma engine_history:
  fixes w :: "('s, 'h, 're) world"
  assumes "engine_run w (with_max_objects hash storage max_objects) ops = Some (e, outs)"
    and "fresh_alloc (w_alloc w)" "length ops < 2 ^ 64"
  obtains es where "length es = Suc (length ops)" "length outs = length ops" "e = es ! length ops"
    "ce_arena (es ! 0) = []" "\<forall>k < length ops. effect (es ! k) (ops ! k) (outs ! k) (es ! Suc k)"
proof -
  let ?e0 = "with_max_objects hash storage max_objects :: ('s, 'h, 're) cache_engine"
  have "unat (sl_clock (ce_lru ?e0)) + length ops < 2 ^ 64"
    using assms(3) by (simp add: with_max_objects_def sharded_new_def)
  from engine_run_steps[OF engine_inv_new this assms(2)] obtain es outs' where es: "length es = Suc (length ops)"
    "length outs' = length ops" "es ! 0 = ?e0" "engine_run w ?e0 ops = Some (es ! length ops, outs')"
    "\<forall>k < length ops. effect (es ! k) (ops ! k) (outs' ! k) (es ! Suc k)" by blast
  show ?thesis
    by (rule that[of es]) (use es assms(1) in \<open>simp_all add: with_max_objects_def\<close>)
qed

text \<open>
  C28: What a lookup serves is what was stored.  In every history, a hit or a grace hit on a digest
  returns an object that an earlier insertion under that digest returned, with the body, times and
  variant data of that insertion; if the request names its headers the variant data matches them;
  and the result is the evaluation of that object at the time of the lookup.
\<close>

theorem engine_serves_what_was_stored:
  fixes w :: "('s, 'h, 're) world"
  assumes "engine_run w (with_max_objects hash storage max_objects) ops = Some (e, outs)"
    and "fresh_alloc (w_alloc w)" "length ops < 2 ^ 64"
    and "k < length ops" "ops ! k = EO_Lookup now d hdrs" "outs ! k = Out_Lookup res" "res \<in> {CL_Hit r, CL_Grace r}"
  shows "\<exists>j < k. \<exists>t body ti vary. ops ! j = EO_Insert t d body ti vary \<and> outs ! j = Out_Insert (Inr r) \<and>
     ce_arena e ! r = cached_object t d body ti vary \<and> vary_ok hdrs (cached_object t d body ti vary) \<and>
     evaluate_object r (cached_object t d body ti vary) now = res"
proof -
  from assms(1-3) obtain es where es: "e = es ! length ops" "ce_arena (es ! 0) = []"
    "\<forall>k < length ops. effect (es ! k) (ops ! k) (outs ! k) (es ! Suc k)" by (rule engine_history)
  have "effect (es ! k) (ops ! k) (outs ! k) (es ! Suc k)" using es(3) assms(4) by blast
  then have "served (es ! k) now d hdrs res" using assms(5,6) by (simp add: effect_def)
  then have sv: "r < length (ce_arena (es ! k))" "oc_digest (ce_arena (es ! k) ! r) = d"
    "vary_ok hdrs (ce_arena (es ! k) ! r)" "evaluate_object r (ce_arena (es ! k) ! r) now = res"
    using assms(7) by (auto simp: served_def)
  from arena_origin[OF es(3) _ es(2) sv(1)] assms(4) obtain j t d' body ti vary where
    j: "j < k" "ops ! j = EO_Insert t d' body ti vary" "outs ! j = Out_Insert (Inr r)"
    "ce_arena (es ! k) ! r = cached_object t d' body ti vary" by auto
  have "prefix (ce_arena (es ! k)) (ce_arena e)"
    unfolding es(1) by (rule arena_grows[OF es(3)]) (use assms(4) in auto)
  from prefix_nth[OF this sv(1)] j sv show ?thesis by (intro exI[of _ j]) auto
qed

text \<open>
  C29: A removed object is not served again.  In every history, after a removal or a purge of a digest
  every lookup of it is a miss, until something is inserted under it.
\<close>

theorem removed_stays_removed:
  fixes w :: "('s, 'h, 're) world"
  assumes "engine_run w (with_max_objects hash storage max_objects) ops = Some (e, outs)"
    and "fresh_alloc (w_alloc w)" "length ops < 2 ^ 64"
    and "j < k" "k < length ops" "drops d (ops ! j)" "\<forall>i. j < i \<and> i < k \<longrightarrow> \<not> inserts d (ops ! i)"
    and "ops ! k = EO_Lookup now d hdrs"
  shows "outs ! k = Out_Lookup CL_Miss"
proof -
  obtain es :: "('s, 'h, 're) cache_engine list" where
    es: "\<forall>k < length ops. effect (es ! k) (ops ! k) (outs ! k) (es ! Suc k)"
    by (rule engine_history[OF assms(1-3)])
  have "Suc j \<le> k" using assms(4) by simp
  then have "ce_objects (es ! k) d = None"
    using assms(5,7)
  proof (induction k rule: dec_induct)
    case base
    then show ?case using es assms(6) by (simp add: effect_def)
  next
    case (step i)
    then have "ce_objects (es ! i) d = None" "effect (es ! i) (ops ! i) (outs ! i) (es ! Suc i)" "\<not> inserts d (ops ! i)"
      using es by auto
    then show ?case by (simp add: effect_def)
  qed
  moreover have "effect (es ! k) (ops ! k) (outs ! k) (es ! Suc k)" using es assms(5) by blast
  ultimately show ?thesis
    using assms(8) by (auto simp: effect_def served_def split: engine_out.splits)
qed

section \<open>A concrete engine\<close>

definition demo_world :: "(malloc_stevedore, simple_hash, string) world" where
  "demo_world = \<lparr>w_storage = malloc_vtable, w_hash = \<lparr>hv_lookup = simple_lookup, hv_deref = simple_deref\<rparr>,
     w_new_head = (\<lambda>h. if dom h = {} then 0 else Suc (Max (dom h))), w_alloc = bump_alloc, w_regex = Inr\<rparr>"

definition demo_engine :: "(malloc_stevedore, simple_hash, string) cache_engine" where
  "demo_engine = with_max_objects simple_new (malloc_new ''s0'' 1000) 4"

lemma demo_alloc: "fresh_alloc (w_alloc demo_world)"
  by (simp add: demo_world_def fresh_bump_alloc)

definition demo_insert :: engine_op where
  "demo_insert = EO_Insert (Num 100) (make_digest 1) [1, 2, 3] ttl_info_default None"

theorem engine_bounded_witness:
  "\<exists>e outs. engine_run demo_world demo_engine [demo_insert, EO_Expire (Num 500), EO_Purge (make_digest 1)] = Some (e, outs) \<and>
     sharded_len (ce_lru e) = card (dom (ce_objects e)) \<and> card (dom (ce_objects e)) \<le> 4"
  using engine_bounded[OF demo_alloc, of "[demo_insert, EO_Expire (Num 500), EO_Purge (make_digest 1)]"
      simple_new "malloc_new ''s0'' 1000" 4]
  unfolding demo_engine_def by simp

theorem removed_stays_removed_witness:
  "\<exists>e outs. engine_run demo_world demo_engine [demo_insert, EO_Remove (make_digest 1), EO_Lookup (Num 101) (make_digest 1) None]
     = Some (e, outs) \<and> outs ! 2 = Out_Lookup CL_Miss"
proof -
  let ?ops = "[demo_insert, EO_Remove (make_digest 1), EO_Lookup (Num 101) (make_digest 1) None]"
  obtain e outs where r: "engine_run demo_world demo_engine ?ops = Some (e, outs)"
    using engine_run_returns[OF demo_alloc, of ?ops simple_new "malloc_new ''s0'' 1000" 4] unfolding demo_engine_def by auto
  have "outs ! 2 = Out_Lookup CL_Miss"
    by (rule removed_stays_removed[OF r[unfolded demo_engine_def] demo_alloc, of 1 2 "make_digest 1" "Num 101" None])
       (auto simp: drops_def nth_Cons')
  with r show ?thesis by blast
qed

text \<open>An insertion into the new engine, and a lookup within the lifetime.\<close>

lemma demo_run:
  "\<exists>e. engine_run demo_world demo_engine [demo_insert, EO_Lookup (Num 101) (make_digest 1) None]
     = Some (e, [Out_Insert (Inr 0), Out_Lookup (CL_Hit 0)])"
proof -
  let ?d = "make_digest 1"
  have tr0: "lru_tracks (ce_lru demo_engine) []" "sl_clock (ce_lru demo_engine) \<noteq> -1" "ce_max_objects demo_engine = 4"
    using lru_tracks_new[of 4] by (simp_all add: demo_engine_def with_max_objects_def sharded_new_def)
  have enf: "enforce_capacity malloc_vtable demo_engine = Some demo_engine"
    using tr0 lru_tracks_len[OF tr0(1)] by (subst enforce_capacity.simps) simp
  from tr0(1,2) fresh_bump_alloc obtain l where l: "sharded_insert bump_alloc (ce_lru demo_engine) ?d = Some l"
    "lru_tracks l (removeAll ?d [] @ [?d])" "sl_clock l = sl_clock (ce_lru demo_engine) \<or> sl_clock l = sl_clock (ce_lru demo_engine) + 1"
    by (rule lru_insert)
  have "sl_clock (ce_lru demo_engine) = 0" by (simp add: demo_engine_def with_max_objects_def sharded_new_def)
  then have c: "sl_clock l \<noteq> -1" using l(3) by auto
  let ?oc = "cached_object (Num 100) ?d [1, 2, 3] ttl_info_default None"
  have st: "ce_storage demo_engine = malloc_new ''s0'' 1000" "ce_objects demo_engine = Map.empty" "ce_arena demo_engine = []"
    by (simp_all add: demo_engine_def with_max_objects_def)
  have "\<exists>e1. engine_exec demo_world demo_engine demo_insert = Some (e1, Out_Insert (Inr 0)) \<and> ce_lru e1 = l \<and>
      ce_objects e1 = [?d \<mapsto> [0]] \<and> ce_arena e1 = [?oc]"
    using enf l(1) st
    by (simp add: demo_insert_def demo_world_def engine_insert_def malloc_vtable_def malloc_alloc_obj_def malloc_extend_def
        malloc_new_def try_reserve_def SIZE_OF_STORED_OBJECT_def stored_object_new_def objcore_new_def Let_def)
  then obtain e1 where e1: "engine_exec demo_world demo_engine demo_insert = Some (e1, Out_Insert (Inr 0))" "ce_lru e1 = l"
    "ce_objects e1 = [?d \<mapsto> [0]]" "ce_arena e1 = [?oc]" by blast
  from l(2) c obtain l' where l': "sharded_touch l ?d = Some l'" by (rule lru_touch)
  have "evaluate_object 0 ?oc (Num 101) = CL_Hit (0::nat)"
    by (simp add: evaluate_object_def cached_object_def oc_flags_def objcore_new_def store_body_def oc_contains_def
        OC_BUSY_def OC_HFP_def OC_DYING_def OC_WITHDRAWN_def is_expired_def real_add_def ttl_info_default_def Let_def)
  then show ?thesis
    using e1 l' by (simp add: engine_lookup_def vary_ok_def)
qed

theorem engine_serves_what_was_stored_witness:
  "\<exists>e. engine_run demo_world demo_engine [demo_insert, EO_Lookup (Num 101) (make_digest 1) None]
     = Some (e, [Out_Insert (Inr 0), Out_Lookup (CL_Hit 0)]) \<and> inner_body (ce_arena e ! 0) = [1, 2, 3]"
proof -
  let ?ops = "[demo_insert, EO_Lookup (Num 101) (make_digest 1) None]"
  obtain e where r: "engine_run demo_world demo_engine ?ops = Some (e, [Out_Insert (Inr 0), Out_Lookup (CL_Hit 0)])"
    using demo_run by blast
  from engine_serves_what_was_stored[OF r[unfolded demo_engine_def] demo_alloc, of 1 "Num 101" "make_digest 1" None "CL_Hit 0" 0]
  have "ce_arena e ! 0 = cached_object (Num 100) (make_digest 1) [1, 2, 3] ttl_info_default None"
    by (auto simp: demo_insert_def)
  then have "inner_body (ce_arena e ! 0) = [1, 2, 3]" by (simp add: cached_object_def store_body_def Let_def)
  with r show ?thesis by blast
qed

section \<open>Where the engine forgets too much\<close>

text \<open>
  Expiry is by digest: one expired object takes every variant of its digest with it, also one that
  was inserted later and is still fresh.
\<close>

theorem expiry_drops_fresh_variants:
  assumes "engine_inv e" "sl_clock (ce_lru e) \<noteq> -1" "r \<in> set (fst (expire now (ce_expiry e)))"
  shows "\<exists>e' n. expire_objects sv now e = Some (e', n) \<and> ce_objects e' (oc_digest (ce_arena e ! r)) = None"
proof -
  from assms(1) obtain ds where ix: "indexed e ds" by (auto simp: engine_inv_def)
  obtain expired ex where ex: "expire now (ce_expiry e) = (expired, ex)" by (cases "expire now (ce_expiry e)")
  have "indexed (e\<lparr>ce_expiry := ex\<rparr>) ds" using ix by (simp add: indexed_def variants_ok_def)
  from drop_expired_ok[OF this, of sv expired] assms(2) obtain e' where
    "drop_expired sv expired (e\<lparr>ce_expiry := ex\<rparr>) = Some e'"
    "\<forall>r \<in> set expired. ce_objects e' (oc_digest (ce_arena e ! r)) = None" by auto
  then show ?thesis using ex assms(3) by (auto simp: expire_objects_def Let_def)
qed

text \<open>A lookup whose headers match no variant drops all variants of the digest, fresh or not.\<close>

theorem vary_mismatch_drops_variants:
  assumes "engine_inv e" "sl_clock (ce_lru e) \<noteq> -1" "ce_objects e d = Some vs"
    "list_all (\<lambda>r. \<not> vary_ok hdrs (ce_arena e ! r)) vs"
  shows "\<exists>e'. engine_lookup now d hdrs e = Some (e', CL_Miss) \<and> ce_objects e' d = None"
proof -
  from assms(1) obtain ds where "lru_tracks (ce_lru e) ds" by (auto simp: engine_inv_def indexed_def)
  from this assms(2) obtain l where l: "sharded_remove (ce_lru e) d = Some l" by (rule lru_remove)
  have "scan_variants (ce_arena e) hdrs now vs None = None" using assms(4) by (induction vs) auto
  with l assms(3) show ?thesis by (simp add: engine_lookup_def)
qed

end
