(* ===== verification/Vcl_Value.thy ===== *)
theory Vcl_Value
  imports Rv_Types Rust_Words
begin

text \<open>
  The values of VCL (rv-types, \<open>vcl_value.rs\<close>) and the conversions between them, with the part of
  the standard library that they use: signed 64-bit integers as words read with \<open>sint\<close>, products and
  quotients of floats, the saturating cast from floats to integers and the \<open>Display\<close> of integers,
  floats and addresses.  \<open>Display\<close> of a float prints the exact decimal expansion, at most 17 digits
  behind the point; on numbers with up to 15 significant digits this is the shortest decimal that the
  standard library prints.
\<close>

section \<open>Signed integers\<close>

type_synonym i64 = "64 word"

definition show_int :: "int \<Rightarrow> string" where
  "show_int i = (if i < 0 then CHR ''-'' # show_nat (nat (- i)) else show_nat (nat i))"

abbreviation show_i64 :: "i64 \<Rightarrow> string" where
  "show_i64 i \<equiv> show_int (sint i)"

text \<open>\<open>str::parse\<close> for \<open>i64\<close>: an optional sign, then digits, with the bounds of the type.\<close>

definition parse_int :: "string \<Rightarrow> int option" where
  "parse_int s =
     (let (neg, ds) = (case s of [] \<Rightarrow> (False, [])
            | c # cs \<Rightarrow> if c = CHR ''-'' then (True, cs) else if c = CHR ''+'' then (False, cs) else (False, s));
          v = (if neg then - int (digits_val ds) else int (digits_val ds))
      in if ds \<noteq> [] \<and> list_all is_digit ds \<and> - (2 ^ 63) \<le> v \<and> v < 2 ^ 63 then Some v else None)"

definition parse_i64 :: "string \<Rightarrow> i64 option" where
  "parse_i64 s = map_option of_int (parse_int s)"

section \<open>Floats\<close>

fun f_mul :: "f64 \<Rightarrow> f64 \<Rightarrow> f64" where
  "f_mul NaN b = NaN"
| "f_mul a NaN = NaN"
| "f_mul (Num x) b = f_scale x b"
| "f_mul a (Num y) = f_scale y a"
| "f_mul a b = (if a = b then PInf else NInf)"

text \<open>Quotients by a divisor that is not zero.\<close>

fun f_div :: "f64 \<Rightarrow> f64 \<Rightarrow> f64" where
  "f_div NaN b = NaN"
| "f_div a NaN = NaN"
| "f_div a (Num y) = f_scale (1 / y) a"
| "f_div (Num x) b = Num 0"
| "f_div a b = NaN"

text \<open>The cast \<open>as i64\<close> truncates and saturates; NaN becomes 0.\<close>

definition rat_trunc :: "rat \<Rightarrow> int" where
  "rat_trunc x = (if x < 0 then - \<lfloor>- x\<rfloor> else \<lfloor>x\<rfloor>)"

definition clamp_i64 :: "int \<Rightarrow> int" where
  "clamp_i64 v = max (- (2 ^ 63)) (min (2 ^ 63 - 1) v)"

definition f_to_i64 :: "f64 \<Rightarrow> i64" where
  "f_to_i64 a = (case a of NaN \<Rightarrow> 0 | PInf \<Rightarrow> of_int (2 ^ 63 - 1) | NInf \<Rightarrow> of_int (- (2 ^ 63))
     | Num x \<Rightarrow> of_int (clamp_i64 (rat_trunc x)))"

fun frac_digits :: "nat \<Rightarrow> rat \<Rightarrow> string" where
  "frac_digits 0 f = []"
| "frac_digits (Suc n) f = (if f = 0 then [] else (let d = \<lfloor>10 * f\<rfloor> in digit_char (nat d) # frac_digits n (10 * f - of_int d)))"

definition show_rat :: "rat \<Rightarrow> string" where
  "show_rat q =
     (let a = \<bar>q\<bar>; i = \<lfloor>a\<rfloor>; f = a - of_int i in
      (if q < 0 then ''-'' else []) @ show_nat (nat i) @ (if f = 0 then [] else CHR ''.'' # frac_digits 17 f))"

definition show_f64 :: "f64 \<Rightarrow> string" where
  "show_f64 a = (case a of NaN \<Rightarrow> ''NaN'' | PInf \<Rightarrow> ''inf'' | NInf \<Rightarrow> ''-inf'' | Num x \<Rightarrow> show_rat x)"

section \<open>Addresses\<close>

datatype ip_addr = V4 u8 u8 u8 u8 | V6 "u16 list"

definition hex_digit :: "nat \<Rightarrow> char" where
  "hex_digit d = (if d < 10 then char_of (48 + d) else char_of (87 + d))"

fun show_hex :: "nat \<Rightarrow> string" where
  "show_hex n = (if n < 16 then [hex_digit n] else show_hex (n div 16) @ [hex_digit (n mod 16)])"

declare show_hex.simps [simp del]

definition hex2 :: "u8 \<Rightarrow> string" where
  "hex2 b = [hex_digit (unat b div 16), hex_digit (unat b mod 16)]"

fun join_with :: "string \<Rightarrow> string list \<Rightarrow> string" where
  "join_with sep [] = []"
| "join_with sep [s] = s"
| "join_with sep (s # t # ss) = s @ sep @ join_with sep (t # ss)"

text \<open>\<open>Display\<close> of an IPv6 address writes the first longest run of at least two zero groups as \<open>::\<close>.\<close>

fun zero_run :: "u16 list \<Rightarrow> nat" where
  "zero_run [] = 0"
| "zero_run (g # gs) = (if g = 0 then Suc (zero_run gs) else 0)"

fun longest_run :: "nat \<Rightarrow> u16 list \<Rightarrow> nat \<times> nat \<Rightarrow> nat \<times> nat" where
  "longest_run i [] best = best"
| "longest_run i (g # gs) best =
     longest_run (Suc i) gs (if zero_run (g # gs) > snd best then (i, zero_run (g # gs)) else best)"

definition groups_text :: "u16 list \<Rightarrow> string" where
  "groups_text gs = join_with '':'' (map (show_hex \<circ> unat) gs)"

definition dotted4 :: "u8 \<Rightarrow> u8 \<Rightarrow> u8 \<Rightarrow> u8 \<Rightarrow> string" where
  "dotted4 a b c d = join_with ''.'' (map (show_nat \<circ> unat) [a, b, c, d])"

definition show_ip :: "ip_addr \<Rightarrow> string" where
  "show_ip ip =
     (case ip of
        V4 a b c d \<Rightarrow> dotted4 a b c d
      | V6 gs \<Rightarrow>
          (if take 6 gs = [0, 0, 0, 0, 0, 0xffff] then
             ''::ffff:'' @ dotted4 (ucast (drop_bit 8 (gs ! 6))) (ucast (gs ! 6)) (ucast (drop_bit 8 (gs ! 7))) (ucast (gs ! 7))
           else (case longest_run 0 gs (0, 0) of (start, len) \<Rightarrow>
             if len > 1 then groups_text (take start gs) @ ''::'' @ groups_text (drop (start + len) gs)
             else groups_text gs)))"

section \<open>Values\<close>

datatype vcl_value = VString string | VInt i64 | VReal f64 | VDuration f64 | VBool bool | VIp ip_addr | VBlob "u8 list" | VVoid

definition show_bool :: "bool \<Rightarrow> string" where
  "show_bool b = (if b then ''true'' else ''false'')"

definition to_string_value :: "vcl_value \<Rightarrow> string" where
  "to_string_value v =
     (case v of
        VString s \<Rightarrow> s
      | VInt i \<Rightarrow> show_i64 i
      | VReal r \<Rightarrow> show_f64 r
      | VDuration d \<Rightarrow> show_f64 d @ ''s''
      | VBool b \<Rightarrow> show_bool b
      | VIp ip \<Rightarrow> show_ip ip
      | VBlob data \<Rightarrow> concat (map hex2 data)
      | VVoid \<Rightarrow> [])"

definition to_bool :: "vcl_value \<Rightarrow> bool" where
  "to_bool v =
     (case v of
        VBool b \<Rightarrow> b
      | VInt i \<Rightarrow> i \<noteq> 0
      | VReal r \<Rightarrow> \<not> f_eq r (Num 0)
      | VString s \<Rightarrow> s \<noteq> []
      | VDuration d \<Rightarrow> f_gt d (Num 0)
      | VVoid \<Rightarrow> False
      | VIp _ \<Rightarrow> True
      | VBlob data \<Rightarrow> data \<noteq> [])"

definition to_real :: "vcl_value \<Rightarrow> f64" where
  "to_real v =
     (case v of
        VReal r \<Rightarrow> r
      | VInt i \<Rightarrow> f_of_int (sint i)
      | VDuration d \<Rightarrow> d
      | VBool b \<Rightarrow> (if b then Num 1 else Num 0)
      | VString s \<Rightarrow> (case parse_f64 s of Some r \<Rightarrow> r | None \<Rightarrow> Num 0)
      | _ \<Rightarrow> Num 0)"

definition to_int :: "vcl_value \<Rightarrow> i64" where
  "to_int v =
     (case v of
        VInt i \<Rightarrow> i
      | VReal r \<Rightarrow> f_to_i64 r
      | VDuration d \<Rightarrow> f_to_i64 d
      | VBool b \<Rightarrow> (if b then 1 else 0)
      | VString s \<Rightarrow> (case parse_i64 s of Some i \<Rightarrow> i | None \<Rightarrow> 0)
      | _ \<Rightarrow> 0)"

definition f64_or_zero :: "string \<Rightarrow> f64" where
  "f64_or_zero s = (case parse_f64 s of Some r \<Rightarrow> r | None \<Rightarrow> Num 0)"

definition parse_duration_str :: "string \<Rightarrow> f64" where
  "parse_duration_str s0 =
     (let s = trim s0 in
      case strip_suffix ''ms'' s of Some num \<Rightarrow> f_scale (1 / 1000) (f64_or_zero (trim num)) | None \<Rightarrow>
      case strip_suffix ''min'' s of Some num \<Rightarrow> f_scale 60 (f64_or_zero (trim num)) | None \<Rightarrow>
      case strip_suffix ''s'' s of Some num \<Rightarrow> f64_or_zero (trim num) | None \<Rightarrow>
      case strip_suffix ''m'' s of Some num \<Rightarrow> f_scale 60 (f64_or_zero (trim num)) | None \<Rightarrow>
      case strip_suffix ''h'' s of Some num \<Rightarrow> f_scale 3600 (f64_or_zero (trim num)) | None \<Rightarrow>
      case strip_suffix ''d'' s of Some num \<Rightarrow> f_scale 86400 (f64_or_zero (trim num)) | None \<Rightarrow>
      f64_or_zero s)"

definition to_duration_secs :: "vcl_value \<Rightarrow> f64" where
  "to_duration_secs v =
     (case v of
        VDuration d \<Rightarrow> d
      | VReal r \<Rightarrow> r
      | VInt i \<Rightarrow> f_of_int (sint i)
      | VString s \<Rightarrow> parse_duration_str s
      | _ \<Rightarrow> Num 0)"

text \<open>\<open>Display\<close> of a value.\<close>

definition show_vcl_value :: "vcl_value \<Rightarrow> string" where
  "show_vcl_value v =
     (case v of
        VString s \<Rightarrow> ''String('' @ s @ '')''
      | VInt i \<Rightarrow> ''Int('' @ show_i64 i @ '')''
      | VReal r \<Rightarrow> ''Real('' @ show_f64 r @ '')''
      | VDuration d \<Rightarrow> ''Duration('' @ show_f64 d @ ''s)''
      | VBool b \<Rightarrow> ''Bool('' @ show_bool b @ '')''
      | VIp ip \<Rightarrow> ''Ip('' @ show_ip ip @ '')''
      | VBlob data \<Rightarrow> ''Blob('' @ show_nat (length data) @ '' bytes)''
      | VVoid \<Rightarrow> ''Void'')"

section \<open>Printed values read back\<close>

lemma parse_int_show:
  assumes "- (2 ^ 63) \<le> i" "i < 2 ^ 63"
  shows "parse_int (show_int i) = Some i"
proof (cases "i < 0")
  case True
  then show ?thesis using show_nat_props[of "nat (- i)"] assms by (simp add: parse_int_def show_int_def)
next
  case False
  obtain c cs where s: "show_nat (nat i) = c # cs" using show_nat_props[of "nat i"] by (cases "show_nat (nat i)") auto
  have "is_digit c" using show_nat_props[of "nat i"] s by simp
  then have "c \<noteq> CHR ''-''" "c \<noteq> CHR ''+''" by (auto simp: is_digit_def)
  then show ?thesis using show_nat_props[of "nat i"] assms False s by (auto simp: parse_int_def show_int_def)
qed

lemma parse_i64_show: "parse_i64 (show_i64 i) = Some i"
  using sint_greater_eq[of i] sint_less[of i] by (simp add: parse_i64_def parse_int_show)

lemma to_int_to_string: "to_int (VString (to_string_value (VInt i))) = i"
  by (simp add: to_int_def to_string_value_def parse_i64_show)

lemma show_f64_nat: "show_f64 (Num (of_nat n)) = show_nat n"
  by (simp add: show_f64_def show_rat_def Let_def)

lemma strip_suffix_snoc: "strip_suffix [c] (s @ [d]) = (if c = d then Some s else None)"
  by (auto simp: strip_suffix_def)

text \<open>A whole number of seconds survives being printed and read as a duration.\<close>

lemma duration_reads_back:
  assumes "n < 2 ^ 63"
  shows "to_duration_secs (VString (to_string_value (VDuration (Num (of_nat n))))) = Num (of_nat n)"
proof -
  have p: "plain (show_nat n @ ''s'')" by (rule plain_append[OF plain_show_nat]) (simp add: plain_def graphic_def)
  obtain ds d where sn: "show_nat n = ds @ [d]" using show_nat_props[of n] by (cases "show_nat n" rule: rev_cases) auto
  have "is_digit d" using show_nat_props[of n] sn by simp
  then have d: "d \<noteq> CHR ''m''" by (auto simp: is_digit_def)
  have "strip_suffix ''ms'' (show_nat n @ ''s'') = None" "strip_suffix ''min'' (show_nat n @ ''s'') = None"
    unfolding sn using d by (auto simp: strip_suffix_def suffix_def)
  moreover have "strip_suffix ''s'' (show_nat n @ ''s'') = Some (show_nat n)" by (rule trans[OF strip_suffix_snoc]) simp
  ultimately show ?thesis
    using assms by (simp add: to_duration_secs_def to_string_value_def show_f64_nat parse_duration_str_def plain_trim p
        f64_or_zero_def parse_f64_show_nat)
qed

end
