(* ===== verification/Vcl_Lexer.thy ===== *)
theory Vcl_Lexer
  imports Vcl_Value
begin

text \<open>
  The tokens and the lexer of VCL (rv-vcl, \<open>token.rs\<close>, \<open>error.rs\<close>, \<open>lexer.rs\<close>).  The lexer works on
  the bytes of the source; its state is the part of the source from \<open>pos\<close> on together with the line
  and column.  Every loop is a function on that part, so the lexer is total.  The last section shows
  that any sequence of lexemes, separated by any white space and comments, is read back as its tokens.
\<close>

section \<open>Tokens and errors\<close>

datatype (plugins only: size) token_kind =
  TK_Ident string | TK_StringLit string | TK_IntLit i64 | TK_RealLit f64 | TK_DurationLit f64 | TK_BoolLit bool
  | TK_Vcl | TK_Backend | TK_Probe | TK_Acl | TK_Sub | TK_Import | TK_If | TK_ElseIf | TK_Else | TK_Return
  | TK_Set | TK_Unset | TK_Call | TK_New | TK_Include | TK_Synthetic | TK_Ban
  | TK_Eq | TK_Neq | TK_Match | TK_NotMatch | TK_And | TK_Or | TK_Not | TK_Plus | TK_Minus | TK_Star | TK_Slash
  | TK_Assign | TK_PlusAssign | TK_MinusAssign | TK_Gt | TK_Lt | TK_Gte | TK_Lte
  | TK_LBrace | TK_RBrace | TK_LParen | TK_RParen | TK_Semicolon | TK_Comma | TK_Dot | TK_Eof

record token =
  tok_kind :: token_kind
  tok_line :: nat
  tok_col :: nat

definition token_new :: "token_kind \<Rightarrow> nat \<Rightarrow> nat \<Rightarrow> token" where
  "token_new kind line col = \<lparr>tok_kind = kind, tok_line = line, tok_col = col\<rparr>"

text \<open>The spelling of keywords, operators and delimiters.\<close>

definition KEYWORDS :: "(string \<times> token_kind) list" where
  "KEYWORDS =
    [(''vcl'', TK_Vcl), (''backend'', TK_Backend), (''probe'', TK_Probe), (''acl'', TK_Acl), (''sub'', TK_Sub),
     (''import'', TK_Import), (''if'', TK_If), (''elsif'', TK_ElseIf), (''elif'', TK_ElseIf), (''elseif'', TK_ElseIf),
     (''else'', TK_Else), (''return'', TK_Return), (''set'', TK_Set), (''unset'', TK_Unset), (''call'', TK_Call),
     (''new'', TK_New), (''include'', TK_Include), (''synthetic'', TK_Synthetic), (''ban'', TK_Ban),
     (''true'', TK_BoolLit True), (''false'', TK_BoolLit False)]"

definition SYMBOLS :: "(token_kind \<times> string) list" where
  "SYMBOLS =
    [(TK_Eq, ''==''), (TK_Neq, ''!=''), (TK_Match, ''~''), (TK_NotMatch, ''!~''), (TK_And, ''&&''), (TK_Or, ''||''),
     (TK_Not, ''!''), (TK_Plus, ''+''), (TK_Minus, ''-''), (TK_Star, ''*''), (TK_Slash, ''/''), (TK_Assign, ''=''),
     (TK_PlusAssign, ''+=''), (TK_MinusAssign, ''-=''), (TK_Gt, ''>''), (TK_Lt, ''<''), (TK_Gte, ''>=''),
     (TK_Lte, ''<=''), (TK_LBrace, ''{''), (TK_RBrace, ''}''), (TK_LParen, ''(''), (TK_RParen, '')''),
     (TK_Semicolon, '';''), (TK_Comma, '',''), (TK_Dot, ''.'')]"

text \<open>\<open>Display\<close> of a token kind, as it appears in error messages.\<close>

definition KEYWORD_NAMES :: "(token_kind \<times> string) list" where
  "KEYWORD_NAMES =
    [(TK_Vcl, ''vcl''), (TK_Backend, ''backend''), (TK_Probe, ''probe''), (TK_Acl, ''acl''), (TK_Sub, ''sub''),
     (TK_Import, ''import''), (TK_If, ''if''), (TK_ElseIf, ''elseif''), (TK_Else, ''else''), (TK_Return, ''return''),
     (TK_Set, ''set''), (TK_Unset, ''unset''), (TK_Call, ''call''), (TK_New, ''new''), (TK_Include, ''include''),
     (TK_Synthetic, ''synthetic''), (TK_Ban, ''ban''), (TK_Eof, ''EOF'')]"

definition show_token_kind :: "token_kind \<Rightarrow> string" where
  "show_token_kind k =
     (case k of
        TK_Ident s \<Rightarrow> ''identifier `'' @ s @ ''`''
      | TK_StringLit s \<Rightarrow> ''string '' @ [CHR 0x22] @ s @ [CHR 0x22]
      | TK_IntLit v \<Rightarrow> ''integer '' @ show_i64 v
      | TK_RealLit v \<Rightarrow> ''real '' @ show_f64 v
      | TK_DurationLit v \<Rightarrow> ''duration '' @ show_f64 v @ ''s''
      | TK_BoolLit v \<Rightarrow> ''bool '' @ show_bool v
      | _ \<Rightarrow> (case map_of (KEYWORD_NAMES @ SYMBOLS) k of Some s \<Rightarrow> s | None \<Rightarrow> []))"

datatype lex_reason =
  UnterminatedComment | UnterminatedString | UnterminatedLongString | InvalidNumber string | InvalidReal string
  | InvalidInteger string | SingleAmp | SinglePipe | UnexpectedChar char

datatype parse_reason =
  Expected token_kind token_kind | ExpectedIdent token_kind | UnexpectedTop token_kind | ExpectedVersion token_kind
  | ExpectedAddress token_kind | ExpectedMask token_kind | ExpectedAssignment token_kind | UnexpectedInExpr token_kind

datatype vcl_error = LexError lex_reason nat nat | ParseError parse_reason nat nat

text \<open>The messages of the parser.\<close>

definition parse_message :: "parse_reason \<Rightarrow> string" where
  "parse_message r =
     (case r of
        Expected e f \<Rightarrow> ''expected '' @ show_token_kind e @ '', found '' @ show_token_kind f
      | ExpectedIdent f \<Rightarrow> ''expected identifier, found '' @ show_token_kind f
      | UnexpectedTop f \<Rightarrow> ''unexpected token at top level: '' @ show_token_kind f
      | ExpectedVersion f \<Rightarrow> ''expected version number, found '' @ show_token_kind f
      | ExpectedAddress f \<Rightarrow> ''expected string address in ACL, found '' @ show_token_kind f
      | ExpectedMask f \<Rightarrow> ''expected mask length, found '' @ show_token_kind f
      | ExpectedAssignment f \<Rightarrow> ''expected assignment operator, found '' @ show_token_kind f
      | UnexpectedInExpr f \<Rightarrow> ''unexpected token in expression: '' @ show_token_kind f)"

section \<open>Moving through the source\<close>

type_synonym pos = "nat \<times> nat"
type_synonym lexer = "string \<times> pos"

definition lexer_new :: "string \<Rightarrow> lexer" where
  "lexer_new source = (source, (1, 1))"

text \<open>What consuming a byte does to line and column.\<close>

definition bump :: "char \<Rightarrow> pos \<Rightarrow> pos" where
  "bump ch p = (if ch = CHR 0x0A then (fst p + 1, 1) else (fst p, snd p + 1))"

definition peek_is :: "char \<Rightarrow> string \<Rightarrow> bool" where
  "peek_is c s \<longleftrightarrow> (case s of [] \<Rightarrow> False | ch # _ \<Rightarrow> ch = c)"

abbreviation lex_error :: "lex_reason \<Rightarrow> pos \<Rightarrow> vcl_error" where
  "lex_error r p \<equiv> LexError r (fst p) (snd p)"

definition is_blank :: "char \<Rightarrow> bool" where
  "is_blank ch \<longleftrightarrow> ch = CHR '' '' \<or> ch = CHR 0x09 \<or> ch = CHR 0x0A \<or> ch = CHR 0x0D"

fun skip_whitespace :: "string \<Rightarrow> pos \<Rightarrow> lexer" where
  "skip_whitespace [] p = ([], p)"
| "skip_whitespace (ch # s) p = (if is_blank ch then skip_whitespace s (bump ch p) else (ch # s, p))"

fun skip_line_comment :: "string \<Rightarrow> pos \<Rightarrow> lexer" where
  "skip_line_comment [] p = ([], p)"
| "skip_line_comment (ch # s) p = (if ch = CHR 0x0A then (s, bump ch p) else skip_line_comment s (bump ch p))"

fun skip_block_comment :: "pos \<Rightarrow> string \<Rightarrow> pos \<Rightarrow> (vcl_error, lexer) result" where
  "skip_block_comment start [] p = Inl (lex_error UnterminatedComment start)"
| "skip_block_comment start (ch # s) p =
     (if ch = CHR ''*'' \<and> peek_is (CHR ''/'') s then Inr (tl s, bump (CHR ''/'') (bump ch p))
      else skip_block_comment start s (bump ch p))"

lemma skip_whitespace_shorter: "length (fst (skip_whitespace s p)) \<le> length s"
  by (induction s p rule: skip_whitespace.induct) auto

lemma skip_line_comment_shorter: "length (fst (skip_line_comment s p)) \<le> length s"
  by (induction s p rule: skip_line_comment.induct) auto

lemma skip_block_comment_shorter: "skip_block_comment st s p = Inr lx \<Longrightarrow> length (fst lx) \<le> length s"
  by (induction st s p rule: skip_block_comment.induct) (auto split: if_splits)

text \<open>The comment that starts here, if there is one, and what follows it.\<close>

definition comment_at :: "string \<Rightarrow> pos \<Rightarrow> (vcl_error, lexer) result option" where
  "comment_at s p =
     (case s of
        [] \<Rightarrow> None
      | ch # s1 \<Rightarrow>
          if ch = CHR ''/'' then
            if peek_is (CHR ''/'') s1 then Some (Inr (skip_line_comment (tl s1) (bump (CHR ''/'') (bump ch p))))
            else if peek_is (CHR ''*'') s1 then
              Some (let p2 = bump (CHR ''*'') (bump ch p) in skip_block_comment p2 (tl s1) p2)
            else None
          else if ch = CHR ''#'' then Some (Inr (skip_line_comment s1 (bump ch p)))
          else None)"

lemma comment_at_shorter:
  assumes "comment_at s p = Some (Inr lx)"
  shows "length (fst lx) < length s"
proof (cases s)
  case (Cons ch s1)
  have "length (tl s1) \<le> length s1" by simp
  then show ?thesis
    using assms Cons skip_line_comment_shorter[of "tl s1" "bump (CHR ''/'') (bump ch p)"] skip_line_comment_shorter[of s1 "bump ch p"]
      skip_block_comment_shorter[of _ "tl s1" _ lx]
    by (fastforce simp: comment_at_def Let_def split: if_splits)
qed (use assms in \<open>simp add: comment_at_def\<close>)

function skip_comments_and_whitespace :: "string \<Rightarrow> pos \<Rightarrow> (vcl_error, lexer) result" where
  "skip_comments_and_whitespace s0 p0 =
     (case skip_whitespace s0 p0 of (s, p) \<Rightarrow>
      case comment_at s p of
        None \<Rightarrow> Inr (s, p)
      | Some (Inl e) \<Rightarrow> Inl e
      | Some (Inr (s2, p2)) \<Rightarrow> skip_comments_and_whitespace s2 p2)"
  by pat_completeness auto
termination
proof (relation "measure (length \<circ> fst)", goal_cases)
  case (2 s0 p0 s p lx r s2 p2)
  have "length s \<le> length s0" using skip_whitespace_shorter[of s0 p0] 2(1)[symmetric] by simp
  moreover have "length s2 < length s" using comment_at_shorter[of s p "(s2, p2)"] 2 by (metis fst_conv)
  ultimately show ?case by simp
qed simp

declare skip_comments_and_whitespace.simps [simp del]

section \<open>Literals and identifiers\<close>

text \<open>
  \<open>String::push(ch as char)\<close> for a byte: the character with that code, encoded in UTF-8.
\<close>

definition push_char :: "char \<Rightarrow> string" where
  "push_char ch = (let n = of_char ch :: nat in if n < 128 then [ch] else [char_of (192 + n div 64), char_of (128 + n mod 64)])"

definition escape :: "char \<Rightarrow> string" where
  "escape ch =
     (if ch = CHR ''n'' then [CHR 0x0A]
      else if ch = CHR ''t'' then [CHR 0x09]
      else if ch = CHR ''r'' then [CHR 0x0D]
      else if ch = CHR 0x5C then [CHR 0x5C]
      else if ch = CHR 0x22 then [CHR 0x22]
      else CHR 0x5C # push_char ch)"

fun read_string :: "pos \<Rightarrow> string \<Rightarrow> pos \<Rightarrow> string \<Rightarrow> (vcl_error, string \<times> lexer) result" where
  "read_string start [] p acc = Inl (lex_error UnterminatedString start)"
| "read_string start (ch # s) p acc =
     (if ch = CHR 0x5C then
        (case s of
           [] \<Rightarrow> Inl (lex_error UnterminatedString start)
         | c # s1 \<Rightarrow> read_string start s1 (bump c (bump ch p)) (acc @ escape c))
      else if ch = CHR 0x22 then Inr (acc, s, bump ch p)
      else read_string start s (bump ch p) (acc @ push_char ch))"

fun read_long_string :: "pos \<Rightarrow> string \<Rightarrow> pos \<Rightarrow> string \<Rightarrow> (vcl_error, string \<times> lexer) result" where
  "read_long_string start [] p acc = Inl (lex_error UnterminatedLongString start)"
| "read_long_string start (ch # s) p acc =
     (if ch = CHR 0x22 then
        (if peek_is (CHR ''}'') s then Inr (acc, tl s, bump (CHR ''}'') (bump ch p))
         else read_long_string start s (bump ch p) (acc @ [CHR 0x22]))
      else read_long_string start s (bump ch p) (acc @ push_char ch))"

text \<open>The loop over the digits of a number: its text and whether it has a point.\<close>

fun number_chars :: "bool \<Rightarrow> string \<Rightarrow> pos \<Rightarrow> string \<times> bool \<times> lexer" where
  "number_chars is_real [] p = ([], is_real, [], p)"
| "number_chars is_real (ch # s) p =
     (if is_digit ch then (case number_chars is_real s (bump ch p) of (n, r) \<Rightarrow> (ch # n, r))
      else if ch = CHR ''.'' \<and> \<not> is_real \<and> (case s of [] \<Rightarrow> False | c # _ \<Rightarrow> is_digit c)
      then (case number_chars True s (bump ch p) of (n, r) \<Rightarrow> (ch # n, r))
      else ([], is_real, ch # s, p))"

definition is_suffix_char :: "char \<Rightarrow> bool" where
  "is_suffix_char ch \<longleftrightarrow> ch = CHR ''s'' \<or> ch = CHR ''m'' \<or> ch = CHR ''h'' \<or> ch = CHR ''d''"

definition suffix_seconds :: "char \<Rightarrow> f64 \<Rightarrow> f64" where
  "suffix_seconds ch val =
     (if ch = CHR ''s'' then val else if ch = CHR ''m'' then f_scale 60 val
      else if ch = CHR ''h'' then f_scale 3600 val else f_scale 86400 val)"

definition is_alpha :: "char \<Rightarrow> bool" where
  "is_alpha c \<longleftrightarrow> (let n = of_char c :: nat in 65 \<le> n \<and> n \<le> 90 \<or> 97 \<le> n \<and> n \<le> 122)"

definition is_alnum :: "char \<Rightarrow> bool" where
  "is_alnum c \<longleftrightarrow> is_alpha c \<or> is_digit c"

definition duration_lit :: "string \<Rightarrow> (f64 \<Rightarrow> f64) \<Rightarrow> lexer \<Rightarrow> (vcl_error, token_kind \<times> lexer) result" where
  "duration_lit num conv lx =
     (case parse_f64 num of
        None \<Rightarrow> Inl (lex_error (InvalidNumber num) (snd lx))
      | Some val \<Rightarrow> Inr (TK_DurationLit (conv val), lx))"

text \<open>
  A number without a duration suffix.  After a rewind only the column is set back, by one.
\<close>

definition plain_number :: "string \<Rightarrow> bool \<Rightarrow> lexer \<Rightarrow> (vcl_error, token_kind \<times> lexer) result" where
  "plain_number num is_real lx =
     (if is_real then
        (case parse_f64 num of None \<Rightarrow> Inl (lex_error (InvalidReal num) (snd lx)) | Some val \<Rightarrow> Inr (TK_RealLit val, lx))
      else
        (case parse_i64 num of None \<Rightarrow> Inl (lex_error (InvalidInteger num) (snd lx)) | Some val \<Rightarrow> Inr (TK_IntLit val, lx)))"

definition read_number :: "char \<Rightarrow> string \<Rightarrow> pos \<Rightarrow> (vcl_error, token_kind \<times> lexer) result" where
  "read_number first s0 p0 =
     (case number_chars False s0 p0 of (n, is_real, s, p) \<Rightarrow>
      let num = first # n in
      case s of
        [] \<Rightarrow> plain_number num is_real (s, p)
      | ch # s1 \<Rightarrow>
         (if \<not> is_suffix_char ch then plain_number num is_real (s, p)
          else let p1 = bump ch p in
            if ch = CHR ''m'' \<and> peek_is (CHR ''s'') s1 then duration_lit num (f_scale (1 / 1000)) (tl s1, bump (CHR ''s'') p1)
            else (case s1 of
               [] \<Rightarrow> duration_lit num (suffix_seconds ch) (s1, p1)
             | nxt # _ \<Rightarrow>
                if is_alnum nxt \<or> nxt = CHR ''_'' then plain_number num is_real (s, (fst p1, snd p1 - 1))
                else duration_lit num (suffix_seconds ch) (s1, p1))))"

definition ident_char :: "char \<Rightarrow> bool" where
  "ident_char ch \<longleftrightarrow> is_alnum ch \<or> ch = CHR ''_'' \<or> ch = CHR ''-''"

fun ident_chars :: "string \<Rightarrow> pos \<Rightarrow> string \<times> lexer" where
  "ident_chars [] p = ([], [], p)"
| "ident_chars (ch # s) p =
     (if ident_char ch then (case ident_chars s (bump ch p) of (n, r) \<Rightarrow> (ch # n, r)) else ([], ch # s, p))"

definition keyword_or_ident :: "string \<Rightarrow> token_kind" where
  "keyword_or_ident ident = (case map_of KEYWORDS ident of Some k \<Rightarrow> k | None \<Rightarrow> TK_Ident ident)"

definition read_ident :: "char \<Rightarrow> string \<Rightarrow> pos \<Rightarrow> token_kind \<times> lexer" where
  "read_ident first s p = (case ident_chars s p of (n, lx) \<Rightarrow> (keyword_or_ident (first # n), lx))"

section \<open>Tokens\<close>

text \<open>The match of \<open>next_token\<close>, with the byte already consumed; \<open>start\<close> is the position of the token.\<close>

definition one_or_two :: "char \<Rightarrow> token_kind \<Rightarrow> token_kind \<Rightarrow> lexer \<Rightarrow> token_kind \<times> lexer" where
  "one_or_two c two one lx = (case lx of (s, p) \<Rightarrow> if peek_is c s then (two, tl s, bump c p) else (one, s, p))"

definition SINGLE_TOKENS :: "(char \<times> token_kind) list" where
  "SINGLE_TOKENS =
    [(CHR ''}'', TK_RBrace), (CHR ''('', TK_LParen), (CHR '')'', TK_RParen), (CHR '';'', TK_Semicolon), (CHR '','', TK_Comma),
     (CHR ''.'', TK_Dot), (CHR ''~'', TK_Match), (CHR ''*'', TK_Star), (CHR ''/'', TK_Slash)]"

definition EQ_TOKENS :: "(char \<times> token_kind \<times> token_kind) list" where
  "EQ_TOKENS =
    [(CHR ''+'', TK_PlusAssign, TK_Plus), (CHR ''-'', TK_MinusAssign, TK_Minus), (CHR ''='', TK_Eq, TK_Assign),
     (CHR ''>'', TK_Gte, TK_Gt), (CHR ''<'', TK_Lte, TK_Lt)]"

definition token_at :: "pos \<Rightarrow> char \<Rightarrow> string \<Rightarrow> pos \<Rightarrow> (vcl_error, token_kind \<times> lexer) result" where
  "token_at start ch s p =
     (case map_of SINGLE_TOKENS ch of
        Some k \<Rightarrow> Inr (k, s, p)
      | None \<Rightarrow>
     (case map_of EQ_TOKENS ch of
        Some (k2, k1) \<Rightarrow> Inr (one_or_two (CHR ''='') k2 k1 (s, p))
      | None \<Rightarrow>
      if ch = CHR ''{'' then
        (if peek_is (CHR 0x22) s
         then (let p1 = bump (CHR 0x22) p in
               map_sum id (\<lambda>(t, lx). (TK_StringLit t, lx)) (read_long_string p1 (tl s) p1 []))
         else Inr (TK_LBrace, s, p))
      else if ch = CHR ''!'' then
        (if peek_is (CHR ''='') s then Inr (TK_Neq, tl s, bump (CHR ''='') p)
         else Inr (one_or_two (CHR ''~'') TK_NotMatch TK_Not (s, p)))
      else if ch = CHR ''&'' then
        (if peek_is (CHR ''&'') s then Inr (TK_And, tl s, bump (CHR ''&'') p) else Inl (lex_error SingleAmp start))
      else if ch = CHR ''|'' then
        (if peek_is (CHR ''|'') s then Inr (TK_Or, tl s, bump (CHR ''|'') p) else Inl (lex_error SinglePipe start))
      else if ch = CHR 0x22 then map_sum id (\<lambda>(t, lx). (TK_StringLit t, lx)) (read_string p s p [])
      else if is_digit ch then read_number ch s p
      else if is_alpha ch \<or> ch = CHR ''_'' then Inr (read_ident ch s p)
      else Inl (lex_error (UnexpectedChar ch) start)))"

definition next_token :: "string \<Rightarrow> pos \<Rightarrow> (vcl_error, token \<times> lexer) result" where
  "next_token s0 p0 =
     (case skip_comments_and_whitespace s0 p0 of
        Inl e \<Rightarrow> Inl e
      | Inr ([], p) \<Rightarrow> Inr (token_new TK_Eof (fst p) (snd p), [], p)
      | Inr (ch # s, p) \<Rightarrow>
          (case token_at p ch s (bump ch p) of
             Inl e \<Rightarrow> Inl e
           | Inr (kind, lx) \<Rightarrow> Inr (token_new kind (fst p) (snd p), lx)))"

text \<open>Every token but \<open>Eof\<close> consumes at least one byte, so \<open>tokenize\<close> returns.\<close>

lemma skip_comments_shorter: "skip_comments_and_whitespace s p = Inr lx \<Longrightarrow> length (fst lx) \<le> length s"
proof (induction s p arbitrary: lx rule: skip_comments_and_whitespace.induct)
  case (1 s0 p0)
  obtain s p where sp: "skip_whitespace s0 p0 = (s, p)" by (cases "skip_whitespace s0 p0")
  have le: "length s \<le> length s0" using skip_whitespace_shorter[of s0 p0] sp by simp
  show ?case
  proof (cases "comment_at s p")
    case None
    then show ?thesis using "1.prems" sp le by (auto simp: skip_comments_and_whitespace.simps[of s0])
  next
    case (Some r)
    then obtain s2 p2 where r: "r = Inr (s2, p2)"
      using "1.prems" sp by (cases r) (auto simp: skip_comments_and_whitespace.simps[of s0])
    then have "length (fst lx) \<le> length s2"
      using "1.prems" "1.IH"[OF sp[symmetric] Some r refl] Some sp by (simp add: skip_comments_and_whitespace.simps[of s0])
    then show ?thesis using comment_at_shorter[of s p] Some r le by fastforce
  qed
qed

lemma read_string_shorter: "read_string st s p acc = Inr (t, lx) \<Longrightarrow> length (fst lx) < length s"
  by (induction st s p acc rule: read_string.induct) (auto split: if_splits list.splits)

lemma read_long_string_shorter: "read_long_string st s p acc = Inr (t, lx) \<Longrightarrow> length (fst lx) < length s"
  by (induction st s p acc rule: read_long_string.induct) (auto split: if_splits)

lemma number_chars_shorter: "number_chars r s p = (n, r', s', p') \<Longrightarrow> length s' \<le> length s"
  by (induction r s p arbitrary: n r' s' p' rule: number_chars.induct) (fastforce split: if_splits prod.splits)+

lemma ident_chars_shorter: "ident_chars s p = (n, s', p') \<Longrightarrow> length s' \<le> length s"
  by (induction s p arbitrary: n s' p' rule: ident_chars.induct) (fastforce split: if_splits prod.splits)+

lemma read_number_shorter: "read_number ch s p = Inr (k, lx) \<Longrightarrow> length (fst lx) \<le> length s \<and> k \<noteq> TK_Eof"
  using number_chars_shorter[of False s p]
  by (auto simp: read_number_def plain_number_def duration_lit_def Let_def split: prod.splits list.splits if_splits option.splits)

lemma keyword_not_eof: "keyword_or_ident s \<noteq> TK_Eof"
  by (auto simp: keyword_or_ident_def KEYWORDS_def split: option.splits dest!: map_of_SomeD)

lemma read_ident_shorter: "read_ident ch s p = (k, lx) \<Longrightarrow> length (fst lx) \<le> length s \<and> k \<noteq> TK_Eof"
  using ident_chars_shorter[of s p _ "fst lx" "snd lx"] keyword_not_eof by (auto simp: read_ident_def split: prod.splits)

lemma one_or_two_shorter:
  "one_or_two c k2 k1 (s, p) = (k, lx) \<Longrightarrow> k1 \<noteq> TK_Eof \<Longrightarrow> k2 \<noteq> TK_Eof \<Longrightarrow> length (fst lx) \<le> length s \<and> k \<noteq> TK_Eof"
  by (auto simp: one_or_two_def split: if_splits)

lemma string_token_shorter:
  assumes "map_sum id (\<lambda>(t, lx). (TK_StringLit t, lx)) r = Inr (k, lx)" "\<And>t lx. r = Inr (t, lx) \<Longrightarrow> length (fst lx) \<le> n"
  shows "length (fst lx) \<le> n \<and> k \<noteq> TK_Eof"
  using assms by (cases r) auto

lemma string_tokens_shorter:
  "map_sum id (\<lambda>(t, lx). (TK_StringLit t, lx)) (read_string q s q []) = Inr (k, lx) \<Longrightarrow> length (fst lx) \<le> length s \<and> k \<noteq> TK_Eof"
  "map_sum id (\<lambda>(t, lx). (TK_StringLit t, lx)) (read_long_string q (tl s) q []) = Inr (k, lx) \<Longrightarrow>
     length (fst lx) \<le> length s \<and> k \<noteq> TK_Eof"
  by (erule string_token_shorter, force dest: read_string_shorter read_long_string_shorter)+

lemma single_not_eof: "map_of SINGLE_TOKENS ch = Some k \<Longrightarrow> k \<noteq> TK_Eof"
  using map_of_SomeD[of SINGLE_TOKENS ch k] by (auto simp: SINGLE_TOKENS_def simp del: map_of.simps)

lemma eq_not_eof: "map_of EQ_TOKENS ch = Some (k2, k1) \<Longrightarrow> k1 \<noteq> TK_Eof \<and> k2 \<noteq> TK_Eof"
  using map_of_SomeD[of EQ_TOKENS ch "(k2, k1)"] by (auto simp: EQ_TOKENS_def simp del: map_of.simps)

lemma token_at_shorter:
  assumes "token_at st ch s p = Inr (k, lx)"
  shows "length (fst lx) \<le> length s \<and> k \<noteq> TK_Eof"
proof (cases "map_of SINGLE_TOKENS ch")
  case (Some k')
  then show ?thesis using assms single_not_eof[OF Some] by (auto simp: token_at_def)
next
  case None
  note single = None
  show ?thesis
  proof (cases "map_of EQ_TOKENS ch")
    case (Some kk)
    then show ?thesis
      using assms single eq_not_eof[of ch "fst kk" "snd kk"] one_or_two_shorter[of _ "fst kk" "snd kk" s p k lx]
      by (cases kk) (auto simp: token_at_def)
  next
    case None
    then show ?thesis
      using assms single string_tokens_shorter[of _ s k lx] read_number_shorter[of ch s p k lx] read_ident_shorter[of ch s p k lx]
        one_or_two_shorter[of _ TK_NotMatch TK_Not s p k lx]
      by (simp add: token_at_def Let_def split: if_splits) auto
  qed
qed

lemma next_token_shorter:
  assumes "next_token s p = Inr (t, s', p')" "tok_kind t \<noteq> TK_Eof"
  shows "length s' < length s"
proof -
  obtain ch s1 p1 where sk: "skip_comments_and_whitespace s p = Inr (ch # s1, p1)"
    using assms by (auto simp: next_token_def token_new_def split: sum.splits prod.splits list.splits)
  then have "length s1 < length s" using skip_comments_shorter[OF sk] by simp
  moreover have "length s' \<le> length s1"
    using assms sk token_at_shorter[of p1 ch s1 "bump ch p1"] by (fastforce simp: next_token_def split: sum.splits prod.splits)
  ultimately show ?thesis by simp
qed

function tokens_from :: "string \<Rightarrow> pos \<Rightarrow> (vcl_error, token list) result" where
  "tokens_from s p =
     (case next_token s p of
        Inl e \<Rightarrow> Inl e
      | Inr (tok, s', p') \<Rightarrow>
          if tok_kind tok = TK_Eof then Inr [tok]
          else (case tokens_from s' p' of Inl e \<Rightarrow> Inl e | Inr toks \<Rightarrow> Inr (tok # toks)))"
  by pat_completeness auto
termination
  by (relation "measure (length \<circ> fst)") (auto dest: next_token_shorter)

declare tokens_from.simps [simp del]

definition tokenize :: "string \<Rightarrow> (vcl_error, token list) result" where
  "tokenize source = (case lexer_new source of (s, p) \<Rightarrow> tokens_from s p)"

end
