(* ===== verification/Vcl_Ast.thy ===== *)
theory Vcl_Ast
  imports Vcl_Lexer
begin

text \<open>The syntax trees of VCL (rv-vcl, \<open>ast.rs\<close>).\<close>

datatype set_op = SO_Assign | SO_Add | SO_Subtract

datatype (plugins only: code size) bin_op =
  BO_Eq | BO_Neq | BO_Gt | BO_Lt | BO_Gte | BO_Lte | BO_Match | BO_NotMatch | BO_And | BO_Or | BO_Add | BO_Sub | BO_Mul | BO_Div

datatype unary_op = UO_Not | UO_Negate

datatype expr =
  EStringLit string
  | EIntLit i64
  | ERealLit f64
  | EDurationLit f64
  | EBoolLit bool
  | EIdent string
  | EVariable string
  | EHeaderRef string string
  | EBinaryOp expr bin_op expr
  | EUnaryOp unary_op expr
  | EFunctionCall string "expr list"
  | EMethodCall expr string "expr list"
  | ERegexLit string
  | EConcat "expr list"

datatype statement =
  SSet string set_op expr
  | SUnset string
  | SCall string
  | SReturn expr
  | SIf expr "statement list" "(expr \<times> statement list) list" "statement list option"
  | SSynthetic expr
  | SNew string string "expr list"
  | SExpr expr
  | SBan expr

record import_decl =
  imp_name :: string

record probe_decl =
  pr_name :: "string option"
  pr_properties :: "(string \<times> expr) list"

record backend_decl =
  be_name :: string
  be_properties :: "(string \<times> expr) list"
  be_probe :: "probe_decl option"

record acl_entry =
  ae_negate :: bool
  ae_addr :: string
  ae_mask :: "u8 option"

record acl_decl =
  acl_name :: string
  acl_entries :: "acl_entry list"

record sub_decl =
  sub_name :: string
  sub_body :: "statement list"

record vcl_program =
  vp_version :: "string option"
  vp_imports :: "import_decl list"
  vp_backends :: "backend_decl list"
  vp_probes :: "probe_decl list"
  vp_acls :: "acl_decl list"
  vp_subs :: "sub_decl list"

end
