(* ===== verification/Vcl_Parser.thy ===== *)
theory Vcl_Parser
  imports Vcl_Ast
begin

text \<open>
  The parser of VCL (rv-vcl, \<open>parser.rs\<close>).  The state of the parser is the list of tokens from \<open>pos\<close>
  on; \<open>advance\<close> never moves past the last one.  A parser returns \<open>None\<close> when it runs out of fuel:
  nested expressions and blocks and the iterations of a loop each consume one unit.  One unit for every
  token is enough for any input that ends with \<open>Eof\<close>, as all output of the lexer does, so the parser
  always returns.
\<close>

section \<open>Parsers\<close>

type_synonym 'a parser = "token list \<Rightarrow> (vcl_error, 'a \<times> token list) result option"

definition preturn :: "'a \<Rightarrow> 'a parser" where
  "preturn x ts = Some (Inr (x, ts))"

definition pbind :: "'a parser \<Rightarrow> ('a \<Rightarrow> 'b parser) \<Rightarrow> 'b parser" where
  "pbind p f ts =
     (case p ts of
        None \<Rightarrow> None
      | Some (Inl e) \<Rightarrow> Some (Inl e)
      | Some (Inr (x, ts')) \<Rightarrow> f x ts')"

definition peek :: "token list \<Rightarrow> token_kind" where
  "peek ts = tok_kind (hd ts)"

definition peek_ahead1 :: "token list \<Rightarrow> token_kind" where
  "peek_ahead1 ts = (case ts of _ # t # _ \<Rightarrow> tok_kind t | _ \<Rightarrow> peek ts)"

definition advance :: "token list \<Rightarrow> token list" where
  "advance ts = (case ts of _ # t # r \<Rightarrow> t # r | _ \<Rightarrow> ts)"

definition parse_error :: "(token_kind \<Rightarrow> parse_reason) \<Rightarrow> 'a parser" where
  "parse_error r ts = Some (Inl (ParseError (r (peek ts)) (tok_line (hd ts)) (tok_col (hd ts))))"

definition skip :: "unit parser" where
  "skip ts = Some (Inr ((), advance ts))"

definition expect_kind :: "token_kind \<Rightarrow> unit parser" where
  "expect_kind k ts = (if peek ts = k then skip ts else parse_error (Expected k) ts)"

definition eat_exact :: "token_kind \<Rightarrow> bool parser" where
  "eat_exact k ts = (if peek ts = k then Some (Inr (True, advance ts)) else Some (Inr (False, ts)))"

definition expect_ident :: "string parser" where
  "expect_ident ts = (case peek ts of TK_Ident name \<Rightarrow> Some (Inr (name, advance ts)) | _ \<Rightarrow> parse_error ExpectedIdent ts)"

abbreviation expect_semicolon :: "unit parser" where
  "expect_semicolon \<equiv> expect_kind TK_Semicolon"

section \<open>Names\<close>

text \<open>The loop over \<open>.part\<close>, shared by both kinds of dotted names.\<close>

fun dotted_parts :: "nat \<Rightarrow> string list parser" where
  "dotted_parts 0 ts = None"
| "dotted_parts (Suc n) ts =
     (if peek ts = TK_Dot
      then pbind skip (\<lambda>_. pbind expect_ident (\<lambda>part. pbind (dotted_parts n) (\<lambda>parts. preturn (part # parts)))) ts
      else preturn [] ts)"

definition dotted_expr :: "string list \<Rightarrow> expr" where
  "dotted_expr parts =
     (if length parts \<ge> 3 \<and> parts ! 1 = ''http'' then EHeaderRef (parts ! 0) (join_with ''.'' (drop 2 parts))
      else EVariable (join_with ''.'' parts))"

definition parse_dotted_expr :: "nat \<Rightarrow> string \<Rightarrow> expr parser" where
  "parse_dotted_expr n first = pbind (dotted_parts n) (\<lambda>parts. preturn (dotted_expr (first # parts)))"

definition parse_dotted_name :: "nat \<Rightarrow> string parser" where
  "parse_dotted_name n =
     pbind expect_ident (\<lambda>first. pbind (dotted_parts n) (\<lambda>parts. preturn (join_with ''.'' (first # parts))))"

section \<open>Expressions\<close>

text \<open>
  Each level takes the parser of nested expressions (\<open>self.parse_expr\<close>) as an argument, which
  \<open>parse_expr\<close> below ties.
\<close>

fun comma_list :: "nat \<Rightarrow> expr parser \<Rightarrow> expr list parser" where
  "comma_list 0 p ts = None"
| "comma_list (Suc n) p ts =
     pbind (eat_exact TK_Comma) (\<lambda>more. if more then pbind p (\<lambda>e. pbind (comma_list n p) (\<lambda>es. preturn (e # es))) else preturn []) ts"

definition parse_arg_list :: "nat \<Rightarrow> expr parser \<Rightarrow> expr list parser" where
  "parse_arg_list n p ts =
     (if peek ts = TK_RParen then preturn [] ts
      else pbind p (\<lambda>e. pbind (comma_list n p) (\<lambda>es. preturn (e # es))) ts)"

definition parse_primary :: "nat \<Rightarrow> expr parser \<Rightarrow> expr parser" where
  "parse_primary n p ts =
     (case peek ts of
        TK_StringLit s \<Rightarrow> pbind skip (\<lambda>_. preturn (EStringLit s)) ts
      | TK_IntLit v \<Rightarrow> pbind skip (\<lambda>_. preturn (EIntLit v)) ts
      | TK_RealLit v \<Rightarrow> pbind skip (\<lambda>_. preturn (ERealLit v)) ts
      | TK_DurationLit v \<Rightarrow> pbind skip (\<lambda>_. preturn (EDurationLit v)) ts
      | TK_BoolLit v \<Rightarrow> pbind skip (\<lambda>_. preturn (EBoolLit v)) ts
      | TK_LParen \<Rightarrow> pbind skip (\<lambda>_. pbind p (\<lambda>e. pbind (expect_kind TK_RParen) (\<lambda>_. preturn e))) ts
      | TK_Ident _ \<Rightarrow>
          pbind expect_ident (\<lambda>name ts. if peek ts = TK_Dot then parse_dotted_expr n name ts else preturn (EIdent name) ts) ts
      | _ \<Rightarrow> parse_error UnexpectedInExpr ts)"

text \<open>\<open>name.rfind('.')\<close>: the parts before and after the last point.\<close>

definition rsplit_dot :: "string \<Rightarrow> (string \<times> string) option" where
  "rsplit_dot name =
     (let parts = split_char (CHR ''.'') name in
      if length parts \<le> 1 then None else Some (join_with ''.'' (butlast parts), last parts))"

definition call_args :: "nat \<Rightarrow> expr parser \<Rightarrow> expr list parser" where
  "call_args n p = pbind skip (\<lambda>_. pbind (parse_arg_list n p) (\<lambda>args. pbind (expect_kind TK_RParen) (\<lambda>_. preturn args)))"

fun postfix_loop :: "nat \<Rightarrow> expr parser \<Rightarrow> expr \<Rightarrow> expr parser" where
  "postfix_loop 0 p e ts = None"
| "postfix_loop (Suc n) p e ts =
     (if peek ts = TK_LParen then
        (case e of
           EIdent name \<Rightarrow> pbind (call_args n p) (\<lambda>args. postfix_loop n p (EFunctionCall name args)) ts
         | EVariable name \<Rightarrow>
             pbind (call_args n p) (\<lambda>args. postfix_loop n p
               (case rsplit_dot name of
                  Some (object_part, method_part) \<Rightarrow> EMethodCall (EVariable object_part) method_part args
                | None \<Rightarrow> EFunctionCall name args)) ts
         | _ \<Rightarrow> preturn e ts)
      else preturn e ts)"

definition parse_postfix :: "nat \<Rightarrow> expr parser \<Rightarrow> expr parser" where
  "parse_postfix n p = pbind (parse_primary n p) (postfix_loop n p)"

fun parse_unary :: "nat \<Rightarrow> nat \<Rightarrow> expr parser \<Rightarrow> expr parser" where
  "parse_unary 0 n p ts = None"
| "parse_unary (Suc k) n p ts =
     (if peek ts = TK_Not then pbind skip (\<lambda>_. pbind (parse_unary k n p) (\<lambda>e. preturn (EUnaryOp UO_Not e))) ts
      else if peek ts = TK_Minus then pbind skip (\<lambda>_. pbind (parse_unary k n p) (\<lambda>e. preturn (EUnaryOp UO_Negate e))) ts
      else parse_postfix n p ts)"

text \<open>The operators of the binary levels and the loop of a level.\<close>

definition mul_ops :: "token_kind \<Rightarrow> bin_op option" where
  "mul_ops k = (case k of TK_Star \<Rightarrow> Some BO_Mul | TK_Slash \<Rightarrow> Some BO_Div | _ \<Rightarrow> None)"

definition add_ops :: "token_kind \<Rightarrow> bin_op option" where
  "add_ops k = (case k of TK_Plus \<Rightarrow> Some BO_Add | TK_Minus \<Rightarrow> Some BO_Sub | _ \<Rightarrow> None)"

definition cmp_ops :: "token_kind \<Rightarrow> bin_op option" where
  "cmp_ops k = (case k of TK_Eq \<Rightarrow> Some BO_Eq | TK_Neq \<Rightarrow> Some BO_Neq | TK_Gt \<Rightarrow> Some BO_Gt | TK_Lt \<Rightarrow> Some BO_Lt
     | TK_Gte \<Rightarrow> Some BO_Gte | TK_Lte \<Rightarrow> Some BO_Lte | TK_Match \<Rightarrow> Some BO_Match | TK_NotMatch \<Rightarrow> Some BO_NotMatch | _ \<Rightarrow> None)"

definition and_ops :: "token_kind \<Rightarrow> bin_op option" where
  "and_ops k = (case k of TK_And \<Rightarrow> Some BO_And | _ \<Rightarrow> None)"

definition or_ops :: "token_kind \<Rightarrow> bin_op option" where
  "or_ops k = (case k of TK_Or \<Rightarrow> Some BO_Or | _ \<Rightarrow> None)"

fun binary_loop :: "nat \<Rightarrow> (token_kind \<Rightarrow> bin_op option) \<Rightarrow> expr parser \<Rightarrow> expr \<Rightarrow> expr parser" where
  "binary_loop 0 ops nxt left ts = None"
| "binary_loop (Suc n) ops nxt left ts =
     (case ops (peek ts) of
        None \<Rightarrow> preturn left ts
      | Some bop \<Rightarrow> pbind skip (\<lambda>_. pbind nxt (\<lambda>right. binary_loop n ops nxt (EBinaryOp left bop right))) ts)"

definition parse_multiplicative :: "nat \<Rightarrow> expr parser \<Rightarrow> expr parser" where
  "parse_multiplicative n p = pbind (parse_unary n n p) (binary_loop n mul_ops (parse_unary n n p))"

definition parse_additive :: "nat \<Rightarrow> expr parser \<Rightarrow> expr parser" where
  "parse_additive n p = pbind (parse_multiplicative n p) (binary_loop n add_ops (parse_multiplicative n p))"

definition parse_comparison :: "nat \<Rightarrow> expr parser \<Rightarrow> expr parser" where
  "parse_comparison n p = pbind (parse_additive n p) (binary_loop n cmp_ops (parse_additive n p))"

definition parse_and :: "nat \<Rightarrow> expr parser \<Rightarrow> expr parser" where
  "parse_and n p = pbind (parse_comparison n p) (binary_loop n and_ops (parse_comparison n p))"

definition parse_or :: "nat \<Rightarrow> expr parser \<Rightarrow> expr parser" where
  "parse_or n p = pbind (parse_and n p) (binary_loop n or_ops (parse_and n p))"

fun parse_expr :: "nat \<Rightarrow> expr parser" where
  "parse_expr 0 ts = None"
| "parse_expr (Suc n) ts = parse_or (Suc n) (parse_expr n) ts"

section \<open>Statements\<close>

definition parse_set_op :: "set_op parser" where
  "parse_set_op ts =
     (case peek ts of
        TK_Assign \<Rightarrow> pbind skip (\<lambda>_. preturn SO_Assign) ts
      | TK_PlusAssign \<Rightarrow> pbind skip (\<lambda>_. preturn SO_Add) ts
      | TK_MinusAssign \<Rightarrow> pbind skip (\<lambda>_. preturn SO_Subtract) ts
      | _ \<Rightarrow> parse_error ExpectedAssignment ts)"

definition parse_set :: "nat \<Rightarrow> statement parser" where
  "parse_set n =
     pbind (expect_kind TK_Set) (\<lambda>_. pbind (parse_dotted_name n) (\<lambda>target. pbind parse_set_op (\<lambda>operator.
     pbind (parse_expr n) (\<lambda>value. pbind expect_semicolon (\<lambda>_. preturn (SSet target operator value))))))"

definition parse_unset :: "nat \<Rightarrow> statement parser" where
  "parse_unset n =
     pbind (expect_kind TK_Unset) (\<lambda>_. pbind (parse_dotted_name n) (\<lambda>target.
     pbind expect_semicolon (\<lambda>_. preturn (SUnset target))))"

definition parse_call :: "statement parser" where
  "parse_call =
     pbind (expect_kind TK_Call) (\<lambda>_. pbind expect_ident (\<lambda>subroutine. pbind expect_semicolon (\<lambda>_. preturn (SCall subroutine))))"

definition parse_parens :: "nat \<Rightarrow> expr parser" where
  "parse_parens n =
     pbind (expect_kind TK_LParen) (\<lambda>_. pbind (parse_expr n) (\<lambda>e. pbind (expect_kind TK_RParen) (\<lambda>_. preturn e)))"

definition parse_return :: "nat \<Rightarrow> statement parser" where
  "parse_return n =
     pbind (expect_kind TK_Return) (\<lambda>_. pbind (parse_parens n) (\<lambda>action. pbind expect_semicolon (\<lambda>_. preturn (SReturn action))))"

definition parse_synthetic :: "nat \<Rightarrow> statement parser" where
  "parse_synthetic n =
     pbind (expect_kind TK_Synthetic) (\<lambda>_. pbind (parse_parens n) (\<lambda>e. pbind expect_semicolon (\<lambda>_. preturn (SSynthetic e))))"

definition parse_ban :: "nat \<Rightarrow> statement parser" where
  "parse_ban n =
     pbind (expect_kind TK_Ban) (\<lambda>_. pbind (parse_parens n) (\<lambda>e. pbind expect_semicolon (\<lambda>_. preturn (SBan e))))"

definition parse_new :: "nat \<Rightarrow> statement parser" where
  "parse_new n =
     pbind (expect_kind TK_New) (\<lambda>_. pbind expect_ident (\<lambda>name. pbind (expect_kind TK_Assign) (\<lambda>_. pbind expect_ident (\<lambda>type_name.
     pbind (expect_kind TK_LParen) (\<lambda>_. pbind (parse_arg_list n (parse_expr n)) (\<lambda>args. pbind (expect_kind TK_RParen) (\<lambda>_.
     pbind expect_semicolon (\<lambda>_. preturn (SNew name type_name args)))))))))"

definition parse_expr_statement :: "nat \<Rightarrow> statement parser" where
  "parse_expr_statement n = pbind (parse_expr n) (\<lambda>e. pbind expect_semicolon (\<lambda>_. preturn (SExpr e)))"

text \<open>A block in braces; \<open>block\<close> parses the statements up to the brace.\<close>

definition braced :: "'a parser \<Rightarrow> 'a parser" where
  "braced block = pbind (expect_kind TK_LBrace) (\<lambda>_. pbind block (\<lambda>b. pbind (expect_kind TK_RBrace) (\<lambda>_. preturn b)))"

definition else_if_branch :: "nat \<Rightarrow> statement list parser \<Rightarrow> (expr \<times> statement list) parser" where
  "else_if_branch n block = pbind (parse_parens n) (\<lambda>cond. pbind (braced block) (\<lambda>b. preturn (cond, b)))"

fun else_branches :: "nat \<Rightarrow> nat \<Rightarrow> statement list parser \<Rightarrow> ((expr \<times> statement list) list \<times> statement list option) parser" where
  "else_branches 0 n block ts = None"
| "else_branches (Suc k) n block ts =
     (if peek ts = TK_ElseIf then
        pbind skip (\<lambda>_. pbind (else_if_branch n block) (\<lambda>br. pbind (else_branches k n block) (\<lambda>(brs, els). preturn (br # brs, els)))) ts
      else if peek ts = TK_Else then
        if peek_ahead1 ts = TK_If then
          pbind skip (\<lambda>_. pbind skip (\<lambda>_. pbind (else_if_branch n block) (\<lambda>br.
            pbind (else_branches k n block) (\<lambda>(brs, els). preturn (br # brs, els))))) ts
        else pbind skip (\<lambda>_. pbind (braced block) (\<lambda>b. preturn ([], Some b))) ts
      else preturn ([], None) ts)"

definition parse_if :: "nat \<Rightarrow> statement list parser \<Rightarrow> statement parser" where
  "parse_if n block =
     pbind (expect_kind TK_If) (\<lambda>_. pbind (parse_parens n) (\<lambda>condition. pbind (braced block) (\<lambda>body.
     pbind (else_branches n n block) (\<lambda>(else_ifs, else_body). preturn (SIf condition body else_ifs else_body)))))"

definition parse_statement :: "nat \<Rightarrow> statement list parser \<Rightarrow> statement parser" where
  "parse_statement n block ts =
     (case peek ts of
        TK_Set \<Rightarrow> parse_set n ts
      | TK_Unset \<Rightarrow> parse_unset n ts
      | TK_Call \<Rightarrow> parse_call ts
      | TK_Return \<Rightarrow> parse_return n ts
      | TK_If \<Rightarrow> parse_if n block ts
      | TK_Synthetic \<Rightarrow> parse_synthetic n ts
      | TK_New \<Rightarrow> parse_new n ts
      | TK_Ban \<Rightarrow> parse_ban n ts
      | _ \<Rightarrow> parse_expr_statement n ts)"

fun statements :: "nat \<Rightarrow> statement parser \<Rightarrow> statement list parser" where
  "statements 0 stmt ts = None"
| "statements (Suc k) stmt ts =
     (if peek ts \<noteq> TK_RBrace \<and> peek ts \<noteq> TK_Eof
      then pbind stmt (\<lambda>s. pbind (statements k stmt) (\<lambda>ss. preturn (s # ss))) ts
      else preturn [] ts)"

fun parse_statement_block :: "nat \<Rightarrow> statement list parser" where
  "parse_statement_block 0 ts = None"
| "parse_statement_block (Suc n) ts = statements (Suc n) (parse_statement (Suc n) (parse_statement_block n)) ts"

section \<open>Declarations\<close>

definition parse_vcl_version :: "string parser" where
  "parse_vcl_version =
     pbind (expect_kind TK_Vcl) (\<lambda>_. pbind
       (\<lambda>ts. case peek ts of
               TK_RealLit v \<Rightarrow> pbind skip (\<lambda>_. preturn (show_f64 v)) ts
             | TK_IntLit v \<Rightarrow> pbind skip (\<lambda>_. preturn (show_i64 v @ ''.0'')) ts
             | _ \<Rightarrow> parse_error ExpectedVersion ts)
       (\<lambda>version. pbind expect_semicolon (\<lambda>_. preturn version)))"

definition parse_import :: "import_decl parser" where
  "parse_import =
     pbind (expect_kind TK_Import) (\<lambda>_. pbind expect_ident (\<lambda>name. pbind expect_semicolon (\<lambda>_. preturn \<lparr>imp_name = name\<rparr>)))"

text \<open>A property \<open>name = value;\<close>, with the point already consumed.\<close>

definition parse_property :: "nat \<Rightarrow> (string \<times> expr) parser" where
  "parse_property n =
     pbind expect_ident (\<lambda>prop_name. pbind (expect_kind TK_Assign) (\<lambda>_. pbind (parse_expr n) (\<lambda>value.
     pbind expect_semicolon (\<lambda>_. preturn (prop_name, value)))))"

fun probe_properties :: "nat \<Rightarrow> nat \<Rightarrow> (string \<times> expr) list parser" where
  "probe_properties 0 n ts = None"
| "probe_properties (Suc k) n ts =
     (if peek ts \<noteq> TK_RBrace
      then pbind (expect_kind TK_Dot) (\<lambda>_. pbind (parse_property n) (\<lambda>pr. pbind (probe_properties k n) (\<lambda>prs. preturn (pr # prs)))) ts
      else preturn [] ts)"

definition parse_probe_body :: "nat \<Rightarrow> string option \<Rightarrow> probe_decl parser" where
  "parse_probe_body n name =
     pbind (braced (probe_properties n n)) (\<lambda>props. preturn \<lparr>pr_name = name, pr_properties = props\<rparr>)"

definition parse_probe_decl :: "nat \<Rightarrow> probe_decl parser" where
  "parse_probe_decl n = pbind (expect_kind TK_Probe) (\<lambda>_. pbind expect_ident (\<lambda>name. parse_probe_body n (Some name)))"

text \<open>The value of \<open>.probe\<close>, behind the assignment sign: a body or the name of a probe.\<close>

definition parse_probe_value :: "nat \<Rightarrow> probe_decl parser" where
  "parse_probe_value n ts =
     (if peek ts = TK_LBrace then parse_probe_body n None ts
      else pbind expect_ident (\<lambda>probe_name. pbind expect_semicolon (\<lambda>_. preturn \<lparr>pr_name = Some probe_name, pr_properties = []\<rparr>)) ts)"

fun backend_items :: "nat \<Rightarrow> nat \<Rightarrow> (string \<times> expr) list \<Rightarrow> probe_decl option \<Rightarrow> ((string \<times> expr) list \<times> probe_decl option) parser" where
  "backend_items 0 n props probe ts = None"
| "backend_items (Suc k) n props probe ts =
     (if peek ts \<noteq> TK_RBrace
      then pbind (expect_kind TK_Dot) (\<lambda>_ ts.
             if peek ts = TK_Probe
             then pbind skip (\<lambda>_. pbind (expect_kind TK_Assign) (\<lambda>_. pbind (parse_probe_value n) (\<lambda>pr. backend_items k n props (Some pr)))) ts
             else pbind (parse_property n) (\<lambda>pr. backend_items k n (props @ [pr]) probe) ts) ts
      else preturn (props, probe) ts)"

definition parse_backend :: "nat \<Rightarrow> backend_decl parser" where
  "parse_backend n =
     pbind (expect_kind TK_Backend) (\<lambda>_. pbind expect_ident (\<lambda>name. pbind (braced (backend_items n n [] None)) (\<lambda>(props, probe).
       preturn \<lparr>be_name = name, be_properties = props, be_probe = probe\<rparr>)))"

definition parse_acl_addr :: "string parser" where
  "parse_acl_addr ts = (case peek ts of TK_StringLit s \<Rightarrow> pbind skip (\<lambda>_. preturn s) ts | _ \<Rightarrow> parse_error ExpectedAddress ts)"

text \<open>The mask length is cast \<open>as u8\<close>.\<close>

definition parse_acl_mask :: "u8 option parser" where
  "parse_acl_mask ts =
     (if peek ts = TK_Slash
      then pbind skip (\<lambda>_ ts. case peek ts of
             TK_IntLit v \<Rightarrow> pbind skip (\<lambda>_. preturn (Some (ucast v))) ts
           | _ \<Rightarrow> parse_error ExpectedMask ts) ts
      else preturn None ts)"

definition parse_acl_entry :: "acl_entry parser" where
  "parse_acl_entry =
     pbind (eat_exact TK_Not) (\<lambda>neg. pbind parse_acl_addr (\<lambda>addr. pbind parse_acl_mask (\<lambda>mask.
     pbind expect_semicolon (\<lambda>_. preturn \<lparr>ae_negate = neg, ae_addr = addr, ae_mask = mask\<rparr>))))"

fun acl_entries_loop :: "nat \<Rightarrow> acl_entry list parser" where
  "acl_entries_loop 0 ts = None"
| "acl_entries_loop (Suc k) ts =
     (if peek ts \<noteq> TK_RBrace
      then pbind parse_acl_entry (\<lambda>en. pbind (acl_entries_loop k) (\<lambda>ens. preturn (en # ens))) ts
      else preturn [] ts)"

definition parse_acl :: "nat \<Rightarrow> acl_decl parser" where
  "parse_acl n =
     pbind (expect_kind TK_Acl) (\<lambda>_. pbind expect_ident (\<lambda>name. pbind (braced (acl_entries_loop n)) (\<lambda>ens.
       preturn \<lparr>acl_name = name, acl_entries = ens\<rparr>)))"

definition parse_sub :: "nat \<Rightarrow> sub_decl parser" where
  "parse_sub n =
     pbind (expect_kind TK_Sub) (\<lambda>_. pbind expect_ident (\<lambda>name. pbind (braced (parse_statement_block n)) (\<lambda>body.
       preturn \<lparr>sub_name = name, sub_body = body\<rparr>)))"

section \<open>Programs\<close>

fun parse_decls :: "nat \<Rightarrow> nat \<Rightarrow> vcl_program \<Rightarrow> vcl_program parser" where
  "parse_decls 0 n prog ts = None"
| "parse_decls (Suc k) n prog ts =
     (case peek ts of
        TK_Eof \<Rightarrow> preturn prog ts
      | TK_Import \<Rightarrow> pbind parse_import (\<lambda>d. parse_decls k n (prog\<lparr>vp_imports := vp_imports prog @ [d]\<rparr>)) ts
      | TK_Backend \<Rightarrow> pbind (parse_backend n) (\<lambda>d. parse_decls k n (prog\<lparr>vp_backends := vp_backends prog @ [d]\<rparr>)) ts
      | TK_Probe \<Rightarrow> pbind (parse_probe_decl n) (\<lambda>d. parse_decls k n (prog\<lparr>vp_probes := vp_probes prog @ [d]\<rparr>)) ts
      | TK_Acl \<Rightarrow> pbind (parse_acl n) (\<lambda>d. parse_decls k n (prog\<lparr>vp_acls := vp_acls prog @ [d]\<rparr>)) ts
      | TK_Sub \<Rightarrow> pbind (parse_sub n) (\<lambda>d. parse_decls k n (prog\<lparr>vp_subs := vp_subs prog @ [d]\<rparr>)) ts
      | _ \<Rightarrow> parse_error UnexpectedTop ts)"

definition empty_program :: vcl_program where
  "empty_program = \<lparr>vp_version = None, vp_imports = [], vp_backends = [], vp_probes = [], vp_acls = [], vp_subs = []\<rparr>"

definition parse_program :: "nat \<Rightarrow> vcl_program parser" where
  "parse_program n ts =
     (if peek ts = TK_Vcl
      then pbind parse_vcl_version (\<lambda>v. parse_decls n n (empty_program\<lparr>vp_version := Some v\<rparr>)) ts
      else parse_decls n n empty_program ts)"

text \<open>\<open>Parser::parse\<close>; an empty list of tokens makes the parser panic.\<close>

definition parse_tokens :: "token list \<Rightarrow> (vcl_error, vcl_program) result option" where
  "parse_tokens tokens =
     (if tokens = [] then None
      else map_option (map_sum id fst) (parse_program (length tokens) tokens))"

text \<open>Source text to program.\<close>

definition parse_vcl :: "string \<Rightarrow> (vcl_error, vcl_program) result option" where
  "parse_vcl source = (case tokenize source of Inl e \<Rightarrow> Some (Inl e) | Inr tokens \<Rightarrow> parse_tokens tokens)"

end
