(* ===== verification/Vcl_Parser_Total.thy ===== *)
theory Vcl_Parser_Total
  imports Vcl_Parser
begin

text \<open>
  The parser always returns.  \<open>returns_on Q N c p\<close> says that on every list of at most \<open>N\<close> tokens that
  ends with \<open>Eof\<close> and whose first token satisfies \<open>Q\<close>, the parser \<open>p\<close> returns a result or an error,
  and that a result leaves a list that again ends with \<open>Eof\<close> and is shorter by at least \<open>c\<close> tokens.
  The rules compose along the combinators of the parser.
\<close>

definition wf_tokens :: "token list \<Rightarrow> bool" where
  "wf_tokens ts \<longleftrightarrow> ts \<noteq> [] \<and> tok_kind (last ts) = TK_Eof"

definition returns_on :: "(token_kind \<Rightarrow> bool) \<Rightarrow> nat \<Rightarrow> nat \<Rightarrow> 'a parser \<Rightarrow> bool" where
  "returns_on Q N c p \<longleftrightarrow>
     (\<forall>ts. wf_tokens ts \<and> length ts \<le> N \<and> Q (peek ts) \<longrightarrow>
        (\<exists>r. p ts = Some r \<and> (\<forall>x ts'. r = Inr (x, ts') \<longrightarrow> wf_tokens ts' \<and> length ts' + c \<le> length ts)))"

abbreviation returns :: "nat \<Rightarrow> nat \<Rightarrow> 'a parser \<Rightarrow> bool" where
  "returns \<equiv> returns_on (\<lambda>_. True)"

named_theorems returns_rules

lemma returns_onD:
  assumes "returns_on Q N c p" "wf_tokens ts" "length ts \<le> N" "Q (peek ts)"
  obtains e where "p ts = Some (Inl e)"
  | x ts' where "p ts = Some (Inr (x, ts'))" "wf_tokens ts'" "length ts' + c \<le> length ts"
proof -
  obtain r where r: "p ts = Some r" "\<forall>x ts'. r = Inr (x, ts') \<longrightarrow> wf_tokens ts' \<and> length ts' + c \<le> length ts"
    using assms unfolding returns_on_def by blast
  show thesis
  proof (cases r)
    case (Inl e)
    then show ?thesis using r that(1) by blast
  next
    case (Inr y)
    then show ?thesis using r that(2) by (cases y) blast
  qed
qed

lemma returns_mono:
  assumes "returns_on Q N c p" "N' \<le> N" "c' \<le> c" "\<And>k. Q' k \<Longrightarrow> Q k"
  shows "returns_on Q' N' c' p"
  unfolding returns_on_def
proof (intro allI impI)
  fix ts assume "wf_tokens ts \<and> length ts \<le> N' \<and> Q' (peek ts)"
  then have "wf_tokens ts" "length ts \<le> N" "Q (peek ts)" using assms by auto
  from returns_onD[OF assms(1) this]
  show "\<exists>r. p ts = Some r \<and> (\<forall>x ts'. r = Inr (x, ts') \<longrightarrow> wf_tokens ts' \<and> length ts' + c' \<le> length ts)"
    by cases (use assms(3) in force)+
qed

lemma returns_less: "returns n c p \<Longrightarrow> N \<le> n \<Longrightarrow> returns_on Q N c p"
  by (rule returns_mono) auto

lemma returns_by: "returns_on Q N c' p \<Longrightarrow> c \<le> c' \<Longrightarrow> returns_on Q N c p"
  by (rule returns_mono[where Q = Q]) auto

lemma returns_zero: "returns 0 c p"
  by (simp add: returns_on_def wf_tokens_def)

lemma returns_bind [returns_rules]:
  assumes "returns_on Q N c1 p" "\<And>x. returns (N - c1) c2 (f x)"
  shows "returns_on Q N (c1 + c2) (pbind p f)"
  unfolding returns_on_def
proof (intro allI impI)
  fix ts assume ts: "wf_tokens ts \<and> length ts \<le> N \<and> Q (peek ts)"
  from returns_onD[OF assms(1)] ts
  consider e where "p ts = Some (Inl e)" | x ts' where "p ts = Some (Inr (x, ts'))" "wf_tokens ts'" "length ts' + c1 \<le> length ts"
    by metis
  then show "\<exists>r. pbind p f ts = Some r \<and> (\<forall>x ts'. r = Inr (x, ts') \<longrightarrow> wf_tokens ts' \<and> length ts' + (c1 + c2) \<le> length ts)"
  proof cases
    case (2 x ts')
    have "length ts' \<le> N - c1" using 2(3) ts by linarith
    from returns_onD[OF assms(2)[of x] 2(2) this TrueI] show ?thesis
      by cases (use 2 in \<open>auto simp: pbind_def\<close>)
  qed (simp add: pbind_def)
qed

lemma returns_return [returns_rules]: "returns_on Q N 0 (preturn x)"
  by (simp add: returns_on_def preturn_def)

lemma advance_wf:
  assumes "wf_tokens ts" "peek ts \<noteq> TK_Eof"
  shows "wf_tokens (advance ts) \<and> length (advance ts) + 1 = length ts"
  using assms by (auto simp: wf_tokens_def peek_def advance_def split: list.splits)

lemma returns_skip [returns_rules]: "(\<And>k. Q k \<Longrightarrow> k \<noteq> TK_Eof) \<Longrightarrow> returns_on Q N 1 skip"
  using advance_wf by (fastforce simp: returns_on_def skip_def)

lemma returns_expect [returns_rules]: "k \<noteq> TK_Eof \<Longrightarrow> returns_on Q N 1 (expect_kind k)"
  using advance_wf by (fastforce simp: returns_on_def expect_kind_def skip_def parse_error_def)

lemma returns_ident [returns_rules]: "returns_on Q N 1 expect_ident"
  unfolding returns_on_def
proof (intro allI impI)
  fix ts assume ts: "wf_tokens ts \<and> length ts \<le> N \<and> Q (peek ts)"
  show "\<exists>r. expect_ident ts = Some r \<and> (\<forall>x ts'. r = Inr (x, ts') \<longrightarrow> wf_tokens ts' \<and> length ts' + 1 \<le> length ts)"
    using ts advance_wf[of ts] by (cases "peek ts") (auto simp: expect_ident_def parse_error_def)
qed

lemma returns_eat [returns_rules]: "k \<noteq> TK_Eof \<Longrightarrow> returns_on Q N 0 (eat_exact k)"
  using advance_wf by (fastforce simp: returns_on_def eat_exact_def)

lemma returns_error: "returns_on Q N c (parse_error r)"
  by (simp add: returns_on_def parse_error_def)

lemma returns_peek:
  "(\<And>k. Q k \<Longrightarrow> returns_on (\<lambda>k'. k' = k) N c (b k)) \<Longrightarrow> returns_on Q N c (\<lambda>ts. b (peek ts) ts)"
  by (simp add: returns_on_def)

lemma returns_if [returns_rules]:
  assumes "returns_on (\<lambda>k. k = k0) N c1 p" "returns_on (\<lambda>k. k \<noteq> k0) N c2 q"
  shows "returns_on Q N (min c1 c2) (\<lambda>ts. if peek ts = k0 then p ts else q ts)"
proof -
  have "returns_on (\<lambda>k. k = k0) N (min c1 c2) p" "returns_on (\<lambda>k. k \<noteq> k0) N (min c1 c2) q"
    by (rule returns_by[OF assms(1)] returns_by[OF assms(2)], simp)+
  then show ?thesis by (simp add: returns_on_def)
qed

lemma returns_unless [returns_rules]:
  assumes "returns_on (\<lambda>k. k \<noteq> k0) N c1 p" "returns_on (\<lambda>k. k = k0) N c2 q"
  shows "returns_on Q N (min c1 c2) (\<lambda>ts. if peek ts \<noteq> k0 then p ts else q ts)"
proof -
  have "returns_on (\<lambda>k. k \<noteq> k0) N (min c1 c2) p" "returns_on (\<lambda>k. k = k0) N (min c1 c2) q"
    by (rule returns_by[OF assms(1)] returns_by[OF assms(2)], simp)+
  then show ?thesis by (simp add: returns_on_def)
qed

lemma returns_choice [returns_rules]:
  assumes "returns_on Q N c1 p" "returns_on Q N c2 q"
  shows "returns_on Q N (min c1 c2) (if b then p else q)"
  using returns_by[OF assms(1), of "min c1 c2"] returns_by[OF assms(2), of "min c1 c2"] by simp

lemma returns_split [returns_rules]: "(\<And>x y. returns_on Q N c (f x y)) \<Longrightarrow> returns_on Q N c (case xy of (x, y) \<Rightarrow> f x y)"
  by (simp split: prod.splits)

lemma returns_cong: "(\<And>ts. p ts = q ts) \<Longrightarrow> returns_on Q N c q \<Longrightarrow> returns_on Q N c p"
  by (simp add: returns_on_def)

section \<open>Names and expressions\<close>

lemma returns_dotted_parts: "returns n 0 (dotted_parts n)"
proof (induction n)
  case (Suc n)
  show ?case
    by (rule returns_cong[OF dotted_parts.simps(2)], rule returns_by, (rule returns_rules returns_less[OF Suc.IH] | simp)+)
qed (rule returns_zero)

lemma returns_dotted_expr: "returns n 0 (parse_dotted_expr n first)"
  unfolding parse_dotted_expr_def
  by (rule returns_by, (rule returns_rules returns_less[OF returns_dotted_parts] | simp)+)

lemma returns_dotted_name: "returns n 1 (parse_dotted_name n)"
  unfolding parse_dotted_name_def
  by (rule returns_by, (rule returns_rules returns_less[OF returns_dotted_parts] | simp)+)

lemma returns_comma_list:
  assumes "returns n 1 p"
  shows "m \<le> n \<Longrightarrow> returns m 0 (comma_list m p)"
proof (induction m)
  case (Suc m)
  then have IH: "returns m 0 (comma_list m p)" by simp
  show ?case
    by (rule returns_cong[OF comma_list.simps(2)], rule returns_by,
        (rule returns_rules returns_less[OF assms] returns_less[OF IH] | use Suc.prems in simp)+)
qed (rule returns_zero)

lemma returns_arg_list:
  assumes "returns n 1 p"
  shows "returns n 0 (parse_arg_list n p)"
  by (rule returns_cong[OF parse_arg_list_def], rule returns_by,
      (rule returns_rules returns_less[OF assms] returns_less[OF returns_comma_list[OF assms order_refl]] | simp)+)

lemma returns_primary:
  assumes "returns n 1 p"
  shows "returns (Suc n) 1 (parse_primary (Suc n) p)"
proof (rule returns_cong[OF parse_primary_def], rule returns_peek)
  fix k :: token_kind
  note rules = returns_rules returns_error returns_less[OF assms] returns_less[OF returns_dotted_expr]
  show "returns_on (\<lambda>k'. k' = k) (Suc n) 1 (\<lambda>ts. case k of
        TK_StringLit s \<Rightarrow> pbind skip (\<lambda>_. preturn (EStringLit s)) ts
      | TK_IntLit v \<Rightarrow> pbind skip (\<lambda>_. preturn (EIntLit v)) ts
      | TK_RealLit v \<Rightarrow> pbind skip (\<lambda>_. preturn (ERealLit v)) ts
      | TK_DurationLit v \<Rightarrow> pbind skip (\<lambda>_. preturn (EDurationLit v)) ts
      | TK_BoolLit v \<Rightarrow> pbind skip (\<lambda>_. preturn (EBoolLit v)) ts
      | TK_LParen \<Rightarrow> pbind skip (\<lambda>_. pbind p (\<lambda>e. pbind (expect_kind TK_RParen) (\<lambda>_. preturn e))) ts
      | TK_Ident _ \<Rightarrow>
          pbind expect_ident (\<lambda>name ts. if peek ts = TK_Dot then parse_dotted_expr (Suc n) name ts else preturn (EIdent name) ts) ts
      | _ \<Rightarrow> parse_error UnexpectedInExpr ts)"
    by (cases k; simp add: returns_error) (rule returns_by, (rule rules | simp)+)+
qed

lemma returns_call_args:
  assumes "returns n 1 p"
  shows "returns_on (\<lambda>k. k = TK_LParen) (Suc n) 1 (call_args n p)"
  unfolding call_args_def by (rule returns_by, (rule returns_rules returns_less[OF returns_arg_list[OF assms]] | simp)+)

lemma returns_postfix_loop:
  assumes "returns n 1 p"
  shows "m \<le> Suc n \<Longrightarrow> returns m 0 (postfix_loop m p e)"
proof (induction m arbitrary: e)
  case (Suc m)
  have IH: "returns m 0 (postfix_loop m p e)" for e using Suc by simp
  have p: "returns m 1 p" using Suc.prems by (intro returns_less[OF assms]) simp
  note rules = returns_rules returns_call_args[OF p] returns_less[OF IH]
  have call: "returns_on (\<lambda>k. k = TK_LParen) (Suc m) 0 (pbind (call_args m p) (\<lambda>args. postfix_loop m p (f args)))" for f
    by (rule returns_by, (rule rules | simp)+)
  have "returns_on (\<lambda>k. k = TK_LParen) (Suc m) 0 (\<lambda>ts. case e of
           EIdent name \<Rightarrow> pbind (call_args m p) (\<lambda>args. postfix_loop m p (EFunctionCall name args)) ts
         | EVariable name \<Rightarrow>
             pbind (call_args m p) (\<lambda>args. postfix_loop m p
               (case rsplit_dot name of
                  Some (object_part, method_part) \<Rightarrow> EMethodCall (EVariable object_part) method_part args
                | None \<Rightarrow> EFunctionCall name args)) ts
         | _ \<Rightarrow> preturn e ts)"
    by (cases e; simp add: call returns_return)
  then show ?case
    by (intro returns_cong[OF postfix_loop.simps(2)], intro returns_by[OF returns_if[OF _ returns_return]]) auto
qed (rule returns_zero)

lemma returns_postfix:
  assumes "returns n 1 p"
  shows "returns (Suc n) 1 (parse_postfix (Suc n) p)"
  unfolding parse_postfix_def
  by (rule returns_by,
      (rule returns_rules returns_less[OF returns_primary[OF assms]] returns_less[OF returns_postfix_loop[OF assms order_refl]] | simp)+)

lemma returns_unary:
  assumes "returns n 1 p"
  shows "m \<le> Suc n \<Longrightarrow> returns m 1 (parse_unary m (Suc n) p)"
proof (induction m)
  case (Suc m)
  then have IH: "returns m 1 (parse_unary m (Suc n) p)" by simp
  show ?case
    by (rule returns_cong[OF parse_unary.simps(2)], rule returns_by,
        (rule returns_rules returns_less[OF IH] returns_less[OF returns_postfix[OF assms]] | use Suc.prems in simp)+)
qed (rule returns_zero)

lemma returns_binary_loop:
  assumes "returns n 1 nxt" "ops TK_Eof = None"
  shows "m \<le> n \<Longrightarrow> returns m 0 (binary_loop m ops nxt left)"
proof (induction m arbitrary: left)
  case (Suc m)
  have IH: "returns m 0 (binary_loop m ops nxt left)" for left using Suc by simp
  show ?case
  proof (rule returns_cong[OF binary_loop.simps(2)], rule returns_peek)
    fix k :: token_kind
    show "returns_on (\<lambda>k'. k' = k) (Suc m) 0 (\<lambda>ts. case ops k of None \<Rightarrow> preturn left ts
        | Some bop \<Rightarrow> pbind skip (\<lambda>_. pbind nxt (\<lambda>right. binary_loop m ops nxt (EBinaryOp left bop right))) ts)"
    proof (cases "ops k")
      case (Some bop)
      then have "k \<noteq> TK_Eof" using assms(2) by auto
      then show ?thesis unfolding Some option.case
        by - (rule returns_by, (rule returns_rules returns_less[OF IH] returns_less[OF assms(1)] | use Suc.prems in simp)+)
    qed (simp add: returns_return)
  qed
qed (rule returns_zero)

lemma returns_level:
  assumes "returns n 1 nxt" "ops TK_Eof = None"
  shows "returns n 1 (pbind nxt (binary_loop n ops nxt))"
proof -
  have loop: "returns n 0 (binary_loop n ops nxt left)" for left using returns_binary_loop[where ops = ops, OF assms] by simp
  show ?thesis by (rule returns_by, (rule returns_rules assms(1) returns_less[OF loop] | simp)+)
qed

lemma returns_expr: "returns n 1 (parse_expr n)"
proof (induction n)
  case (Suc n)
  show ?case
    unfolding parse_or_def parse_and_def parse_comparison_def parse_additive_def parse_multiplicative_def
    by (rule returns_cong[OF parse_expr.simps(2)],
        unfold parse_or_def parse_and_def parse_comparison_def parse_additive_def parse_multiplicative_def)
       (intro returns_level returns_unary[OF Suc.IH order_refl],
        simp_all add: or_ops_def and_ops_def cmp_ops_def add_ops_def mul_ops_def)
qed (rule returns_zero)

lemmas returns_exprs [returns_rules] = returns_less[OF returns_expr] returns_less[OF returns_dotted_name]
  returns_less[OF returns_arg_list[OF returns_expr]]

section \<open>Statements and declarations\<close>

lemma returns_set_op [returns_rules]: "returns_on Q N 1 parse_set_op"
proof (rule returns_cong[OF parse_set_op_def], rule returns_peek)
  fix k :: token_kind
  show "returns_on (\<lambda>k'. k' = k) N 1 (\<lambda>ts. case k of
        TK_Assign \<Rightarrow> pbind skip (\<lambda>_. preturn SO_Assign) ts
      | TK_PlusAssign \<Rightarrow> pbind skip (\<lambda>_. preturn SO_Add) ts
      | TK_MinusAssign \<Rightarrow> pbind skip (\<lambda>_. preturn SO_Subtract) ts
      | _ \<Rightarrow> parse_error ExpectedAssignment ts)"
    by (cases k; simp add: returns_error) (rule returns_by, (rule returns_rules | simp)+)+
qed

lemma returns_parens: "returns (Suc n) 1 (parse_parens n)"
  unfolding parse_parens_def by (rule returns_by, (rule returns_rules | simp)+)

lemmas returns_parens_rule [returns_rules] = returns_less[OF returns_parens]

lemma returns_braced:
  assumes "returns n 0 block"
  shows "returns (Suc n) 1 (braced block)"
  unfolding braced_def by (rule returns_by, (rule returns_rules returns_less[OF assms] | simp)+)

lemma returns_simple_statements:
  "returns n 1 (parse_set n)" "returns n 1 (parse_unset n)" "returns n 1 parse_call" "returns n 1 (parse_return n)"
  "returns n 1 (parse_synthetic n)" "returns n 1 (parse_ban n)" "returns n 1 (parse_new n)" "returns n 1 (parse_expr_statement n)"
  unfolding parse_set_def parse_unset_def parse_call_def parse_return_def parse_synthetic_def parse_ban_def parse_new_def parse_expr_statement_def
  by (rule returns_by, (rule returns_rules | simp)+)+

lemma returns_else_if:
  assumes "returns n 0 block"
  shows "returns (Suc n) 1 (else_if_branch (Suc n) block)"
  unfolding else_if_branch_def by (rule returns_by, (rule returns_rules returns_less[OF returns_braced[OF assms]] | simp)+)

lemma returns_cond:
  assumes "returns_on Q N c p" "returns_on Q N c q"
  shows "returns_on Q N c (\<lambda>ts. if C ts then p ts else q ts)"
  using assms by (simp add: returns_on_def)

text \<open>The second token of \<open>else if\<close> has been seen before it is skipped.\<close>

lemma skip_else_if:
  assumes "peek ts = TK_Else" "peek_ahead1 ts = TK_If"
  shows "pbind skip (\<lambda>_. pbind skip f) ts = pbind (expect_kind TK_Else) (\<lambda>_. pbind (expect_kind TK_If) f) ts"
  using assms by (auto simp: pbind_def skip_def expect_kind_def peek_def peek_ahead1_def advance_def split: list.splits)

lemma returns_else_branches:
  assumes "returns n 0 block"
  shows "m \<le> Suc n \<Longrightarrow> returns m 0 (else_branches m (Suc n) block)"
proof (induction m)
  case (Suc m)
  then have IH: "returns m 0 (else_branches m (Suc n) block)" by simp
  note rules = returns_rules returns_less[OF IH] returns_less[OF returns_else_if[OF assms]] returns_less[OF returns_braced[OF assms]]
  let ?rest = "pbind (else_if_branch (Suc n) block) (\<lambda>br. pbind (else_branches m (Suc n) block) (\<lambda>(brs, els). preturn (br # brs, els)))"
  have A: "returns_on Q (Suc m) 0 (pbind skip (\<lambda>_. ?rest))" if "\<And>k. Q k \<Longrightarrow> k \<noteq> TK_Eof" for Q
    by (rule returns_by, (rule rules | use Suc.prems that in simp)+)
  have B: "returns_on Q (Suc m) 0 (pbind (expect_kind TK_Else) (\<lambda>_. pbind (expect_kind TK_If) (\<lambda>_. ?rest)))" for Q
    by (rule returns_by, (rule rules | use Suc.prems in simp)+)
  have C: "returns_on (\<lambda>k. k = TK_Else) (Suc m) 0 (pbind skip (\<lambda>_. pbind (braced block) (\<lambda>b. preturn ([], Some b))))"
    by (rule returns_by, (rule rules | use Suc.prems in simp)+)
  have E: "returns_on (\<lambda>k. k \<noteq> TK_ElseIf) (Suc m) 0 (\<lambda>ts. if peek ts = TK_Else then
        (if peek_ahead1 ts = TK_If then pbind (expect_kind TK_Else) (\<lambda>_. pbind (expect_kind TK_If) (\<lambda>_. ?rest)) ts
         else pbind skip (\<lambda>_. pbind (braced block) (\<lambda>b. preturn ([], Some b))) ts) else preturn ([], None) ts)"
    by (rule returns_by[OF returns_if[OF returns_cond[OF B C] returns_return]]) simp
  have D: "returns (Suc m) 0 (\<lambda>ts. if peek ts = TK_ElseIf then pbind skip (\<lambda>_. ?rest) ts else (if peek ts = TK_Else then
        (if peek_ahead1 ts = TK_If then pbind (expect_kind TK_Else) (\<lambda>_. pbind (expect_kind TK_If) (\<lambda>_. ?rest)) ts
         else pbind skip (\<lambda>_. pbind (braced block) (\<lambda>b. preturn ([], Some b))) ts) else preturn ([], None) ts))"
    by (rule returns_by[OF returns_if[OF A E]]) simp_all
  show ?case
    by (rule returns_cong[OF _ D], unfold else_branches.simps(2)) (simp only: skip_else_if cong: if_cong)
qed (rule returns_zero)

lemma returns_if_statement:
  assumes "returns n 0 block"
  shows "returns (Suc n) 1 (parse_if (Suc n) block)"
  unfolding parse_if_def
  by (rule returns_by, (rule returns_rules returns_less[OF returns_braced[OF assms]]
      returns_less[OF returns_else_branches[OF assms order_refl]] | simp)+)

lemma returns_statement:
  assumes "returns n 0 block"
  shows "returns (Suc n) 1 (parse_statement (Suc n) block)"
proof (rule returns_cong[OF parse_statement_def], rule returns_peek)
  fix k :: token_kind
  show "returns_on (\<lambda>k'. k' = k) (Suc n) 1 (\<lambda>ts. case k of
        TK_Set \<Rightarrow> parse_set (Suc n) ts | TK_Unset \<Rightarrow> parse_unset (Suc n) ts | TK_Call \<Rightarrow> parse_call ts
      | TK_Return \<Rightarrow> parse_return (Suc n) ts | TK_If \<Rightarrow> parse_if (Suc n) block ts | TK_Synthetic \<Rightarrow> parse_synthetic (Suc n) ts
      | TK_New \<Rightarrow> parse_new (Suc n) ts | TK_Ban \<Rightarrow> parse_ban (Suc n) ts | _ \<Rightarrow> parse_expr_statement (Suc n) ts)"
    by (cases k; simp only: token_kind.case)
       (rule returns_less[OF _ order_refl], rule returns_if_statement[OF assms] returns_simple_statements)+
qed

lemma returns_statements:
  assumes "returns n 1 stmt"
  shows "m \<le> n \<Longrightarrow> returns m 0 (statements m stmt)"
proof (induction m)
  case (Suc m)
  then have IH: "returns m 0 (statements m stmt)" by simp
  have "returns_on Q (Suc m) 0 (pbind stmt (\<lambda>s. pbind (statements m stmt) (\<lambda>ss. preturn (s # ss))))" for Q
    by (rule returns_by, (rule returns_rules returns_less[OF IH] returns_less[OF assms] | use Suc.prems in simp)+)
  then show ?case by (intro returns_cong[OF statements.simps(2)] returns_cond returns_return)
qed (rule returns_zero)

lemma returns_block: "returns n 0 (parse_statement_block n)"
proof (induction n)
  case (Suc n)
  show ?case
    by (rule returns_cong[OF parse_statement_block.simps(2)]) (rule returns_statements[OF returns_statement[OF Suc.IH] order_refl])
qed (rule returns_zero)

lemma returns_property: "returns n 1 (parse_property n)"
  unfolding parse_property_def by (rule returns_by, (rule returns_rules | simp)+)

lemma returns_probe_properties: "m \<le> Suc n \<Longrightarrow> returns m 0 (probe_properties m n)"
proof (induction m)
  case (Suc m)
  then have IH: "returns m 0 (probe_properties m n)" by simp
  show ?case
    by (rule returns_cong[OF probe_properties.simps(2)], rule returns_by,
        (rule returns_rules returns_less[OF IH] returns_less[OF returns_property] | use Suc.prems in simp)+)
qed (rule returns_zero)

lemma returns_probe_body: "returns (Suc n) 1 (parse_probe_body n name)"
proof -
  have "returns n 0 (probe_properties n n)" by (rule returns_probe_properties) simp
  from returns_braced[OF this] show ?thesis
    unfolding parse_probe_body_def by - (rule returns_by, (rule returns_rules | assumption | simp)+)
qed

lemma returns_probe_decl: "returns n 1 (parse_probe_decl n)"
  unfolding parse_probe_decl_def by (rule returns_by, (rule returns_rules returns_less[OF returns_probe_body] | simp)+)

lemma returns_probe_value: "returns n 1 (parse_probe_value n)"
  by (rule returns_cong[OF parse_probe_value_def], rule returns_by,
      (rule returns_rules returns_less[OF returns_probe_body] | simp)+)

lemma returns_backend_items: "m \<le> Suc n \<Longrightarrow> returns m 0 (backend_items m n props probe)"
proof (induction m arbitrary: props probe)
  case (Suc m)
  then have IH: "returns m 0 (backend_items m n props probe)" for props probe by simp
  show ?case
    by (rule returns_cong[OF backend_items.simps(2)], rule returns_by,
        (rule returns_rules returns_less[OF IH] returns_less[OF returns_property] returns_less[OF returns_probe_value] | use Suc.prems in simp)+)
qed (rule returns_zero)

lemma returns_backend: "returns n 1 (parse_backend n)"
proof -
  have "returns n 0 (backend_items n n [] None)" by (rule returns_backend_items) simp
  note b = returns_braced[OF this]
  show ?thesis
    unfolding parse_backend_def by (rule returns_by, (rule returns_rules returns_less[OF b] | simp)+)
qed

lemma returns_acl_parts: "returns n 1 parse_acl_addr" "returns n 0 parse_acl_mask"
proof -
  show "returns n 1 parse_acl_addr"
  proof (rule returns_cong[OF parse_acl_addr_def], rule returns_peek)
    fix k :: token_kind
    show "returns_on (\<lambda>k'. k' = k) n 1 (\<lambda>ts. case k of TK_StringLit s \<Rightarrow> pbind skip (\<lambda>_. preturn s) ts | _ \<Rightarrow> parse_error ExpectedAddress ts)"
      by (cases k; simp add: returns_error) (rule returns_by, (rule returns_rules | simp)+)+
  qed
  have len: "returns_on Q N 1 (\<lambda>ts. case peek ts of TK_IntLit v \<Rightarrow> pbind skip (\<lambda>_. preturn (Some (ucast v))) ts | _ \<Rightarrow> parse_error ExpectedMask ts)"
    for Q N
  proof (rule returns_peek)
    fix k :: token_kind
    show "returns_on (\<lambda>k'. k' = k) N 1 (\<lambda>ts. case k of TK_IntLit v \<Rightarrow> pbind skip (\<lambda>_. preturn (Some (ucast v))) ts | _ \<Rightarrow> parse_error ExpectedMask ts)"
      by (cases k; simp add: returns_error) (rule returns_by, (rule returns_rules | simp)+)+
  qed
  show "returns n 0 parse_acl_mask"
    by (rule returns_cong[OF parse_acl_mask_def], rule returns_by, (rule returns_rules len | simp)+)
qed

lemma returns_acl_entry: "returns n 1 parse_acl_entry"
  unfolding parse_acl_entry_def by (rule returns_by, (rule returns_rules returns_acl_parts[of n, THEN returns_less] | simp)+)

lemma returns_acl_entries: "returns m 0 (acl_entries_loop m)"
proof (induction m)
  case (Suc m)
  show ?case
    by (rule returns_cong[OF acl_entries_loop.simps(2)], rule returns_by,
        (rule returns_rules returns_less[OF Suc.IH] returns_less[OF returns_acl_entry[of "Suc m"]] | simp)+)
qed (rule returns_zero)

lemma returns_acl: "returns n 1 (parse_acl n)"
  unfolding parse_acl_def
  by (rule returns_by, (rule returns_rules returns_less[OF returns_braced[OF returns_acl_entries]] | simp)+)

lemma returns_sub: "returns n 1 (parse_sub n)"
  unfolding parse_sub_def
  by (rule returns_by, (rule returns_rules returns_less[OF returns_braced[OF returns_block]] | simp)+)

lemma returns_import: "returns n 1 parse_import"
  unfolding parse_import_def by (rule returns_by, (rule returns_rules | simp)+)

lemma returns_version: "returns n 1 parse_vcl_version"
proof -
  have v: "returns_on Q N 1 (\<lambda>ts. case peek ts of
               TK_RealLit v \<Rightarrow> pbind skip (\<lambda>_. preturn (show_f64 v)) ts
             | TK_IntLit v \<Rightarrow> pbind skip (\<lambda>_. preturn (show_i64 v @ ''.0'')) ts
             | _ \<Rightarrow> parse_error ExpectedVersion ts)" for Q N
  proof (rule returns_peek)
    fix k :: token_kind
    show "returns_on (\<lambda>k'. k' = k) N 1 (\<lambda>ts. case k of
               TK_RealLit v \<Rightarrow> pbind skip (\<lambda>_. preturn (show_f64 v)) ts
             | TK_IntLit v \<Rightarrow> pbind skip (\<lambda>_. preturn (show_i64 v @ ''.0'')) ts
             | _ \<Rightarrow> parse_error ExpectedVersion ts)"
      by (cases k; simp add: returns_error) (rule returns_by, (rule returns_rules | simp)+)+
  qed
  show ?thesis unfolding parse_vcl_version_def by (rule returns_by, (rule returns_rules v | simp)+)
qed

lemma returns_decls: "m \<le> n \<Longrightarrow> returns m 0 (parse_decls m n prog)"
proof (induction m arbitrary: prog)
  case (Suc m)
  then have IH: "returns m 0 (parse_decls m n prog)" for prog by simp
  note rules = returns_rules returns_less[OF IH] returns_less[OF returns_import[of n]] returns_less[OF returns_backend]
    returns_less[OF returns_probe_decl] returns_less[OF returns_acl] returns_less[OF returns_sub]
  show ?case
  proof (rule returns_cong[OF parse_decls.simps(2)], rule returns_peek)
    fix k :: token_kind
    show "returns_on (\<lambda>k'. k' = k) (Suc m) 0 (\<lambda>ts. case k of
        TK_Eof \<Rightarrow> preturn prog ts
      | TK_Import \<Rightarrow> pbind parse_import (\<lambda>d. parse_decls m n (prog\<lparr>vp_imports := vp_imports prog @ [d]\<rparr>)) ts
      | TK_Backend \<Rightarrow> pbind (parse_backend n) (\<lambda>d. parse_decls m n (prog\<lparr>vp_backends := vp_backends prog @ [d]\<rparr>)) ts
      | TK_Probe \<Rightarrow> pbind (parse_probe_decl n) (\<lambda>d. parse_decls m n (prog\<lparr>vp_probes := vp_probes prog @ [d]\<rparr>)) ts
      | TK_Acl \<Rightarrow> pbind (parse_acl n) (\<lambda>d. parse_decls m n (prog\<lparr>vp_acls := vp_acls prog @ [d]\<rparr>)) ts
      | TK_Sub \<Rightarrow> pbind (parse_sub n) (\<lambda>d. parse_decls m n (prog\<lparr>vp_subs := vp_subs prog @ [d]\<rparr>)) ts
      | _ \<Rightarrow> parse_error UnexpectedTop ts)"
      by (cases k; simp add: returns_error returns_return) (rule returns_by, (rule rules | use Suc.prems in simp)+)+
  qed
qed (rule returns_zero)

section \<open>The parser returns on every output of the lexer\<close>

lemma returns_program: "returns n 0 (parse_program n)"
proof -
  have "returns n 0 (parse_decls n n prog)" for prog by (rule returns_decls) simp
  note rules = returns_rules returns_less[OF this] returns_less[OF returns_version[of n]]
  show ?thesis
    by (rule returns_cong[OF parse_program_def], rule returns_by, (rule rules | simp)+)
qed

lemma parse_tokens_returns:
  assumes "wf_tokens tokens"
  shows "\<exists>r. parse_tokens tokens = Some r"
proof -
  obtain r where "parse_program (length tokens) tokens = Some r"
    using returns_onD[OF returns_program assms order_refl TrueI] by metis
  then show ?thesis using assms by (simp add: parse_tokens_def wf_tokens_def)
qed

lemma tokens_from_wf: "tokens_from s p = Inr toks \<Longrightarrow> wf_tokens toks"
proof (induction s p arbitrary: toks rule: tokens_from.induct)
  case (1 s p)
  obtain tok s' p' where n: "next_token s p = Inr (tok, s', p')"
    using "1.prems" by (cases "next_token s p") (auto simp: tokens_from.simps[of s p])
  show ?case
  proof (cases "tok_kind tok = TK_Eof")
    case True
    then show ?thesis using "1.prems" n unfolding tokens_from.simps[of s p] by (auto simp: wf_tokens_def)
  next
    case False
    then obtain ts where ts: "tokens_from s' p' = Inr ts" "toks = tok # ts"
      using "1.prems" n unfolding tokens_from.simps[of s p] by (auto split: sum.splits)
    then show ?thesis using "1.IH"[OF n refl refl False ts(1)] by (simp add: wf_tokens_def)
  qed
qed

text \<open>
  C31: Compiling VCL always comes to an end: on every source text the lexer and the parser return a
  program or an error, they never run forever and never read past the last token.
\<close>

theorem parse_vcl_returns: "\<exists>r. parse_vcl source = Some r"
proof (cases "tokenize source")
  case (Inr toks)
  then have "wf_tokens toks" by (auto simp: tokenize_def lexer_new_def intro: tokens_from_wf)
  then show ?thesis using Inr parse_tokens_returns by (simp add: parse_vcl_def)
qed (simp add: parse_vcl_def)

end
