(* ===== verification/Vcl_Text.thy ===== *)
theory Vcl_Text
  imports Vcl_Lexer
begin

text \<open>
  How VCL programs are spelled: lexemes, separated by white space and comments.  The lexer reads any
  such text back as the tokens of its lexemes.
\<close>

section \<open>Gaps\<close>

datatype gap = Blank char | LineComment string | HashComment string | BlockComment string

primrec gap_text :: "gap \<Rightarrow> string" where
  "gap_text (Blank c) = [c]"
| "gap_text (LineComment t) = ''//'' @ t @ [CHR 0x0A]"
| "gap_text (HashComment t) = CHR ''#'' # t @ [CHR 0x0A]"
| "gap_text (BlockComment t) = ''/*'' @ t @ ''*/''"

primrec gap_ok :: "gap \<Rightarrow> bool" where
  "gap_ok (Blank c) \<longleftrightarrow> is_blank c"
| "gap_ok (LineComment t) \<longleftrightarrow> CHR 0x0A \<notin> set t"
| "gap_ok (HashComment t) \<longleftrightarrow> CHR 0x0A \<notin> set t"
| "gap_ok (BlockComment t) \<longleftrightarrow> \<not> sublist ''*/'' t"

definition gaps_text :: "gap list \<Rightarrow> string" where
  "gaps_text gs = concat (map gap_text gs)"

lemma skip_line_comment_text:
  "CHR 0x0A \<notin> set t \<Longrightarrow> \<exists>p'. skip_line_comment (t @ CHR 0x0A # s) p = (s, p')"
  by (induction t arbitrary: p) auto

lemma skip_block_comment_text:
  "\<not> sublist ''*/'' t \<Longrightarrow> \<exists>p'. skip_block_comment st (t @ CHR ''*'' # CHR ''/'' # s) p = Inr (s, p')"
proof (induction t arbitrary: p)
  case Nil
  then show ?case by (simp add: peek_is_def)
next
  case (Cons c t)
  have no: "\<not> sublist ''*/'' t" using Cons.prems by (meson sublist_Cons_right)
  have "\<not> (c = CHR ''*'' \<and> peek_is (CHR ''/'') (t @ CHR ''*'' # CHR ''/'' # s))"
    using Cons.prems by (cases t) (auto simp: peek_is_def sublist_code)
  then show ?case using Cons.IH[OF no] by auto
qed

lemma skip_comment:
  assumes "comment_at s p = Some (Inr (s', p'))" "s \<noteq> []" "\<not> is_blank (hd s)"
  shows "skip_comments_and_whitespace s p = skip_comments_and_whitespace s' p'"
proof -
  have "skip_whitespace s p = (s, p)" using assms(2,3) by (cases s) auto
  then show ?thesis using assms(1) by (simp add: skip_comments_and_whitespace.simps[of s p])
qed

lemma skip_gap:
  assumes "gap_ok g"
  shows "\<exists>p'. skip_comments_and_whitespace (gap_text g @ s) p = skip_comments_and_whitespace s p'"
proof (cases g)
  case (Blank c)
  then have "skip_comments_and_whitespace (gap_text g @ s) p = skip_comments_and_whitespace s (bump c p)"
    using assms unfolding skip_comments_and_whitespace.simps[of "gap_text g @ s" p] skip_comments_and_whitespace.simps[of s "bump c p"]
    by simp
  then show ?thesis by blast
next
  case (LineComment t)
  obtain p' where "skip_line_comment (t @ CHR 0x0A # s) (bump (CHR ''/'') (bump (CHR ''/'') p)) = (s, p')"
    using skip_line_comment_text assms LineComment by (metis gap_ok.simps(2))
  then have "skip_comments_and_whitespace (gap_text g @ s) p = skip_comments_and_whitespace s p'"
    using LineComment by (intro skip_comment) (auto simp: comment_at_def peek_is_def is_blank_def)
  then show ?thesis by blast
next
  case (HashComment t)
  obtain p' where "skip_line_comment (t @ CHR 0x0A # s) (bump (CHR ''#'') p) = (s, p')"
    using skip_line_comment_text assms HashComment by (metis gap_ok.simps(3))
  then have "skip_comments_and_whitespace (gap_text g @ s) p = skip_comments_and_whitespace s p'"
    using HashComment by (intro skip_comment) (auto simp: comment_at_def peek_is_def is_blank_def)
  then show ?thesis by blast
next
  case (BlockComment t)
  let ?p = "bump (CHR ''*'') (bump (CHR ''/'') p)"
  obtain p' where "skip_block_comment ?p (t @ CHR ''*'' # CHR ''/'' # s) ?p = Inr (s, p')"
    using skip_block_comment_text assms BlockComment by (metis gap_ok.simps(4))
  then have "skip_comments_and_whitespace (gap_text g @ s) p = skip_comments_and_whitespace s p'"
    using BlockComment by (intro skip_comment) (auto simp: comment_at_def peek_is_def is_blank_def)
  then show ?thesis by blast
qed

lemma skip_gaps:
  "list_all gap_ok gs \<Longrightarrow> \<exists>p'. skip_comments_and_whitespace (gaps_text gs @ s) p = skip_comments_and_whitespace s p'"
proof (induction gs arbitrary: p)
  case (Cons g gs)
  obtain p1 where "skip_comments_and_whitespace (gap_text g @ gaps_text gs @ s) p = skip_comments_and_whitespace (gaps_text gs @ s) p1"
    using skip_gap Cons.prems by fastforce
  then show ?case using Cons by (fastforce simp: gaps_text_def)
qed (auto simp: gaps_text_def)

section \<open>Lexemes\<close>

datatype dur_unit = U_ms | U_s | U_m | U_h | U_d

primrec unit_text :: "dur_unit \<Rightarrow> string" where
  "unit_text U_ms = ''ms''"
| "unit_text U_s = ''s''"
| "unit_text U_m = ''m''"
| "unit_text U_h = ''h''"
| "unit_text U_d = ''d''"

primrec unit_seconds :: "dur_unit \<Rightarrow> rat" where
  "unit_seconds U_ms = 1 / 1000"
| "unit_seconds U_s = 1"
| "unit_seconds U_m = 60"
| "unit_seconds U_h = 3600"
| "unit_seconds U_d = 86400"

datatype lexeme =
  LX_Ident string | LX_String string | LX_LongString string | LX_Int nat | LX_Real nat string
  | LX_Duration nat dur_unit | LX_Keyword string | LX_Symbol token_kind

definition quote_char :: "char \<Rightarrow> string" where
  "quote_char c =
     (if c = CHR 0x22 \<or> c = CHR 0x5C then [CHR 0x5C, c]
      else if c = CHR 0x0A then [CHR 0x5C, CHR ''n'']
      else if c = CHR 0x09 then [CHR 0x5C, CHR ''t'']
      else if c = CHR 0x0D then [CHR 0x5C, CHR ''r'']
      else [c])"

primrec lexeme_text :: "lexeme \<Rightarrow> string" where
  "lexeme_text (LX_Ident s) = s"
| "lexeme_text (LX_String s) = CHR 0x22 # concat (map quote_char s) @ [CHR 0x22]"
| "lexeme_text (LX_LongString s) = [CHR ''{'', CHR 0x22] @ s @ [CHR 0x22, CHR ''}'']"
| "lexeme_text (LX_Int n) = show_nat n"
| "lexeme_text (LX_Real n ds) = show_nat n @ CHR ''.'' # ds"
| "lexeme_text (LX_Duration n u) = show_nat n @ unit_text u"
| "lexeme_text (LX_Keyword s) = s"
| "lexeme_text (LX_Symbol k) = the (map_of SYMBOLS k)"

primrec lexeme_kind :: "lexeme \<Rightarrow> token_kind" where
  "lexeme_kind (LX_Ident s) = TK_Ident s"
| "lexeme_kind (LX_String s) = TK_StringLit s"
| "lexeme_kind (LX_LongString s) = TK_StringLit s"
| "lexeme_kind (LX_Int n) = TK_IntLit (of_nat n)"
| "lexeme_kind (LX_Real n ds) = TK_RealLit (Num (of_nat n + of_nat (digits_val ds) / 10 ^ length ds))"
| "lexeme_kind (LX_Duration n u) = TK_DurationLit (Num (of_nat n * unit_seconds u))"
| "lexeme_kind (LX_Keyword s) = the (map_of KEYWORDS s)"
| "lexeme_kind (LX_Symbol k) = k"

primrec lexeme_ok :: "lexeme \<Rightarrow> bool" where
  "lexeme_ok (LX_Ident s) \<longleftrightarrow> (case s of [] \<Rightarrow> False | c # cs \<Rightarrow> (is_alpha c \<or> c = CHR ''_'') \<and> list_all ident_char cs) \<and>
     map_of KEYWORDS s = None"
| "lexeme_ok (LX_String s) \<longleftrightarrow> ascii_str s"
| "lexeme_ok (LX_LongString s) \<longleftrightarrow> ascii_str s \<and> \<not> sublist [CHR 0x22, CHR ''}''] s"
| "lexeme_ok (LX_Int n) \<longleftrightarrow> n < 2 ^ 63"
| "lexeme_ok (LX_Real n ds) \<longleftrightarrow> n < 2 ^ 63 \<and> ds \<noteq> [] \<and> list_all is_digit ds"
| "lexeme_ok (LX_Duration n u) \<longleftrightarrow> n < 2 ^ 63"
| "lexeme_ok (LX_Keyword s) \<longleftrightarrow> map_of KEYWORDS s \<noteq> None"
| "lexeme_ok (LX_Symbol k) \<longleftrightarrow> map_of SYMBOLS k \<noteq> None"

text \<open>A lexeme is read when its first character starts no gap and \<open>token_at\<close> consumes exactly the rest.\<close>

definition reads :: "string \<Rightarrow> token_kind \<Rightarrow> bool" where
  "reads t k \<longleftrightarrow>
     (case t of [] \<Rightarrow> False
      | ch # cs \<Rightarrow> \<not> is_blank ch \<and> ch \<noteq> CHR ''#'' \<and> (ch = CHR ''/'' \<longrightarrow> cs = []) \<and>
          (\<forall>st p b s. is_blank b \<longrightarrow> (\<exists>p'. token_at st ch (cs @ b # s) p = Inr (k, b # s, p'))))"

lemma readsI:
  assumes "\<not> is_blank c" "c \<noteq> CHR ''#''" "c \<noteq> CHR ''/''"
    "\<And>st p b s. is_blank b \<Longrightarrow> \<exists>p'. token_at st c (cs @ b # s) p = Inr (k, b # s, p')"
  shows "reads (c # cs) k"
  using assms by (simp add: reads_def)

lemma readsD:
  assumes "reads (c # cs) k" "is_blank b"
  obtains p' where "token_at st c (cs @ b # s) p = Inr (k, b # s, p')"
  using assms unfolding reads_def list.case by blast

lemma blank_cases: "is_blank b \<longleftrightarrow> b \<in> {CHR '' '', CHR 0x09, CHR 0x0A, CHR 0x0D}"
  by (auto simp: is_blank_def)

lemma blank_peek [simp]: "is_blank b \<Longrightarrow> \<not> is_blank c \<Longrightarrow> \<not> peek_is c (b # s)"
  by (auto simp: peek_is_def)

lemma blank_not:
  assumes "is_blank b"
  shows "\<not> is_digit b" "\<not> ident_char b" "\<not> is_alnum b" "b \<noteq> CHR ''.''" "b \<noteq> CHR ''_''" "\<not> is_suffix_char b"
  using assms by (auto simp: blank_cases is_digit_def ident_char_def is_alnum_def is_alpha_def is_suffix_char_def)

lemma reads_symbol:
  assumes "map_of SYMBOLS k = Some t"
  shows "reads t k"
proof -
  have "list_all (\<lambda>(k, t). reads t k) SYMBOLS"
    by (auto simp: SYMBOLS_def reads_def token_at_def SINGLE_TOKENS_def EQ_TOKENS_def one_or_two_def peek_is_def is_blank_def)
  then show ?thesis using map_of_SomeD[OF assms] by (auto simp: list_all_iff)
qed

lemma token_at_digit:
  assumes "is_digit ch"
  shows "token_at st ch s p = read_number ch s p"
proof -
  have "ch \<notin> fst ` set SINGLE_TOKENS" "ch \<notin> fst ` set EQ_TOKENS"
    using assms by (auto simp: SINGLE_TOKENS_def EQ_TOKENS_def is_digit_def)
  then have "map_of SINGLE_TOKENS ch = None" "map_of EQ_TOKENS ch = None" by (simp_all only: map_of_eq_None_iff not_False_eq_True)
  moreover have "ch \<noteq> CHR ''{''" "ch \<noteq> CHR ''!''" "ch \<noteq> CHR ''&''" "ch \<noteq> CHR ''|''" "ch \<noteq> CHR 0x22"
    using assms by (auto simp: is_digit_def)
  ultimately show ?thesis using assms by (simp add: token_at_def)
qed

lemma token_at_alpha:
  assumes "is_alpha ch \<or> ch = CHR ''_''"
  shows "token_at st ch s p = Inr (read_ident ch s p)"
proof -
  have "ch \<notin> fst ` set SINGLE_TOKENS" "ch \<notin> fst ` set EQ_TOKENS"
    using assms by (auto simp: SINGLE_TOKENS_def EQ_TOKENS_def is_alpha_def)
  then have "map_of SINGLE_TOKENS ch = None" "map_of EQ_TOKENS ch = None" by (simp_all only: map_of_eq_None_iff not_False_eq_True)
  moreover have "ch \<noteq> CHR ''{''" "ch \<noteq> CHR ''!''" "ch \<noteq> CHR ''&''" "ch \<noteq> CHR ''|''" "ch \<noteq> CHR 0x22" "\<not> is_digit ch"
    using assms by (auto simp: is_alpha_def is_digit_def Let_def)
  ultimately show ?thesis using assms by (simp add: token_at_def)
qed

lemma ident_chars_text:
  "list_all ident_char cs \<Longrightarrow> is_blank b \<Longrightarrow> \<exists>p'. ident_chars (cs @ b # s) p = (cs, b # s, p')"
proof (induction cs arbitrary: p)
  case (Cons c cs)
  then obtain p' where "ident_chars (cs @ b # s) (bump c p) = (cs, b # s, p')" by (meson list.pred_inject(2))
  then show ?case using Cons.prems by simp
qed (simp add: blank_not)

lemma reads_ident:
  assumes "is_alpha c \<or> c = CHR ''_''" "list_all ident_char cs"
  shows "reads (c # cs) (keyword_or_ident (c # cs))"
proof -
  have "\<not> is_blank c" "c \<noteq> CHR ''#''" "c \<noteq> CHR ''/''" using assms(1) by (auto simp: is_alpha_def is_blank_def)
  then show ?thesis
  proof (rule readsI)
    fix st p b s assume "is_blank b"
    then obtain p' where "ident_chars (cs @ b # s) p = (cs, b # s, p')" using ident_chars_text[OF assms(2)] by metis
    then show "\<exists>p'. token_at st c (cs @ b # s) p = Inr (keyword_or_ident (c # cs), b # s, p')"
      by (simp add: token_at_alpha[OF assms(1)] read_ident_def)
  qed
qed

lemma keyword_chars:
  assumes "map_of KEYWORDS s = Some k"
  shows "\<exists>c cs. s = c # cs \<and> is_alpha c \<and> list_all ident_char cs"
proof -
  have "list_all (\<lambda>(s, k). s \<noteq> [] \<and> is_alpha (hd s) \<and> list_all ident_char (tl s)) KEYWORDS"
    by (simp add: KEYWORDS_def is_alpha_def ident_char_def is_alnum_def)
  then show ?thesis using map_of_SomeD[OF assms] by (cases s) (auto simp: list_all_iff)
qed

section \<open>Numbers\<close>

definition stops :: "string \<Rightarrow> bool" where
  "stops s \<longleftrightarrow> (case s of [] \<Rightarrow> True | c # _ \<Rightarrow> \<not> is_digit c \<and> c \<noteq> CHR ''.'')"

lemma blank_stops: "is_blank b \<Longrightarrow> stops (b # s)"
  by (simp add: stops_def blank_not)

lemma number_chars_digits:
  "list_all is_digit ds \<Longrightarrow> stops s \<Longrightarrow> \<exists>p'. number_chars r (ds @ s) p = (ds, r, s, p')"
proof (induction ds arbitrary: p)
  case Nil
  then show ?case by (cases s) (auto simp: stops_def)
next
  case (Cons d ds)
  then obtain p' where "number_chars r (ds @ s) (bump d p) = (ds, r, s, p')" by (meson list.pred_inject(2))
  then show ?case using Cons.prems by simp
qed

lemma number_chars_point:
  assumes "list_all is_digit ds" "list_all is_digit fs" "fs \<noteq> []" "stops s"
  shows "\<exists>p'. number_chars False (ds @ CHR ''.'' # fs @ s) p = (ds @ CHR ''.'' # fs, True, s, p')"
  using assms(1)
proof (induction ds arbitrary: p)
  case Nil
  obtain p' where "number_chars True (fs @ s) (bump (CHR ''.'') p) = (fs, True, s, p')"
    using number_chars_digits[OF assms(2,4)] by metis
  moreover obtain f fs' where "fs = f # fs'" "is_digit f" using assms(2,3) by (cases fs) auto
  moreover have "\<not> is_digit (CHR ''.'')" by (simp add: is_digit_def)
  ultimately show ?case by simp
next
  case (Cons d ds)
  then obtain p' where "number_chars False (ds @ CHR ''.'' # fs @ s) (bump d p) = (ds @ CHR ''.'' # fs, True, s, p')"
    by (meson list.pred_inject(2))
  then show ?case using Cons.prems by simp
qed

lemma show_nat_Cons: "\<exists>c cs. show_nat n = c # cs \<and> is_digit c \<and> list_all is_digit cs"
  using show_nat_props[of n] by (cases "show_nat n") auto

lemma reads_digit:
  assumes "is_digit c" "\<And>b s p. is_blank b \<Longrightarrow> \<exists>p'. read_number c (cs @ b # s) p = Inr (k, b # s, p')"
  shows "reads (c # cs) k"
proof -
  have "\<not> is_blank c" "c \<noteq> CHR ''#''" "c \<noteq> CHR ''/''" using assms(1) by (auto simp: is_digit_def is_blank_def)
  then show ?thesis
  proof (rule readsI)
    fix st p b s assume "is_blank b"
    then show "\<exists>p'. token_at st c (cs @ b # s) p = Inr (k, b # s, p')"
      unfolding token_at_digit[OF assms(1)] by (rule assms(2))
  qed
qed

lemma parse_i64_nat: "n < 2 ^ 63 \<Longrightarrow> parse_i64 (show_nat n) = Some (of_nat n)"
  using parse_int_show[of "int n"] by (simp add: show_int_def parse_i64_def)

lemma reads_int:
  assumes "n < 2 ^ 63"
  shows "reads (show_nat n) (TK_IntLit (of_nat n))"
proof -
  obtain c cs where s: "show_nat n = c # cs" "is_digit c" "list_all is_digit cs" using show_nat_Cons by blast
  show ?thesis unfolding s(1)
  proof (rule reads_digit[OF s(2)])
    fix b s p assume b: "is_blank b"
    obtain p' where "number_chars False (cs @ b # s) p = (cs, False, b # s, p')"
      using number_chars_digits[OF s(3) blank_stops[OF b]] by metis
    then show "\<exists>p'. read_number c (cs @ b # s) p = Inr (TK_IntLit (of_nat n), b # s, p')"
      using parse_i64_nat[OF assms] s(1) blank_not[OF b] by (simp add: read_number_def plain_number_def)
  qed
qed

lemma suffix_stops: "stops (unit_text u @ s)"
  by (cases u) (auto simp: stops_def is_digit_def)

lemma reads_duration:
  assumes "n < 2 ^ 63"
  shows "reads (show_nat n @ unit_text u) (TK_DurationLit (Num (of_nat n * unit_seconds u)))"
proof -
  obtain c cs where s: "show_nat n = c # cs" "is_digit c" "list_all is_digit cs" using show_nat_Cons by blast
  show ?thesis unfolding s(1) append_Cons
  proof (rule reads_digit[OF s(2)])
    fix b s p assume b: "is_blank b"
    obtain p' where "number_chars False (cs @ unit_text u @ b # s) p = (cs, False, unit_text u @ b # s, p')"
      using number_chars_digits[OF s(3) suffix_stops] by metis
    then show "\<exists>p'. read_number c ((cs @ unit_text u) @ b # s) p = Inr (TK_DurationLit (Num (of_nat n * unit_seconds u)), b # s, p')"
      using parse_f64_show_nat[OF assms] s(1) blank_not[OF b] b
      by (cases u) (auto simp: read_number_def duration_lit_def is_suffix_char_def suffix_seconds_def peek_is_def is_blank_def mult.commute)
  qed
qed

lemma digits_val_append: "digits_val (a @ b) = digits_val a * 10 ^ length b + digits_val b"
proof (induction b rule: rev_induct)
  case (snoc d b)
  then show ?case by (simp add: digits_val_snoc digits_val_snoc[of "a @ b", simplified])
qed (simp add: digits_val_def)

lemma digits_val_less: "list_all is_digit ds \<Longrightarrow> digits_val ds < 10 ^ length ds"
proof (induction ds rule: rev_induct)
  case (snoc d ds)
  then have "digit_val d < 10" by (auto simp: is_digit_def digit_val_def Let_def)
  then show ?case using snoc by (simp add: digits_val_snoc)
qed (simp add: digits_val_def)

lemma exact_small:
  assumes "0 \<le> v" "v < 2 ^ 64"
  shows "f_of_exact v = Num v"
proof -
  have b: "(2 :: rat) ^ 64 \<le> 2 ^ 1024 - 2 ^ 970" by simp
  have "v < 2 ^ 1024 - 2 ^ 970" using assms(2) b by (rule less_le_trans)
  moreover have "- (2 ^ 1024 - 2 ^ 970) < v"
    using assms(1) b by (meson less_le_trans neg_less_0_iff_less zero_less_numeral zero_less_power order_less_le_trans)
  ultimately show ?thesis unfolding f_of_exact_def by (meson not_le)
qed

lemma parse_f64_decimal:
  assumes "n < 2 ^ 63" "ds \<noteq> []" "list_all is_digit ds"
  shows "parse_f64 (show_nat n @ CHR ''.'' # ds) = Some (Num (of_nat n + of_nat (digits_val ds) / 10 ^ length ds))"
proof -
  obtain c cs where s: "show_nat n = c # cs" "is_digit c" "list_all is_digit cs" using show_nat_Cons by blast
  let ?v = "of_nat n + of_nat (digits_val ds) / 10 ^ length ds :: rat"
  have c: "c \<noteq> CHR ''+''" "c \<noteq> CHR ''-''" "ascii_lower c \<noteq> CHR ''i''" "ascii_lower c \<noteq> CHR ''n''"
    using s(2) by (auto simp: is_digit_def ascii_lower_def Let_def)
  have tw: "takeWhile is_digit (show_nat n @ CHR ''.'' # ds) = show_nat n" "dropWhile is_digit (show_nat n @ CHR ''.'' # ds) = CHR ''.'' # ds"
    "takeWhile is_digit ds = ds" "dropWhile is_digit ds = []"
    using show_nat_props[of n] assms(3) takeWhile_digits by (simp_all add: takeWhile_append2 dropWhile_append2 list_all_iff is_digit_def[of "CHR ''.''"])
  have "of_nat (digits_val (show_nat n @ ds)) * 10 powi (- int (length ds)) = ?v"
    using show_nat_props[of n] by (simp add: digits_val_append power_int_minus field_simps)
  then have dec: "parse_decimal (show_nat n @ CHR ''.'' # ds) = Some ?v"
    using assms(2) by (simp add: parse_decimal_def Let_def tw)
  have "of_nat (digits_val ds) < (10 ^ length ds :: rat)"
    using digits_val_less[OF assms(3)] by (metis of_nat_less_iff of_nat_numeral of_nat_power)
  then have "of_nat (digits_val ds) / 10 ^ length ds < (1 :: rat)" by (simp add: divide_less_eq)
  moreover have "(of_nat n :: rat) < 2 ^ 63" using assms(1) by (metis of_nat_less_iff of_nat_numeral of_nat_power)
  moreover have "0 \<le> of_nat (digits_val ds) / (10 ^ length ds :: rat)" by simp
  ultimately have "?v < 2 ^ 63 + 1" "?v \<ge> 0" by linarith+
  moreover have "(2 :: rat) ^ 63 + 1 \<le> 2 ^ 64" by simp
  ultimately have "f_of_exact ?v = Num ?v" by (intro exact_small) (assumption, rule less_le_trans)
  moreover have "to_ascii_lowercase (c # cs @ CHR ''.'' # ds) \<noteq> ''inf''" "to_ascii_lowercase (c # cs @ CHR ''.'' # ds) \<noteq> ''infinity''"
    "to_ascii_lowercase (c # cs @ CHR ''.'' # ds) \<noteq> ''nan''"
    using c by (simp_all add: to_ascii_lowercase_def)
  ultimately show ?thesis using c dec s(1) by (simp add: parse_f64_def)
qed

lemma reads_real:
  assumes "n < 2 ^ 63" "ds \<noteq> []" "list_all is_digit ds"
  shows "reads (show_nat n @ CHR ''.'' # ds) (TK_RealLit (Num (of_nat n + of_nat (digits_val ds) / 10 ^ length ds)))"
proof -
  obtain c cs where s: "show_nat n = c # cs" "is_digit c" "list_all is_digit cs" using show_nat_Cons by blast
  show ?thesis unfolding s(1) append_Cons
  proof (rule reads_digit[OF s(2)])
    fix b s p assume b: "is_blank b"
    obtain p' where "number_chars False (cs @ CHR ''.'' # ds @ b # s) p = (cs @ CHR ''.'' # ds, True, b # s, p')"
      using number_chars_point[OF s(3) assms(3,2) blank_stops[OF b]] by metis
    then show "\<exists>p'. read_number c ((cs @ CHR ''.'' # ds) @ b # s) p =
        Inr (TK_RealLit (Num (of_nat n + of_nat (digits_val ds) / 10 ^ length ds)), b # s, p')"
      using parse_f64_decimal[OF assms] s(1) blank_not[OF b] by (simp add: read_number_def plain_number_def)
  qed
qed

section \<open>Strings\<close>

lemma push_ascii: "in_range 0 127 c \<Longrightarrow> push_char c = [c]"
  by (simp add: push_char_def in_range_def Let_def)

lemma read_string_quoted:
  "ascii_str t \<Longrightarrow> \<exists>p'. read_string st (concat (map quote_char t) @ CHR 0x22 # s) p acc = Inr (acc @ t, s, p')"
proof (induction t arbitrary: p acc)
  case (Cons c t)
  have t: "ascii_str t" "push_char c = [c]" using Cons.prems push_ascii by (auto simp: ascii_str_def)
  note IH = Cons.IH[OF t(1)]
  show ?case
  proof (cases "c \<in> {CHR 0x22, CHR 0x5C, CHR 0x0A, CHR 0x09, CHR 0x0D}")
    case True
    then obtain d where "quote_char c = [CHR 0x5C, d]" "escape d = [c]" by (auto simp: quote_char_def escape_def)
    then show ?thesis using IH[of "bump d (bump (CHR 0x5C) p)" "acc @ [c]"] by simp
  next
    case False
    then show ?thesis using IH[of "bump c p" "acc @ [c]"] t(2) by (simp add: quote_char_def)
  qed
qed simp

lemma read_long_string_text:
  "ascii_str t \<Longrightarrow> \<not> sublist [CHR 0x22, CHR ''}''] t \<Longrightarrow>
   \<exists>p'. read_long_string st (t @ CHR 0x22 # CHR ''}'' # s) p acc = Inr (acc @ t, s, p')"
proof (induction t arbitrary: p acc)
  case Nil
  then show ?case by (simp add: peek_is_def)
next
  case (Cons c t)
  have t: "ascii_str t" "push_char c = [c]" using Cons.prems push_ascii by (auto simp: ascii_str_def)
  have no: "\<not> sublist [CHR 0x22, CHR ''}''] t" using Cons.prems by (meson sublist_Cons_right)
  have "\<not> (c = CHR 0x22 \<and> peek_is (CHR ''}'') (t @ CHR 0x22 # CHR ''}'' # s))"
    using Cons.prems by (cases t) (auto simp: peek_is_def sublist_code)
  then show ?case using Cons.IH[OF t(1) no, of "bump c p" "acc @ [c]"] t(2) by auto
qed

lemma reads_string:
  assumes "ascii_str t"
  shows "reads (CHR 0x22 # concat (map quote_char t) @ [CHR 0x22]) (TK_StringLit t)"
proof (rule readsI)
  fix st p b s
  obtain p' where "read_string p (concat (map quote_char t) @ CHR 0x22 # b # s) p [] = Inr (t, b # s, p')"
    using read_string_quoted[OF assms] by (metis append_Nil)
  then show "\<exists>p'. token_at st (CHR 0x22) ((concat (map quote_char t) @ [CHR 0x22]) @ b # s) p = Inr (TK_StringLit t, b # s, p')"
    by (simp add: token_at_def SINGLE_TOKENS_def EQ_TOKENS_def)
qed (simp_all add: is_blank_def)

lemma reads_long_string:
  assumes "ascii_str t" "\<not> sublist [CHR 0x22, CHR ''}''] t"
  shows "reads (CHR ''{'' # CHR 0x22 # t @ [CHR 0x22, CHR ''}'']) (TK_StringLit t)"
proof (rule readsI)
  fix st p b s
  let ?q = "bump (CHR 0x22) p"
  obtain p' where "read_long_string ?q (t @ CHR 0x22 # CHR ''}'' # b # s) ?q [] = Inr (t, b # s, p')"
    using read_long_string_text[OF assms] by (metis append_Nil)
  then show "\<exists>p'. token_at st (CHR ''{'') ((CHR 0x22 # t @ [CHR 0x22, CHR ''}'']) @ b # s) p = Inr (TK_StringLit t, b # s, p')"
    by (simp add: token_at_def SINGLE_TOKENS_def EQ_TOKENS_def peek_is_def)
qed (simp_all add: is_blank_def)

lemma reads_lexeme:
  assumes "lexeme_ok l"
  shows "reads (lexeme_text l) (lexeme_kind l)"
proof (cases l)
  case (LX_Ident s)
  then obtain c cs where "s = c # cs" "is_alpha c \<or> c = CHR ''_''" "list_all ident_char cs" "map_of KEYWORDS s = None"
    using assms by (auto split: list.splits)
  then show ?thesis using LX_Ident reads_ident[of c cs] by (simp add: keyword_or_ident_def)
next
  case (LX_Keyword s)
  then obtain k where k: "map_of KEYWORDS s = Some k" using assms by auto
  obtain c cs where "s = c # cs" "is_alpha c" "list_all ident_char cs" using keyword_chars[OF k] by blast
  then show ?thesis using LX_Keyword k reads_ident[of c cs] by (simp add: keyword_or_ident_def)
next
  case (LX_Symbol k)
  then show ?thesis using assms reads_symbol[of k] by auto
qed (use assms in \<open>auto intro: reads_string reads_long_string reads_int reads_real reads_duration\<close>)

section \<open>The lexer reads every layout\<close>

text \<open>A text: each lexeme is followed by a blank and then any further gaps.\<close>

type_synonym layout = "(lexeme \<times> char \<times> gap list) list"

definition layout_ok :: "layout \<Rightarrow> bool" where
  "layout_ok ls \<longleftrightarrow> list_all (\<lambda>(l, b, gs). lexeme_ok l \<and> is_blank b \<and> list_all gap_ok gs) ls"

definition layout_text :: "gap list \<Rightarrow> layout \<Rightarrow> string" where
  "layout_text g0 ls = gaps_text g0 @ concat (map (\<lambda>(l, b, gs). lexeme_text l @ b # gaps_text gs) ls)"

definition layout_kinds :: "layout \<Rightarrow> token_kind list" where
  "layout_kinds ls = map (lexeme_kind \<circ> fst) ls"

lemma next_token_reads:
  assumes "reads t k" "is_blank b" "list_all gap_ok gs"
  shows "\<exists>tok p'. next_token (gaps_text gs @ t @ b # s) p = Inr (tok, b # s, p') \<and> tok_kind tok = k"
proof -
  obtain ch cs where t: "t = ch # cs" using assms(1) by (cases t) (auto simp: reads_def)
  have ch: "\<not> is_blank ch" "ch \<noteq> CHR ''#''" "ch = CHR ''/'' \<Longrightarrow> cs = []" using assms(1) t by (auto simp: reads_def)
  obtain p1 where "skip_comments_and_whitespace (gaps_text gs @ t @ b # s) p = skip_comments_and_whitespace (t @ b # s) p1"
    using skip_gaps[OF assms(3)] by blast
  moreover have "comment_at (t @ b # s) p1 = None"
    using ch t assms(2) by (auto simp: comment_at_def peek_is_def is_blank_def)
  then have "skip_comments_and_whitespace (t @ b # s) p1 = Inr (t @ b # s, p1)"
    using ch(1) t unfolding skip_comments_and_whitespace.simps[of "t @ b # s" p1] by simp
  moreover obtain p' where "token_at p1 ch (cs @ b # s) (bump ch p1) = Inr (k, b # s, p')"
    using readsD[OF assms(1)[unfolded t] assms(2)] by blast
  ultimately show ?thesis using t by (simp add: next_token_def token_new_def)
qed

lemma next_token_end:
  assumes "list_all gap_ok gs"
  shows "\<exists>tok p'. next_token (gaps_text gs) p = Inr (tok, [], p') \<and> tok_kind tok = TK_Eof"
proof -
  obtain p1 where "skip_comments_and_whitespace (gaps_text gs @ []) p = skip_comments_and_whitespace [] p1"
    using skip_gaps[OF assms] by blast
  then show ?thesis
    unfolding skip_comments_and_whitespace.simps[of "[]" p1] by (simp add: next_token_def token_new_def comment_at_def)
qed

lemma reads_not_eof:
  assumes "reads t k"
  shows "k \<noteq> TK_Eof"
proof -
  obtain ch cs where t: "t = ch # cs" using assms by (cases t) (auto simp: reads_def)
  have "is_blank (CHR '' '')" by (simp add: is_blank_def)
  then obtain p' where "token_at (0, 0) ch (cs @ CHR '' '' # []) (0, 0) = Inr (k, CHR '' '' # [], p')"
    using readsD[OF assms[unfolded t]] by blast
  then show ?thesis using token_at_shorter by blast
qed

lemma tokens_of_layout:
  "layout_ok ls \<Longrightarrow> list_all gap_ok g0 \<Longrightarrow>
   \<exists>toks. tokens_from (layout_text g0 ls) p = Inr toks \<and> map tok_kind toks = layout_kinds ls @ [TK_Eof]"
proof (induction ls arbitrary: g0 p)
  case Nil
  obtain tok p' where "next_token (gaps_text g0) p = Inr (tok, [], p')" "tok_kind tok = TK_Eof"
    using next_token_end[OF Nil(2)] by blast
  then show ?case
    unfolding tokens_from.simps[of "layout_text g0 []" p] by (simp add: layout_text_def layout_kinds_def)
next
  case (Cons x ls)
  obtain l b gs where x: "x = (l, b, gs)" by (cases x)
  have ok: "lexeme_ok l" "is_blank b" "list_all gap_ok (Blank b # gs)" "layout_ok ls" using Cons.prems x by (auto simp: layout_ok_def)
  note r = reads_lexeme[OF ok(1)]
  let ?rest = "gaps_text gs @ concat (map (\<lambda>(l, b, gs). lexeme_text l @ b # gaps_text gs) ls)"
  have lay: "layout_text g0 (x # ls) = gaps_text g0 @ lexeme_text l @ b # ?rest" "layout_text (Blank b # gs) ls = b # ?rest"
    by (simp_all add: layout_text_def x gaps_text_def)
  obtain tok p' where nt: "next_token (layout_text g0 (x # ls)) p = Inr (tok, layout_text (Blank b # gs) ls, p')" "tok_kind tok = lexeme_kind l"
    using next_token_reads[OF r ok(2) Cons.prems(2), of ?rest p] unfolding lay by blast
  obtain toks where "tokens_from (layout_text (Blank b # gs) ls) p' = Inr toks" "map tok_kind toks = layout_kinds ls @ [TK_Eof]"
    using Cons.IH[OF ok(4,3)] by blast
  then show ?case
    using nt reads_not_eof[OF r] unfolding tokens_from.simps[of "layout_text g0 (x # ls)" p] by (simp add: layout_kinds_def x)
qed

text \<open>
  C30: However a sequence of lexemes is laid out, with any blanks, line comments and block comments
  around them, the lexer returns exactly their tokens, in order, followed by the end marker.
\<close>

theorem tokenize_round_trip:
  assumes "layout_ok ls" "list_all gap_ok g0"
  shows "\<exists>toks. tokenize (layout_text g0 ls) = Inr toks \<and> map tok_kind toks = layout_kinds ls @ [TK_Eof]"
  using tokens_of_layout[OF assms] by (simp add: tokenize_def lexer_new_def)

definition demo_layout :: layout where
  "demo_layout = [(LX_Keyword ''set'', CHR '' '', []), (LX_Ident ''x'', CHR '' '', [BlockComment ''a*b'']),
     (LX_Symbol TK_Assign, CHR 0x0A, [HashComment ''c'']), (LX_String [CHR 0x22], CHR '' '', []), (LX_Duration 5 U_m, CHR '' '', []),
     (LX_Real 1 ''50'', CHR '' '', []), (LX_Symbol TK_Semicolon, CHR 0x0A, [])]"

theorem tokenize_round_trip_witness:
  "layout_ok demo_layout \<and> list_all gap_ok [LineComment ''x''] \<and>
   (\<exists>toks. tokenize (layout_text [LineComment ''x''] demo_layout) = Inr toks \<and>
      map tok_kind toks = [TK_Set, TK_Ident ''x'', TK_Assign, TK_StringLit [CHR 0x22], TK_DurationLit (Num 300),
        TK_RealLit (Num (3 / 2)), TK_Semicolon, TK_Eof])"
proof -
  have ok: "layout_ok demo_layout" "list_all gap_ok [LineComment ''x'']"
    by (simp_all add: layout_ok_def demo_layout_def is_blank_def KEYWORDS_def SYMBOLS_def is_alpha_def ascii_str_def in_range_def
        sublist_code is_digit_def)
  have "layout_kinds demo_layout @ [TK_Eof] = [TK_Set, TK_Ident ''x'', TK_Assign, TK_StringLit [CHR 0x22], TK_DurationLit (Num 300),
        TK_RealLit (Num (3 / 2)), TK_Semicolon, TK_Eof]"
    by (simp add: layout_kinds_def demo_layout_def KEYWORDS_def digits_val_def digit_val_def)
  then show ?thesis using ok tokenize_round_trip[OF ok] by simp
qed

text \<open>Bytes beyond ASCII in a string literal are each taken for a character: the two bytes of an e with acute accent become four.\<close>

lemma non_ascii_string_mangled:
  "read_string (1, 1) [CHR 0xC3, CHR 0xA9, CHR 0x22] (1, 1) [] = Inr ([CHR 0xC3, CHR 0x83, CHR 0xC2, CHR 0xA9], [], (1, 4))"
  by (simp add: push_char_def bump_def Let_def char_of_eq_iff take_bit_eq_mod)

end
