(* ===== verification/Vcl_Print.thy ===== *)
theory Vcl_Print
  imports Vcl_Parser_Total Vcl_Text
begin

text \<open>
  A printer for VCL expressions, with parentheses only where the precedence of the operators needs
  them, and the proof that lexer and parser read every layout of a printed expression back.
\<close>

section \<open>Printing expressions\<close>

primrec prec :: "bin_op \<Rightarrow> nat" where
  "prec BO_Or = 0"
| "prec BO_And = 1"
| "prec BO_Eq = 2"
| "prec BO_Neq = 2"
| "prec BO_Gt = 2"
| "prec BO_Lt = 2"
| "prec BO_Gte = 2"
| "prec BO_Lte = 2"
| "prec BO_Match = 2"
| "prec BO_NotMatch = 2"
| "prec BO_Add = 3"
| "prec BO_Sub = 3"
| "prec BO_Mul = 4"
| "prec BO_Div = 4"

primrec op_kind :: "bin_op \<Rightarrow> token_kind" where
  "op_kind BO_Or = TK_Or"
| "op_kind BO_And = TK_And"
| "op_kind BO_Eq = TK_Eq"
| "op_kind BO_Neq = TK_Neq"
| "op_kind BO_Gt = TK_Gt"
| "op_kind BO_Lt = TK_Lt"
| "op_kind BO_Gte = TK_Gte"
| "op_kind BO_Lte = TK_Lte"
| "op_kind BO_Match = TK_Match"
| "op_kind BO_NotMatch = TK_NotMatch"
| "op_kind BO_Add = TK_Plus"
| "op_kind BO_Sub = TK_Minus"
| "op_kind BO_Mul = TK_Star"
| "op_kind BO_Div = TK_Slash"

primrec unary_kind :: "unary_op \<Rightarrow> token_kind" where
  "unary_kind UO_Not = TK_Not"
| "unary_kind UO_Negate = TK_Minus"

definition expr_level :: "expr \<Rightarrow> nat" where
  "expr_level e = (case e of EBinaryOp _ bop _ \<Rightarrow> prec bop | EUnaryOp _ _ \<Rightarrow> 5 | _ \<Rightarrow> 6)"

definition parenthesised :: "nat \<Rightarrow> expr \<Rightarrow> token_kind list \<Rightarrow> token_kind list" where
  "parenthesised L e ks = (if expr_level e < L then TK_LParen # ks @ [TK_RParen] else ks)"

fun dotted_kinds :: "string list \<Rightarrow> token_kind list" where
  "dotted_kinds [] = []"
| "dotted_kinds [p] = [TK_Ident p]"
| "dotted_kinds (p # q # ps) = TK_Ident p # TK_Dot # dotted_kinds (q # ps)"

abbreviation dot_parts :: "string \<Rightarrow> string list" where
  "dot_parts s \<equiv> split_char (CHR ''.'') s"

fun expr_kinds :: "expr \<Rightarrow> token_kind list"
and arg_kinds :: "expr list \<Rightarrow> token_kind list" where
  "expr_kinds (EStringLit s) = [TK_StringLit s]"
| "expr_kinds (EIntLit v) = [TK_IntLit v]"
| "expr_kinds (ERealLit v) = [TK_RealLit v]"
| "expr_kinds (EDurationLit v) = [TK_DurationLit v]"
| "expr_kinds (EBoolLit v) = [TK_BoolLit v]"
| "expr_kinds (EIdent s) = [TK_Ident s]"
| "expr_kinds (EVariable s) = dotted_kinds (dot_parts s)"
| "expr_kinds (EHeaderRef obj h) = dotted_kinds (obj # ''http'' # dot_parts h)"
| "expr_kinds (EBinaryOp l bop r) =
     parenthesised (prec bop) l (expr_kinds l) @ op_kind bop # parenthesised (Suc (prec bop)) r (expr_kinds r)"
| "expr_kinds (EUnaryOp uop e) = unary_kind uop # parenthesised 5 e (expr_kinds e)"
| "expr_kinds (EFunctionCall name args) = TK_Ident name # TK_LParen # arg_kinds args @ [TK_RParen]"
| "expr_kinds (EMethodCall obj m args) =
     dotted_kinds ((case obj of EVariable s \<Rightarrow> dot_parts s | _ \<Rightarrow> []) @ [m]) @ TK_LParen # arg_kinds args @ [TK_RParen]"
| "expr_kinds (ERegexLit s) = []"
| "expr_kinds (EConcat es) = []"
| "arg_kinds [] = []"
| "arg_kinds [e] = expr_kinds e"
| "arg_kinds (e # f # es) = expr_kinds e @ TK_Comma # arg_kinds (f # es)"

definition header_like :: "string list \<Rightarrow> bool" where
  "header_like parts \<longleftrightarrow> length parts \<ge> 3 \<and> parts ! 1 = ''http''"

text \<open>The expressions that the grammar can express.\<close>

fun expr_ok :: "expr \<Rightarrow> bool" where
  "expr_ok (EVariable s) \<longleftrightarrow> CHR ''.'' \<in> set s \<and> \<not> header_like (dot_parts s)"
| "expr_ok (EBinaryOp l bop r) \<longleftrightarrow> expr_ok l \<and> expr_ok r"
| "expr_ok (EUnaryOp uop e) \<longleftrightarrow> expr_ok e"
| "expr_ok (EFunctionCall name args) \<longleftrightarrow> list_all expr_ok args"
| "expr_ok (EMethodCall obj m args) \<longleftrightarrow>
     (case obj of EVariable s \<Rightarrow> CHR ''.'' \<notin> set m \<and> \<not> header_like (dot_parts s @ [m]) | _ \<Rightarrow> False) \<and> list_all expr_ok args"
| "expr_ok (ERegexLit s) \<longleftrightarrow> False"
| "expr_ok (EConcat es) \<longleftrightarrow> False"
| "expr_ok _ \<longleftrightarrow> True"

section \<open>Dotted names\<close>

lemma split_char_Cons: "split_char c (d # s) = (if d = c then [] # split_char c s else (d # hd (split_char c s)) # tl (split_char c s))"
  using split_char_ne[of c s] by (cases "split_char c s") auto

lemma join_split: "join_with [c] (split_char c s) = s"
proof (induction s)
  case (Cons d s)
  obtain x xs where "split_char c s = x # xs" using split_char_ne[of c s] by (cases "split_char c s") auto
  then show ?case using Cons by (cases xs) (auto simp: split_char_Cons)
qed simp

lemma join_with_Cons: "xs \<noteq> [] \<Longrightarrow> join_with sep (x # xs) = x @ sep @ join_with sep xs"
  by (cases xs) auto

lemma split_join: "ps \<noteq> [] \<Longrightarrow> \<forall>p \<in> set ps. c \<notin> set p \<Longrightarrow> split_char c (join_with [c] ps) = ps"
proof (induction ps)
  case (Cons p ps)
  show ?case
  proof (cases ps)
    case Nil
    then show ?thesis using Cons.prems split_char_none[of c p] by simp
  next
    case (Cons q qs)
    then show ?thesis using Cons.IH Cons.prems split_char_append[of c p] by (simp add: join_with_Cons)
  qed
qed simp

lemma split_parts: "p \<in> set (split_char c s) \<Longrightarrow> c \<notin> set p"
proof (induction s arbitrary: p)
  case (Cons d s)
  obtain x xs where "split_char c s = x # xs" using split_char_ne[of c s] by (cases "split_char c s") auto
  then show ?case using Cons by (auto simp: split_char_Cons split: if_splits)
qed simp

lemma length_split: "c \<in> set s \<Longrightarrow> length (split_char c s) \<ge> 2"
proof (induction s)
  case (Cons d s)
  obtain x xs where "split_char c s = x # xs" using split_char_ne[of c s] by (cases "split_char c s") auto
  then show ?case using Cons by (auto simp: split_char_Cons)
qed simp

lemma dotted_kinds_Cons: "dotted_kinds (p # ps) = TK_Ident p # concat (map (\<lambda>q. [TK_Dot, TK_Ident q]) ps)"
  by (induction ps arbitrary: p) auto

section \<open>Parsers that read given tokens\<close>

text \<open>
  \<open>reads_kinds N F p ks x\<close>: on tokens with the kinds \<open>ks\<close>, followed by a token whose kind satisfies
  \<open>F\<close>, the parser consumes exactly these and returns \<open>x\<close>, as long as there are at most \<open>N\<close> tokens.
\<close>

definition reads_kinds :: "nat \<Rightarrow> (token_kind \<Rightarrow> bool) \<Rightarrow> 'a parser \<Rightarrow> token_kind list \<Rightarrow> 'a \<Rightarrow> bool" where
  "reads_kinds N F p ks x \<longleftrightarrow>
     (\<forall>ts rest. map tok_kind ts = ks \<and> wf_tokens rest \<and> F (peek rest) \<and> length (ts @ rest) \<le> N \<longrightarrow>
        p (ts @ rest) = Some (Inr (x, rest)))"

named_theorems reads_rules

lemma reads_kindsD:
  "reads_kinds N F p ks x \<Longrightarrow> map tok_kind ts = ks \<Longrightarrow> wf_tokens rest \<Longrightarrow> F (peek rest) \<Longrightarrow> length (ts @ rest) \<le> N \<Longrightarrow>
   p (ts @ rest) = Some (Inr (x, rest))"
  by (simp add: reads_kinds_def)

lemma wf_append: "wf_tokens rest \<Longrightarrow> wf_tokens (ts @ rest)"
  by (simp add: wf_tokens_def)

lemma peek_append: "peek (ts @ rest) = (case map tok_kind ts of [] \<Rightarrow> peek rest | k # _ \<Rightarrow> k)"
  by (cases ts) (auto simp: peek_def)

lemma reads_bind:
  assumes "reads_kinds N F1 p ks1 x" "reads_kinds (N - length ks1) F2 (f x) ks2 y"
    "case ks2 of [] \<Rightarrow> \<forall>k. F2 k \<longrightarrow> F1 k | k # _ \<Rightarrow> F1 k"
  shows "reads_kinds N F2 (pbind p f) (ks1 @ ks2) y"
  unfolding reads_kinds_def
proof (intro allI impI)
  fix ts rest assume a: "map tok_kind ts = ks1 @ ks2 \<and> wf_tokens rest \<and> F2 (peek rest) \<and> length (ts @ rest) \<le> N"
  then obtain ts1 ts2 where ts: "ts = ts1 @ ts2" "map tok_kind ts1 = ks1" "map tok_kind ts2 = ks2"
    by (metis append_eq_map_conv)
  have "F1 (peek (ts2 @ rest))" using assms(3) ts(3) a by (auto simp: peek_append split: list.splits)
  then have "p (ts1 @ ts2 @ rest) = Some (Inr (x, ts2 @ rest))"
    using a ts by (intro reads_kindsD[OF assms(1)] wf_append) auto
  moreover have "length ks1 = length ts1" using ts(2) by auto
  then have "f x (ts2 @ rest) = Some (Inr (y, rest))" using a ts by (intro reads_kindsD[OF assms(2)]) auto
  ultimately show "pbind p f (ts @ rest) = Some (Inr (y, rest))" by (simp add: pbind_def ts(1))
qed

lemma reads_bind_one [reads_rules]:
  assumes "reads_kinds N F1 p [k] x" "reads_kinds (N - 1) F2 (f x) ks2 y" "case ks2 of [] \<Rightarrow> \<forall>k. F2 k \<longrightarrow> F1 k | k # _ \<Rightarrow> F1 k"
  shows "reads_kinds N F2 (pbind p f) (k # ks2) y"
  using reads_bind[where f = f and ?ks1.0 = "[k]"] assms by simp

lemma reads_bind_none:
  assumes "reads_kinds N F1 p [] x" "reads_kinds N F2 (f x) ks2 y" "case ks2 of [] \<Rightarrow> \<forall>k. F2 k \<longrightarrow> F1 k | k # _ \<Rightarrow> F1 k"
  shows "reads_kinds N F2 (pbind p f) ks2 y"
  using reads_bind[where f = f and ?ks1.0 = "[]"] assms by simp

lemma reads_return [reads_rules]: "reads_kinds N F (preturn x) [] x"
  by (simp add: reads_kinds_def preturn_def)

lemma advance_Cons: "rest \<noteq> [] \<Longrightarrow> advance (t # rest) = rest"
  by (cases rest) (auto simp: advance_def)

lemma reads_one:
  "(\<And>t rest. tok_kind t = k \<Longrightarrow> wf_tokens rest \<Longrightarrow> p (t # rest) = Some (Inr (x, rest))) \<Longrightarrow> reads_kinds N F p [k] x"
  by (auto simp: reads_kinds_def)

lemma reads_expect [reads_rules]: "reads_kinds N F (expect_kind k) [k] ()"
  by (rule reads_one) (simp add: expect_kind_def skip_def peek_def advance_Cons wf_tokens_def)

lemma reads_skip [reads_rules]: "reads_kinds N F skip [k] ()"
  by (rule reads_one) (simp add: skip_def advance_Cons wf_tokens_def)

lemma reads_ident_kind [reads_rules]: "reads_kinds N F expect_ident [TK_Ident s] s"
  by (rule reads_one) (simp add: expect_ident_def peek_def advance_Cons wf_tokens_def)

lemma reads_eat [reads_rules]:
  "reads_kinds N F (eat_exact k) [k] True" "(\<And>k'. F k' \<Longrightarrow> k' \<noteq> k) \<Longrightarrow> reads_kinds N F (eat_exact k) [] False"
  by (rule reads_one) (auto simp: eat_exact_def peek_def advance_Cons wf_tokens_def reads_kinds_def)

lemma reads_weaken: "reads_kinds N F p ks x \<Longrightarrow> (\<And>k. F' k \<Longrightarrow> F k) \<Longrightarrow> N' \<le> N \<Longrightarrow> reads_kinds N' F' p ks x"
  by (auto simp: reads_kinds_def)

lemma reads_cong:
  "(\<And>ts rest. map tok_kind ts = ks \<Longrightarrow> wf_tokens rest \<Longrightarrow> F (peek rest) \<Longrightarrow> p (ts @ rest) = q (ts @ rest)) \<Longrightarrow>
   reads_kinds N F q ks x \<Longrightarrow> reads_kinds N F p ks x"
  by (auto simp: reads_kinds_def)

section \<open>Reading expressions back\<close>

definition parse_level :: "nat \<Rightarrow> expr parser \<Rightarrow> nat \<Rightarrow> expr parser" where
  "parse_level n p L =
     (if L = 0 then parse_or n p else if L = 1 then parse_and n p else if L = 2 then parse_comparison n p
      else if L = 3 then parse_additive n p else if L = 4 then parse_multiplicative n p else parse_unary n n p)"

definition level_ops :: "nat \<Rightarrow> token_kind \<Rightarrow> bin_op option" where
  "level_ops L = (if L = 0 then or_ops else if L = 1 then and_ops else if L = 2 then cmp_ops else if L = 3 then add_ops else mul_ops)"

lemmas ops_defs = or_ops_def and_ops_def cmp_ops_def add_ops_def mul_ops_def

lemma parse_level_step:
  assumes "L < 5"
  shows "parse_level n p L = pbind (parse_level n p (Suc L)) (binary_loop n (level_ops L) (parse_level n p (Suc L)))"
proof -
  have "L \<in> {0, 1, 2, 3, 4}" using assms by auto
  then show ?thesis
    by (auto simp: parse_level_def level_ops_def parse_or_def parse_and_def parse_comparison_def parse_additive_def parse_multiplicative_def)
qed

lemma level_ops_kind: "L < 5 \<Longrightarrow> level_ops L (op_kind bop) = (if L = prec bop then Some bop else None)"
  by (cases bop) (auto simp: level_ops_def ops_defs)

lemma level_ops_eof: "level_ops L TK_Eof = None"
  by (simp add: level_ops_def ops_defs)

text \<open>What may follow an expression that is parsed at a level.\<close>

definition stops_at :: "nat \<Rightarrow> token_kind \<Rightarrow> bool" where
  "stops_at L k \<longleftrightarrow> k \<noteq> TK_LParen \<and> k \<noteq> TK_Dot \<and> (\<forall>M. L \<le> M \<and> M < 5 \<longrightarrow> level_ops M k = None)"

lemma stops_at_mono: "stops_at L k \<Longrightarrow> L \<le> M \<Longrightarrow> stops_at M k"
  by (auto simp: stops_at_def)

lemma stops_at_op: "stops_at (Suc (prec bop)) (op_kind bop)"
  using level_ops_kind[of _ bop] by (cases bop) (auto simp: stops_at_def)

lemma returns_parse_level: "returns (Suc n) 1 (parse_level (Suc n) (parse_expr n) L)"
proof (induction "5 - L" arbitrary: L)
  case 0
  then show ?case using returns_unary[OF returns_expr order_refl, of n] by (simp add: parse_level_def del: parse_unary.simps)
next
  case (Suc d)
  then have "L < 5" "returns (Suc n) 1 (parse_level (Suc n) (parse_expr n) (Suc L))" by auto
  then show ?case unfolding parse_level_step[OF \<open>L < 5\<close>] by (intro returns_level level_ops_eof)
qed

text \<open>With enough fuel, the fuel of a loop does not matter.\<close>

lemma binary_loop_fuel:
  assumes "returns n 1 nxt" "ops TK_Eof = None"
  shows "wf_tokens ts \<Longrightarrow> length ts \<le> m \<Longrightarrow> length ts \<le> m' \<Longrightarrow> length ts \<le> n \<Longrightarrow>
    binary_loop m ops nxt left ts = binary_loop m' ops nxt left ts"
proof (induction m arbitrary: m' left ts)
  case 0
  then show ?case by (simp add: wf_tokens_def)
next
  case (Suc m)
  then obtain k where m': "m' = Suc k" by (cases m') (auto simp: wf_tokens_def)
  show ?case
  proof (cases "ops (peek ts)")
    case (Some bop)
    then have "peek ts \<noteq> TK_Eof" using assms(2) by auto
    then have adv: "wf_tokens (advance ts)" "length (advance ts) + 1 = length ts" using advance_wf[OF Suc.prems(1)] by auto
    have "length (advance ts) \<le> n" using adv Suc.prems by simp
    from returns_onD[OF assms(1) adv(1) this TrueI] show ?thesis
    proof cases
      case (2 right ts')
      then have "binary_loop m ops nxt l ts' = binary_loop k ops nxt l ts'" for l
        using adv Suc.prems m' by (intro Suc.IH) auto
      then show ?thesis using Some 2 m' by (simp add: pbind_def skip_def)
    qed (simp add: Some m' pbind_def skip_def)
  qed (simp add: m')
qed

lemma parse_unary_fuel:
  "wf_tokens ts \<Longrightarrow> length ts \<le> m \<Longrightarrow> length ts \<le> m' \<Longrightarrow> parse_unary m n p ts = parse_unary m' n p ts"
proof (induction m arbitrary: m' ts)
  case 0
  then show ?case by (simp add: wf_tokens_def)
next
  case (Suc m)
  then obtain k where m': "m' = Suc k" by (cases m') (auto simp: wf_tokens_def)
  have "peek ts = TK_Not \<or> peek ts = TK_Minus \<Longrightarrow> parse_unary m n p (advance ts) = parse_unary k n p (advance ts)"
    using advance_wf[OF Suc.prems(1)] Suc.prems m' by (intro Suc.IH) auto
  then show ?case using m' by (simp add: pbind_def skip_def)
qed

text \<open>What a level does once its first operand has been read: it looks for operators of its own.\<close>

definition continue_at :: "nat \<Rightarrow> nat \<Rightarrow> expr \<Rightarrow> expr parser" where
  "continue_at n L e =
     (if L < 5 then binary_loop (Suc n) (level_ops L) (parse_level (Suc n) (parse_expr n) (Suc L)) e else preturn e)"

lemma continue_stops: "stops_at L (peek rest) \<Longrightarrow> L \<le> 5 \<Longrightarrow> continue_at n L e rest = Some (Inr (e, rest))"
  by (auto simp: continue_at_def stops_at_def preturn_def)

abbreviation level_kinds :: "nat \<Rightarrow> expr \<Rightarrow> token_kind list" where
  "level_kinds L e \<equiv> parenthesised L e (expr_kinds e)"

definition reads_at :: "expr \<Rightarrow> nat \<Rightarrow> bool" where
  "reads_at e L \<longleftrightarrow>
     (\<forall>n ts rest. map tok_kind ts = level_kinds L e \<longrightarrow> wf_tokens rest \<longrightarrow> length (ts @ rest) \<le> Suc n \<longrightarrow> stops_at (Suc L) (peek rest) \<longrightarrow>
        parse_level (Suc n) (parse_expr n) L (ts @ rest) = continue_at n L e rest)"

lemma reads_atD:
  "reads_at e L \<Longrightarrow> map tok_kind ts = level_kinds L e \<Longrightarrow> wf_tokens rest \<Longrightarrow> length (ts @ rest) \<le> Suc n \<Longrightarrow> stops_at (Suc L) (peek rest) \<Longrightarrow>
   parse_level (Suc n) (parse_expr n) L (ts @ rest) = continue_at n L e rest"
  unfolding reads_at_def by blast

lemma level_kinds_0: "level_kinds 0 e = expr_kinds e"
  by (simp add: parenthesised_def)

text \<open>From a level down to the next one: an expression of another level is an operand.\<close>

lemma reads_at_down:
  assumes "reads_at e (Suc L)" "L < 5" "expr_level e \<noteq> L"
  shows "reads_at e L"
  unfolding reads_at_def
proof (intro allI impI)
  fix n ts rest
  assume a: "map tok_kind ts = level_kinds L e" "wf_tokens rest" "length (ts @ rest) \<le> Suc n" "stops_at (Suc L) (peek rest)"
  have "level_kinds L e = level_kinds (Suc L) e" using assms(3) by (auto simp: parenthesised_def)
  then have "parse_level (Suc n) (parse_expr n) (Suc L) (ts @ rest) = continue_at n (Suc L) e rest"
    using a by (intro reads_atD[OF assms(1)]) (auto intro: stops_at_mono)
  also have "\<dots> = Some (Inr (e, rest))" using a(4) assms(2) by (intro continue_stops) auto
  finally show "parse_level (Suc n) (parse_expr n) L (ts @ rest) = continue_at n L e rest"
    using assms(2) by (simp add: parse_level_step pbind_def continue_at_def)
qed

lemma reads_at_below:
  assumes "reads_at e M" "M \<le> 5" "\<And>K. K < M \<Longrightarrow> L \<le> K \<Longrightarrow> expr_level e \<noteq> K" "L \<le> M"
  shows "reads_at e L"
  using assms(4) assms(3)
proof (induction "M - L" arbitrary: L)
  case 0
  then show ?case using assms(1) by simp
next
  case (Suc d)
  have L: "L < M" "d = M - Suc L" using Suc.hyps(2) by auto
  have "reads_at e (Suc L)" using L Suc.prems(2) by (intro Suc.hyps(1)) auto
  then show ?case using L(1) Suc.prems(2)[of L] assms(2) by - (rule reads_at_down, auto)
qed

lemma reads_at_expr:
  assumes "reads_at e 0" "N \<le> n"
  shows "reads_kinds N (stops_at 0) (parse_expr n) (expr_kinds e) e"
  unfolding reads_kinds_def
proof (intro allI impI)
  fix ts rest assume a: "map tok_kind ts = expr_kinds e \<and> wf_tokens rest \<and> stops_at 0 (peek rest) \<and> length (ts @ rest) \<le> N"
  then obtain m where n: "n = Suc m" using assms(2) by (cases n) (auto simp: wf_tokens_def)
  have "parse_level (Suc m) (parse_expr m) 0 (ts @ rest) = continue_at m 0 e rest"
    using a assms n by (intro reads_atD) (auto simp: level_kinds_0 intro: stops_at_mono)
  then show "parse_expr n (ts @ rest) = Some (Inr (e, rest))"
    using a n by (simp add: continue_stops parse_level_def)
qed

text \<open>Operands: what \<open>parse_postfix\<close> reads.\<close>

definition postfix_end :: "token_kind \<Rightarrow> bool" where
  "postfix_end k \<longleftrightarrow> k \<noteq> TK_LParen \<and> k \<noteq> TK_Dot"

definition starts_operand :: "token_kind \<Rightarrow> bool" where
  "starts_operand k \<longleftrightarrow> k = TK_LParen \<or> (\<exists>s. k = TK_Ident s \<or> k = TK_StringLit s) \<or> (\<exists>v. k = TK_IntLit v) \<or>
     (\<exists>v. k = TK_RealLit v \<or> k = TK_DurationLit v) \<or> (\<exists>b. k = TK_BoolLit b)"

lemma reads_operand:
  assumes "\<And>n. reads_kinds (Suc n) postfix_end (parse_postfix (Suc n) (parse_expr n)) (level_kinds 5 e) e"
    "\<exists>k ks. level_kinds 5 e = k # ks \<and> starts_operand k"
  shows "reads_at e 5"
  unfolding reads_at_def
proof (intro allI impI)
  fix n ts rest
  assume a: "map tok_kind ts = level_kinds 5 e" "wf_tokens rest" "length (ts @ rest) \<le> Suc n" "stops_at (Suc 5) (peek rest)"
  have "parse_postfix (Suc n) (parse_expr n) (ts @ rest) = Some (Inr (e, rest))"
    using a by (intro reads_kindsD[OF assms(1)]) (auto simp: stops_at_def postfix_end_def)
  moreover have "starts_operand (peek (ts @ rest))" using a(1) assms(2) by (auto simp: peek_append)
  ultimately show "parse_level (Suc n) (parse_expr n) 5 (ts @ rest) = continue_at n 5 e rest"
    by (auto simp: parse_level_def continue_at_def preturn_def starts_operand_def)
qed

lemma reads_postfix_return: "reads_kinds N postfix_end (postfix_loop (Suc n) p e) [] e"
  by (auto simp: reads_kinds_def postfix_end_def preturn_def)

lemma reads_primary_literal:
  "reads_kinds N F (parse_primary n p) [TK_StringLit s] (EStringLit s)"
  "reads_kinds N F (parse_primary n p) [TK_IntLit v] (EIntLit v)"
  "reads_kinds N F (parse_primary n p) [TK_RealLit r] (ERealLit r)"
  "reads_kinds N F (parse_primary n p) [TK_DurationLit r] (EDurationLit r)"
  "reads_kinds N F (parse_primary n p) [TK_BoolLit b] (EBoolLit b)"
  by (rule reads_one, simp add: parse_primary_def peek_def pbind_def skip_def preturn_def advance_Cons wf_tokens_def)+

lemma reads_primary_parens:
  assumes "reads_at e 0"
  shows "reads_kinds (Suc n) F (parse_primary (Suc n) (parse_expr n)) (TK_LParen # expr_kinds e @ [TK_RParen]) e"
proof (rule reads_cong)
  show "parse_primary (Suc n) (parse_expr n) (ts @ rest) =
      pbind skip (\<lambda>_. pbind (parse_expr n) (\<lambda>e. pbind (expect_kind TK_RParen) (\<lambda>_. preturn e))) (ts @ rest)"
    if "map tok_kind ts = TK_LParen # expr_kinds e @ [TK_RParen]" for ts rest
    using that by (cases ts) (auto simp: parse_primary_def peek_def)
next
  have "reads_kinds n F (pbind (parse_expr n) (\<lambda>e. pbind (expect_kind TK_RParen) (\<lambda>_. preturn e))) (expr_kinds e @ [TK_RParen]) e"
    by (rule reads_bind[OF reads_at_expr[OF assms order_refl] reads_bind_one[OF reads_expect reads_return]])
       (auto simp: stops_at_def level_ops_def ops_defs)
  then show "reads_kinds (Suc n) F (pbind skip (\<lambda>_. pbind (parse_expr n) (\<lambda>e. pbind (expect_kind TK_RParen) (\<lambda>_. preturn e))))
      (TK_LParen # expr_kinds e @ [TK_RParen]) e"
    by (intro reads_bind_one[OF reads_skip]) (auto split: list.splits)
qed

lemma reads_postfix_primary:
  assumes "reads_kinds (Suc n) postfix_end (parse_primary (Suc n) (parse_expr n)) ks e"
  shows "reads_kinds (Suc n) postfix_end (parse_postfix (Suc n) (parse_expr n)) ks e"
  using reads_bind[where f = "postfix_loop (Suc n) (parse_expr n)", OF assms reads_postfix_return]
  by (simp add: parse_postfix_def del: postfix_loop.simps)

lemma reads_dotted_parts:
  "N \<le> n \<Longrightarrow> reads_kinds N (\<lambda>k. k \<noteq> TK_Dot) (dotted_parts n) (concat (map (\<lambda>q. [TK_Dot, TK_Ident q]) ps)) ps"
  unfolding reads_kinds_def
proof (induction ps arbitrary: n N)
  case Nil
  show ?case
  proof (intro allI impI)
    fix ts rest
    assume a: "map tok_kind ts = concat (map (\<lambda>q. [TK_Dot, TK_Ident q]) []) \<and> wf_tokens rest \<and> peek rest \<noteq> TK_Dot \<and> length (ts @ rest) \<le> N"
    then obtain k where "n = Suc k" using Nil by (cases n) (auto simp: wf_tokens_def)
    then show "dotted_parts n (ts @ rest) = Some (Inr ([], rest))" using a by (simp add: preturn_def)
  qed
next
  case (Cons q ps)
  show ?case
  proof (intro allI impI)
    fix ts rest
    assume a: "map tok_kind ts = concat (map (\<lambda>q. [TK_Dot, TK_Ident q]) (q # ps)) \<and> wf_tokens rest \<and> peek rest \<noteq> TK_Dot \<and> length (ts @ rest) \<le> N"
    then obtain t1 t2 ts' where ts: "ts = t1 # t2 # ts'" "tok_kind t1 = TK_Dot" "tok_kind t2 = TK_Ident q"
      "map tok_kind ts' = concat (map (\<lambda>q. [TK_Dot, TK_Ident q]) ps)"
      by (cases ts; cases "tl ts") auto
    obtain k where n: "n = Suc k" using Cons.prems a by (cases n) (auto simp: wf_tokens_def)
    have ne: "ts' @ rest \<noteq> []" using a by (simp add: wf_tokens_def)
    have "dotted_parts k (ts' @ rest) = Some (Inr (ps, rest))"
      using Cons.IH[of k k] a ts(1,4) n Cons.prems by auto
    then show "dotted_parts n (ts @ rest) = Some (Inr (q # ps, rest))"
      using ts ne n by (simp add: pbind_def skip_def expect_ident_def peek_def advance_Cons preturn_def)
  qed
qed

lemma reads_dotted:
  assumes "N \<le> n" "ps \<noteq> []"
  shows "reads_kinds N (\<lambda>k. k \<noteq> TK_Dot) (parse_primary n p) (dotted_kinds (first # ps)) (dotted_expr (first # ps))"
proof (rule reads_cong)
  show "parse_primary n p (ts @ rest) = pbind expect_ident (\<lambda>name. parse_dotted_expr n name) (ts @ rest)"
    if ks: "map tok_kind ts = dotted_kinds (first # ps)" "wf_tokens rest" for ts rest
  proof -
    obtain q qs where ps: "ps = q # qs" using assms(2) by (cases ps) auto
    obtain t1 t2 ts' where "ts = t1 # t2 # ts'" "tok_kind t1 = TK_Ident first" "tok_kind t2 = TK_Dot"
      using ks(1) unfolding ps by (cases ts; cases "tl ts") auto
    then show ?thesis by (simp add: parse_primary_def peek_def pbind_def expect_ident_def advance_def)
  qed
next
  show "reads_kinds N (\<lambda>k. k \<noteq> TK_Dot) (pbind expect_ident (\<lambda>name. parse_dotted_expr n name)) (dotted_kinds (first # ps)) (dotted_expr (first # ps))"
    unfolding dotted_kinds_Cons parse_dotted_expr_def
  proof (rule reads_bind_one[OF reads_ident_kind[where F = "\<lambda>_. True"]])
    have "N - 1 \<le> n" using assms(1) by simp
    then show "reads_kinds (N - 1) (\<lambda>k. k \<noteq> TK_Dot) (pbind (dotted_parts n) (\<lambda>parts. preturn (dotted_expr (first # parts))))
        (concat (map (\<lambda>q. [TK_Dot, TK_Ident q]) ps)) (dotted_expr (first # ps))"
      using reads_bind[where f = "\<lambda>parts. preturn (dotted_expr (first # parts))", OF reads_dotted_parts reads_return] by simp
  qed (simp split: list.splits)
qed

lemma reads_single_ident:
  "reads_kinds N (\<lambda>k. k \<noteq> TK_Dot) (parse_primary n p) [TK_Ident s] (EIdent s)"
  by (auto simp: reads_kinds_def parse_primary_def peek_def pbind_def expect_ident_def preturn_def advance_Cons wf_tokens_def)

section \<open>Calls\<close>

lemma reads_no_tokens: "reads_kinds 0 F p ks x"
  by (simp add: reads_kinds_def wf_tokens_def)

lemma arg_kinds_Cons: "arg_kinds (e # es) = expr_kinds e @ concat (map (\<lambda>e. TK_Comma # expr_kinds e) es)"
  by (induction es arbitrary: e) auto

lemma stops_comma: "stops_at 0 TK_Comma" "stops_at 0 TK_RParen" "stops_at 0 TK_Semicolon"
  by (auto simp: stops_at_def level_ops_def ops_defs)

lemma comma_hd: "case concat (map (\<lambda>e. TK_Comma # expr_kinds e) es) of [] \<Rightarrow> \<forall>k. k = TK_RParen \<longrightarrow> stops_at 0 k | k # _ \<Rightarrow> stops_at 0 k"
  by (cases es) (auto simp: stops_comma)

lemma comma_list_Suc:
  "comma_list (Suc k) p = pbind (eat_exact TK_Comma) (\<lambda>more. if more then pbind p (\<lambda>e. pbind (comma_list k p) (\<lambda>es. preturn (e # es))) else preturn [])"
  by (rule ext) simp

lemma reads_comma_list:
  assumes "\<forall>e \<in> set es. reads_at e 0"
  shows "N \<le> n \<Longrightarrow> N \<le> m \<Longrightarrow>
    reads_kinds N (\<lambda>k. k = TK_RParen) (comma_list m (parse_expr n)) (concat (map (\<lambda>e. TK_Comma # expr_kinds e) es)) es"
  using assms
proof (induction es arbitrary: N m)
  case Nil
  show ?case
  proof (cases m)
    case (Suc k)
    then show ?thesis by (auto simp: reads_kinds_def pbind_def eat_exact_def preturn_def)
  qed (use Nil reads_no_tokens in simp)
next
  case (Cons e es)
  show ?case
  proof (cases m)
    case (Suc k)
    let ?rest = "\<lambda>e. pbind (comma_list k (parse_expr n)) (\<lambda>es. preturn (e # es))"
    have "reads_kinds (N - 1 - length (expr_kinds e)) (\<lambda>k. k = TK_RParen) (comma_list k (parse_expr n))
        (concat (map (\<lambda>e. TK_Comma # expr_kinds e) es)) es"
      using Cons.prems Suc by (intro Cons.IH) auto
    from reads_bind[where f = "\<lambda>es. preturn (e # es)", OF this reads_return]
    have "reads_kinds (N - 1 - length (expr_kinds e)) (\<lambda>k. k = TK_RParen) (?rest e) (concat (map (\<lambda>e. TK_Comma # expr_kinds e) es)) (e # es)"
      by simp
    then have "reads_kinds (N - 1) (\<lambda>k. k = TK_RParen) (pbind (parse_expr n) ?rest)
        (expr_kinds e @ concat (map (\<lambda>e. TK_Comma # expr_kinds e) es)) (e # es)"
      using Cons.prems by (intro reads_bind[where f = ?rest, OF reads_at_expr _ comma_hd]) auto
    then show ?thesis
      unfolding Suc comma_list_Suc list.map concat.simps append_Cons
      by (intro reads_bind_one[OF reads_eat(1)[where F = "\<lambda>_. True"]]) (auto split: list.splits)
  qed (use Cons.prems reads_no_tokens in simp)
qed

lemma reads_arg_list:
  assumes "\<forall>e \<in> set es. reads_at e 0" "N \<le> n" "es \<noteq> [] \<Longrightarrow> hd (expr_kinds (hd es)) \<noteq> TK_RParen \<and> expr_kinds (hd es) \<noteq> []"
  shows "reads_kinds N (\<lambda>k. k = TK_RParen) (parse_arg_list n (parse_expr n)) (arg_kinds es) es"
proof (cases es)
  case Nil
  then show ?thesis by (simp add: reads_kinds_def parse_arg_list_def preturn_def)
next
  case (Cons e es')
  let ?rest = "\<lambda>e. pbind (comma_list n (parse_expr n)) (\<lambda>es. preturn (e # es))"
  have "reads_kinds (N - length (expr_kinds e)) (\<lambda>k. k = TK_RParen) (comma_list n (parse_expr n))
      (concat (map (\<lambda>e. TK_Comma # expr_kinds e) es')) es'"
    using assms Cons by (intro reads_comma_list) auto
  from reads_bind[where f = "\<lambda>es. preturn (e # es)", OF this reads_return]
  have "reads_kinds (N - length (expr_kinds e)) (\<lambda>k. k = TK_RParen) (?rest e) (concat (map (\<lambda>e. TK_Comma # expr_kinds e) es')) es" using Cons by simp
  then have r: "reads_kinds N (\<lambda>k. k = TK_RParen) (pbind (parse_expr n) ?rest) (arg_kinds es) es"
    using assms Cons unfolding Cons arg_kinds_Cons by (intro reads_bind[where f = ?rest, OF reads_at_expr _ comma_hd]) auto
  show ?thesis
  proof (rule reads_cong[OF _ r])
    fix ts rest :: "token list" assume "map tok_kind ts = arg_kinds es"
    then have "peek (ts @ rest) \<noteq> TK_RParen"
      using assms(3) Cons by (cases "expr_kinds e") (auto simp: arg_kinds_Cons peek_append)
    then show "parse_arg_list n (parse_expr n) (ts @ rest) = pbind (parse_expr n) ?rest (ts @ rest)" by (simp add: parse_arg_list_def)
  qed
qed

lemma reads_too_long: "N < length ks \<Longrightarrow> reads_kinds N F p ks x"
  by (auto simp: reads_kinds_def)

text \<open>The call of an identifier or of the last part of a dotted name.\<close>

definition called :: "expr \<Rightarrow> expr list \<Rightarrow> expr" where
  "called callee args =
     (case callee of
        EIdent name \<Rightarrow> EFunctionCall name args
      | EVariable name \<Rightarrow> (case rsplit_dot name of Some (obj, m) \<Rightarrow> EMethodCall (EVariable obj) m args | None \<Rightarrow> EFunctionCall name args)
      | _ \<Rightarrow> callee)"

lemma reads_call:
  assumes callee: "reads_kinds (Suc n) (\<lambda>k. k \<noteq> TK_Dot) (parse_primary (Suc n) (parse_expr n)) ks c"
    and c: "(\<exists>s. c = EIdent s) \<or> (\<exists>s. c = EVariable s)"
    and args: "\<And>N. N \<le> n \<Longrightarrow> reads_kinds N (\<lambda>k. k = TK_RParen) (parse_arg_list n (parse_expr n)) (arg_kinds es) es"
  shows "reads_kinds (Suc n) postfix_end (parse_postfix (Suc n) (parse_expr n)) (ks @ TK_LParen # arg_kinds es @ [TK_RParen]) (called c es)"
  unfolding parse_postfix_def
proof (rule reads_bind[OF callee])
  have args': "reads_kinds (Suc n - length ks) (\<lambda>_. True) (call_args n (parse_expr n)) (TK_LParen # arg_kinds es @ [TK_RParen]) es"
    unfolding call_args_def
    by (intro reads_bind_one[OF reads_skip] reads_bind[OF args] reads_bind_one[OF reads_expect reads_return]) (auto split: list.splits)
  show "reads_kinds (Suc n - length ks) postfix_end (postfix_loop (Suc n) (parse_expr n) c) (TK_LParen # arg_kinds es @ [TK_RParen]) (called c es)"
  proof (rule reads_cong)
    fix ts rest :: "token list"
    assume "map tok_kind ts = TK_LParen # arg_kinds es @ [TK_RParen]"
    then show "postfix_loop (Suc n) (parse_expr n) c (ts @ rest) =
        pbind (call_args n (parse_expr n)) (\<lambda>args. postfix_loop n (parse_expr n) (called c args)) (ts @ rest)"
      using c by (cases ts) (auto simp: peek_def called_def)
  next
    show "reads_kinds (Suc n - length ks) postfix_end (pbind (call_args n (parse_expr n)) (\<lambda>args. postfix_loop n (parse_expr n) (called c args)))
       (TK_LParen # arg_kinds es @ [TK_RParen]) (called c es)"
    proof (cases n)
      case 0
      then show ?thesis by (intro reads_too_long) simp
    next
      case (Suc k)
      have "reads_kinds (Suc n - length ks - length (TK_LParen # arg_kinds es @ [TK_RParen])) postfix_end
          (postfix_loop n (parse_expr n) (called c es)) [] (called c es)"
        unfolding Suc by (rule reads_postfix_return)
      from reads_bind[where f = "\<lambda>args. postfix_loop n (parse_expr n) (called c args)", OF args' this] show ?thesis by simp
    qed
  qed
qed (simp add: postfix_end_def)

section \<open>All expressions\<close>

lemma reads_at_parens:
  assumes "reads_at e 0" "expr_level e < 5"
  shows "reads_at e 5"
proof (rule reads_operand)
  show "reads_kinds (Suc n) postfix_end (parse_postfix (Suc n) (parse_expr n)) (level_kinds 5 e) e" for n
    using reads_postfix_primary[OF reads_primary_parens[OF assms(1)]] assms(2) by (simp add: parenthesised_def)
qed (use assms(2) in \<open>simp add: parenthesised_def starts_operand_def\<close>)

text \<open>It is enough to read an expression at its own level.\<close>

lemma reads_at_levels:
  assumes "reads_at e (min 5 (expr_level e))" "L \<le> 5"
  shows "reads_at e L"
proof (cases "L \<le> expr_level e")
  case True
  then show ?thesis using assms by (intro reads_at_below[OF assms(1)]) auto
next
  case False
  then have "reads_at e 0" using assms by (intro reads_at_below[OF assms(1)]) auto
  then show ?thesis using False assms(2) by - (rule reads_at_below[OF reads_at_parens], auto)
qed

lemma reads_at_postfix:
  assumes "\<And>n. reads_kinds (Suc n) postfix_end (parse_postfix (Suc n) (parse_expr n)) (expr_kinds e) e"
    "\<exists>k ks. expr_kinds e = k # ks \<and> starts_operand k" "expr_level e = 6" "L \<le> 5"
  shows "reads_at e L"
proof (rule reads_at_levels[OF _ assms(4)])
  have "level_kinds 5 e = expr_kinds e" using assms(3) by (simp add: parenthesised_def)
  then have "reads_at e 5" using reads_operand[of e] assms(1,2) by simp
  then show "reads_at e (min 5 (expr_level e))" using assms(3) by simp
qed

lemma reads_at_unary:
  assumes "reads_at e 5"
  shows "reads_at (EUnaryOp uop e) 5"
  unfolding reads_at_def
proof (intro allI impI)
  fix n and ts rest :: "token list"
  assume a: "map tok_kind ts = level_kinds 5 (EUnaryOp uop e)" "wf_tokens rest" "length (ts @ rest) \<le> Suc n" "stops_at (Suc 5) (peek rest)"
  then obtain t ts' where ts: "ts = t # ts'" "tok_kind t = unary_kind uop" "map tok_kind ts' = level_kinds 5 e"
    by (cases ts) (auto simp: parenthesised_def expr_level_def)
  have ne: "ts' @ rest \<noteq> []" and wf: "wf_tokens (ts' @ rest)" using a(2) by (auto simp: wf_tokens_def)
  have "parse_unary n (Suc n) (parse_expr n) (ts' @ rest) = parse_unary (Suc n) (Suc n) (parse_expr n) (ts' @ rest)"
    using wf a(3) ts(1) by (intro parse_unary_fuel) auto
  also have "\<dots> = Some (Inr (e, rest))"
    using reads_atD[OF assms ts(3) a(2) _ a(4), of n] a(3) ts(1) by (simp add: parse_level_def continue_at_def preturn_def)
  finally show "parse_level (Suc n) (parse_expr n) 5 (ts @ rest) = continue_at n 5 (EUnaryOp uop e) rest"
    using ts(1,2) ne by (cases uop) (simp_all add: parse_level_def continue_at_def peek_def pbind_def skip_def advance_Cons preturn_def)
qed

lemma prec_less: "prec bop < 5"
  by (cases bop) simp_all

lemma reads_at_binary:
  assumes "reads_at l (prec bop)" "reads_at r (Suc (prec bop))"
  shows "reads_at (EBinaryOp l bop r) (prec bop)"
  unfolding reads_at_def
proof (intro allI impI)
  let ?P = "prec bop" and ?e = "EBinaryOp l bop r"
  fix n and ts rest :: "token list"
  assume a: "map tok_kind ts = level_kinds ?P ?e" "wf_tokens rest" "length (ts @ rest) \<le> Suc n" "stops_at (Suc ?P) (peek rest)"
  then obtain ts1 t ts2 where ts: "ts = ts1 @ t # ts2" "map tok_kind ts1 = level_kinds ?P l" "tok_kind t = op_kind bop" "map tok_kind ts2 = level_kinds (Suc ?P) r"
    by (auto simp: parenthesised_def expr_level_def map_eq_append_conv map_eq_Cons_conv)
  let ?nxt = "parse_level (Suc n) (parse_expr n) (Suc ?P)"
  have wf: "wf_tokens (t # ts2 @ rest)" "ts2 @ rest \<noteq> []" using a(2) by (auto simp: wf_tokens_def)
  have "parse_level (Suc n) (parse_expr n) ?P (ts1 @ t # ts2 @ rest) = continue_at n ?P l (t # ts2 @ rest)"
    using ts a wf stops_at_op[of bop] by (intro reads_atD[OF assms(1)]) (auto simp: peek_def)
  also have "\<dots> = pbind ?nxt (\<lambda>right. binary_loop n (level_ops ?P) ?nxt (EBinaryOp l bop right)) (ts2 @ rest)"
    using ts(3) wf(2) prec_less[of bop] level_ops_kind[of ?P bop] by (simp add: continue_at_def peek_def pbind_def skip_def advance_Cons)
  also have "?nxt (ts2 @ rest) = continue_at n (Suc ?P) r rest"
    using ts a by (intro reads_atD[OF assms(2)]) (auto intro: stops_at_mono)
  then have "pbind ?nxt (\<lambda>right. binary_loop n (level_ops ?P) ?nxt (EBinaryOp l bop right)) (ts2 @ rest) = binary_loop n (level_ops ?P) ?nxt ?e rest"
    using continue_stops[OF a(4), of n r] prec_less[of bop] by (simp add: pbind_def)
  also have "\<dots> = binary_loop (Suc n) (level_ops ?P) ?nxt ?e rest"
    using a(2,3) ts(1) by (intro binary_loop_fuel[where ops = "level_ops ?P", OF returns_parse_level level_ops_eof]) auto
  finally show "parse_level (Suc n) (parse_expr n) ?P (ts @ rest) = continue_at n ?P ?e rest"
    using ts(1) prec_less[of bop] by (simp add: continue_at_def)
qed

lemma dotted_variable:
  "CHR ''.'' \<in> set s \<Longrightarrow> \<not> header_like (dot_parts s) \<Longrightarrow> dotted_expr (dot_parts s) = EVariable s"
  by (auto simp: dotted_expr_def header_like_def join_split)

lemma dotted_header: "dotted_expr (obj # ''http'' # dot_parts h) = EHeaderRef obj h"
proof -
  have "length (dot_parts h) > 0" using split_char_ne[of "CHR ''.''" h] by blast
  then show ?thesis by (simp add: dotted_expr_def join_split numeral_2_eq_2 Suc_le_eq)
qed

lemma dot_parts_Cons: "CHR ''.'' \<in> set s \<Longrightarrow> \<exists>p ps. dot_parts s = p # ps \<and> ps \<noteq> []"
  using length_split[of "CHR ''.''" s] by (cases "dot_parts s") auto

lemma reads_dotted_postfix:
  assumes "ps \<noteq> []"
  shows "reads_kinds (Suc n) postfix_end (parse_postfix (Suc n) (parse_expr n)) (dotted_kinds (p # ps)) (dotted_expr (p # ps))"
  by (rule reads_postfix_primary, rule reads_weaken[OF reads_dotted[OF order_refl assms]]) (auto simp: postfix_end_def)

lemma dotted_starts: "\<exists>k ks. dotted_kinds (p # ps) = k # ks \<and> starts_operand k"
  by (simp add: dotted_kinds_Cons starts_operand_def)

lemma called_method:
  assumes "CHR ''.'' \<notin> set m" "\<not> header_like (dot_parts s @ [m])"
  shows "called (dotted_expr (dot_parts s @ [m])) args = EMethodCall (EVariable s) m args"
proof -
  have "dot_parts (join_with ''.'' (dot_parts s @ [m])) = dot_parts s @ [m]"
    using assms(1) split_parts[of _ "CHR ''.''" s] by (intro split_join) auto
  then have "rsplit_dot (join_with ''.'' (dot_parts s @ [m])) = Some (s, m)"
    using split_char_ne[of "CHR ''.''" s] by (simp add: rsplit_dot_def Let_def join_split)
  then show ?thesis using assms(2) by (auto simp: called_def dotted_expr_def header_like_def)
qed

text \<open>Every expression of the grammar starts with a token that can start an operand or is a unary operator.\<close>

lemma expr_starts:
  "expr_ok e \<Longrightarrow> \<exists>k ks. expr_kinds e = k # ks \<and> (starts_operand k \<or> k = TK_Not \<or> k = TK_Minus)"
proof (induction e)
  case (EVariable s)
  then obtain p ps where "dot_parts s = p # ps" using dot_parts_Cons[of s] by auto
  then show ?case using dotted_starts[of p ps] by auto
next
  case (EHeaderRef obj h)
  then show ?case using dotted_starts[of obj "''http'' # dot_parts h"] by auto
next
  case (EBinaryOp l bop r)
  then show ?case by (auto simp: parenthesised_def starts_operand_def)
next
  case (EUnaryOp uop e)
  then show ?case by (cases uop) auto
next
  case (EMethodCall obj m args)
  then obtain s where "obj = EVariable s" by (auto split: expr.splits)
  moreover obtain p ps where "dot_parts s @ [m] = p # ps" by (cases "dot_parts s") auto
  ultimately show ?case using dotted_starts[of p ps] by auto
qed (auto simp: starts_operand_def)

lemma reads_at_literal:
  assumes "L \<le> 5"
  shows "reads_at (EStringLit s) L" "reads_at (EIntLit v) L" "reads_at (ERealLit r) L" "reads_at (EDurationLit r) L" "reads_at (EBoolLit b) L"
    "reads_at (EIdent s) L"
proof -
  have "reads_kinds (Suc n) postfix_end (parse_primary (Suc n) (parse_expr n)) [TK_Ident s] (EIdent s)" for n
    by (rule reads_weaken[OF reads_single_ident]) (auto simp: postfix_end_def)
  from reads_postfix_primary[OF this] show "reads_at (EIdent s) L"
    by (intro reads_at_postfix[OF _ _ _ assms]) (simp_all add: starts_operand_def expr_level_def)
qed (rule reads_at_postfix[OF _ _ _ assms], unfold expr_kinds.simps, rule reads_postfix_primary, rule reads_primary_literal, simp add: starts_operand_def, simp add: expr_level_def)+

lemma reads_ok: "expr_ok e \<Longrightarrow> L \<le> 5 \<Longrightarrow> reads_at e L"
proof (induction e arbitrary: L)
  case (EVariable s)
  then obtain p ps where "dot_parts s = p # ps" "ps \<noteq> []" using dot_parts_Cons[of s] by auto
  then show ?case using EVariable reads_dotted_postfix[of ps _ p] dotted_starts[of p ps] dotted_variable[of s]
    by (intro reads_at_postfix) (auto simp: expr_level_def)
next
  case (EHeaderRef obj h)
  show ?case using reads_dotted_postfix[of "''http'' # dot_parts h" _ obj] dotted_starts[of obj "''http'' # dot_parts h"] EHeaderRef
    by (intro reads_at_postfix) (auto simp: expr_level_def dotted_header)
next
  case (EBinaryOp l bop r)
  have "reads_at l (prec bop)" "reads_at r (Suc (prec bop))" using EBinaryOp prec_less[of bop] by auto
  from reads_at_binary[OF this] show ?case using EBinaryOp.prems(2) prec_less[of bop] by - (rule reads_at_levels, auto simp: expr_level_def min_def)
next
  case (EUnaryOp uop e)
  then show ?case using reads_at_unary[of e uop] by - (rule reads_at_levels, auto simp: expr_level_def)
next
  case (EFunctionCall name args)
  then have args: "\<forall>e \<in> set args. reads_at e 0" by (auto simp: list_all_iff)
  have "args \<noteq> [] \<Longrightarrow> hd (expr_kinds (hd args)) \<noteq> TK_RParen \<and> expr_kinds (hd args) \<noteq> []"
    using expr_starts[of "hd args"] EFunctionCall.prems by (auto simp: list_all_iff starts_operand_def)
  note al = reads_arg_list[OF args _ this]
  have "reads_kinds (Suc n) postfix_end (parse_postfix (Suc n) (parse_expr n)) (expr_kinds (EFunctionCall name args)) (EFunctionCall name args)" for n
    using reads_call[OF reads_single_ident[of "Suc n" "Suc n" "parse_expr n" name] _ al] by (simp add: called_def)
  then show ?case using EFunctionCall.prems by (intro reads_at_postfix) (auto simp: expr_level_def starts_operand_def)
next
  case (EMethodCall obj m args)
  then obtain s where obj: "obj = EVariable s" "CHR ''.'' \<notin> set m" "\<not> header_like (dot_parts s @ [m])" by (auto split: expr.splits)
  have args: "\<forall>e \<in> set args. reads_at e 0" using EMethodCall by (auto simp: list_all_iff)
  have "args \<noteq> [] \<Longrightarrow> hd (expr_kinds (hd args)) \<noteq> TK_RParen \<and> expr_kinds (hd args) \<noteq> []"
    using expr_starts[of "hd args"] EMethodCall.prems by (auto simp: list_all_iff starts_operand_def)
  note al = reads_arg_list[OF args _ this]
  obtain p ps where ps: "dot_parts s @ [m] = p # ps" "ps \<noteq> []"
    using split_char_ne[of "CHR ''.''" s] by (cases "dot_parts s") auto
  have "\<exists>x. dotted_expr (p # ps) = EVariable x" using obj(3) unfolding ps by (auto simp: dotted_expr_def header_like_def)
  then have "reads_kinds (Suc n) postfix_end (parse_postfix (Suc n) (parse_expr n)) (expr_kinds (EMethodCall obj m args)) (EMethodCall obj m args)" for n
    using reads_call[OF reads_dotted[where n = "Suc n" and p = "parse_expr n" and first = p, OF order_refl ps(2)] _ al] called_method[OF obj(2,3), of args] obj(1) ps(1) by simp
  then show ?case using EMethodCall.prems dotted_starts[of p ps] obj(1) ps(1)
    by (intro reads_at_postfix) (auto simp: expr_level_def)
qed (simp_all add: reads_at_literal)

lemma wf_eof: "tok_kind t = TK_Eof \<Longrightarrow> wf_tokens [t]"
  by (simp add: wf_tokens_def)

lemma layout_tokens:
  assumes "layout_ok ls" "list_all gap_ok g0"
  obtains ts t where "tokenize (layout_text g0 ls) = Inr (ts @ [t])" "map tok_kind ts = layout_kinds ls" "tok_kind t = TK_Eof"
proof -
  obtain toks where toks: "tokenize (layout_text g0 ls) = Inr toks" "map tok_kind toks = layout_kinds ls @ [TK_Eof]"
    using tokens_of_layout[OF assms] by (auto simp: tokenize_def lexer_new_def)
  then obtain ts t where "toks = ts @ [t]" by (cases toks rule: rev_cases) auto
  then show ?thesis using toks that by simp
qed

text \<open>
  C32: Every expression of the grammar, printed with parentheses only where precedence or
  associativity needs them and laid out in any way, is read back by the lexer and the expression parser
  as the same tree, with all tokens consumed.
\<close>

theorem expr_round_trip:
  assumes "expr_ok e" "layout_ok ls" "list_all gap_ok g0" "layout_kinds ls = expr_kinds e"
  shows "\<exists>toks eof. tokenize (layout_text g0 ls) = Inr toks \<and> tok_kind eof = TK_Eof \<and>
    parse_expr (length toks) toks = Some (Inr (e, [eof]))"
proof -
  obtain ts t where ts: "tokenize (layout_text g0 ls) = Inr (ts @ [t])" "map tok_kind ts = expr_kinds e" "tok_kind t = TK_Eof"
    using layout_tokens[OF assms(2,3)] assms(4) by metis
  have "stops_at 0 (peek [t])" using ts(3) by (simp add: peek_def stops_at_def level_ops_eof)
  then have "parse_expr (length (ts @ [t])) (ts @ [t]) = Some (Inr (e, [t]))"
    by (intro reads_kindsD[OF reads_at_expr[OF reads_ok[OF assms(1)] order_refl] ts(2) wf_eof[OF ts(3)]]) simp_all
  then show ?thesis using ts by blast
qed

definition demo_expr :: expr where
  "demo_expr = EBinaryOp (EBinaryOp (EIdent ''a'') BO_Or (EIdent ''b'')) BO_And (EBinaryOp (EHeaderRef ''req'' ''X'') BO_Match (EStringLit ''c''))"

definition demo_expr_layout :: layout where
  "demo_expr_layout = map (\<lambda>l. (l, CHR '' '', []))
     [LX_Symbol TK_LParen, LX_Ident ''a'', LX_Symbol TK_Or, LX_Ident ''b'', LX_Symbol TK_RParen, LX_Symbol TK_And,
      LX_Ident ''req'', LX_Symbol TK_Dot, LX_Ident ''http'', LX_Symbol TK_Dot, LX_Ident ''X'', LX_Symbol TK_Match, LX_String ''c'']"

theorem expr_round_trip_witness:
  "layout_ok demo_expr_layout \<and>
   (\<exists>toks eof. tokenize (layout_text [] demo_expr_layout) = Inr toks \<and> parse_expr (length toks) toks = Some (Inr (demo_expr, [eof])))"
proof -
  have "expr_ok demo_expr" by (simp add: demo_expr_def)
  moreover have l: "layout_ok demo_expr_layout"
    by (simp add: layout_ok_def demo_expr_layout_def is_blank_def KEYWORDS_def SYMBOLS_def is_alpha_def ident_char_def is_alnum_def ascii_str_def in_range_def)
  moreover have "layout_kinds demo_expr_layout = expr_kinds demo_expr"
    by (simp add: layout_kinds_def demo_expr_layout_def demo_expr_def parenthesised_def expr_level_def)
  ultimately show ?thesis using expr_round_trip[of demo_expr demo_expr_layout "[]"] by auto
qed

end
