(* ===== verification/Vcl_Interp.thy ===== *)
theory Vcl_Interp
  imports Vcl_Parser Http_Headers
begin

text \<open>
  The interpreter of VCL (rv-vcl, \<open>interpreter.rs\<close>, \<open>resolver.rs\<close>).  The four messages and the other
  fields of the context are a record that execution returns updated; expressions only read it.  The
  regular expression library, the clock and the functions of VMODs are not part of this crate: they are
  the fields of \<open>interp_env\<close>.  Calls of subroutines nest on the native stack without a bound, so
  execution takes the depth of calls as fuel: \<open>None\<close> is a call stack that is exhausted.
\<close>

section \<open>Actions and results\<close>

datatype (plugins only: size) interp_action =
  IA_Deliver | IA_Pass | IA_Pipe | IA_Hash | IA_Lookup | IA_Fetch | IA_Synth | IA_Purge | IA_Restart
  | IA_Retry | IA_Abandon | IA_Fail | IA_Error | IA_Ok

primrec to_types_action :: "interp_action \<Rightarrow> vcl_action" where
  "to_types_action IA_Deliver = A_Deliver"
| "to_types_action IA_Pass = A_Pass"
| "to_types_action IA_Pipe = A_Pipe"
| "to_types_action IA_Hash = A_Hash"
| "to_types_action IA_Lookup = A_Lookup"
| "to_types_action IA_Fetch = A_Fetch"
| "to_types_action IA_Synth = A_Synth"
| "to_types_action IA_Purge = A_Purge"
| "to_types_action IA_Restart = A_Restart"
| "to_types_action IA_Retry = A_Retry"
| "to_types_action IA_Abandon = A_Abandon"
| "to_types_action IA_Fail = A_Fail"
| "to_types_action IA_Error = A_Error"
| "to_types_action IA_Ok = A_Ok"

definition action_from_name :: "string \<Rightarrow> interp_action option" where
  "action_from_name name = map_of
     [(''deliver'', IA_Deliver), (''pass'', IA_Pass), (''pipe'', IA_Pipe), (''hash'', IA_Hash), (''lookup'', IA_Lookup),
      (''fetch'', IA_Fetch), (''synth'', IA_Synth), (''purge'', IA_Purge), (''restart'', IA_Restart), (''retry'', IA_Retry),
      (''abandon'', IA_Abandon), (''fail'', IA_Fail), (''error'', IA_Error), (''ok'', IA_Ok)] name"

datatype vcl_exec_result = ER_Action interp_action | ER_Fallthrough | ER_Error string

datatype control_flow = CF_Continue | CF_Return interp_action | CF_Error string

record vcl_context =
  vc_req :: http_message
  vc_resp :: http_message
  vc_bereq :: http_message
  vc_beresp :: http_message
  vc_client_ip :: ip_addr
  vc_server_ip :: ip_addr
  vc_is_ssl :: bool
  vc_restarts :: u32
  vc_obj_hits :: i64
  vc_obj_ttl :: f64
  vc_obj_grace :: f64
  vc_obj_keep :: f64
  vc_synth_body :: "string option"
  vc_synth_status :: "u16 option"
  vc_local_vars :: "string \<rightharpoonup> vcl_value"
  vc_do_gzip :: bool
  vc_do_gunzip :: bool
  vc_uncacheable :: bool
  vc_req_body :: "u8 list option"
  vc_resp_body :: "u8 list option"

definition vcl_context_new :: "http_message \<Rightarrow> http_message \<Rightarrow> http_message \<Rightarrow> http_message \<Rightarrow> vcl_context" where
  "vcl_context_new req resp bereq beresp =
     \<lparr>vc_req = req, vc_resp = resp, vc_bereq = bereq, vc_beresp = beresp,
      vc_client_ip = V4 127 0 0 1, vc_server_ip = V4 127 0 0 1, vc_is_ssl = False, vc_restarts = 0,
      vc_obj_hits = 0, vc_obj_ttl = Num 0, vc_obj_grace = Num 0, vc_obj_keep = Num 0,
      vc_synth_body = None, vc_synth_status = None, vc_local_vars = Map.empty, vc_do_gzip = False, vc_do_gunzip = False,
      vc_uncacheable = False, vc_req_body = None, vc_resp_body = None\<rparr>"

section \<open>The interpreter\<close>

record 're interp_env =
  ie_regex_new :: "string \<Rightarrow> (string, 're) result"
  ie_is_match :: "'re \<Rightarrow> string \<Rightarrow> bool"
  ie_replace :: "'re \<Rightarrow> string \<Rightarrow> string \<Rightarrow> string"
  ie_replace_all :: "'re \<Rightarrow> string \<Rightarrow> string \<Rightarrow> string"
  ie_now :: vtim_real
  ie_resolver :: "(string \<Rightarrow> string \<Rightarrow> vcl_value list \<Rightarrow> (string, vcl_value) result) option"

record vcl_interpreter =
  vi_program :: vcl_program
  vi_sub_index :: "string \<rightharpoonup> nat"

definition interpreter_new :: "vcl_program \<Rightarrow> vcl_interpreter" where
  "interpreter_new program =
     \<lparr>vi_program = program,
      vi_sub_index = foldl (\<lambda>ix (i, s). ix(sub_name s \<mapsto> i)) Map.empty (enumerate 0 (vp_subs program))\<rparr>"

definition has_subroutine :: "vcl_interpreter \<Rightarrow> string \<Rightarrow> bool" where
  "has_subroutine vi name \<longleftrightarrow> vi_sub_index vi name \<noteq> None"

text \<open>
  The compiled expressions are cached by their pattern.  As compilation is a function of the pattern,
  a cached expression is the one that compiling again would give (\<open>cached_regex\<close> below), so
  \<open>compile_regex\<close> stands for the cached call in the definitions that follow.
\<close>

definition compile_regex :: "('re, 'm) interp_env_scheme \<Rightarrow> string \<Rightarrow> (string, 're) result" where
  "compile_regex env pattern = map_sum (\<lambda>e. ''regex error: '' @ e) id (ie_regex_new env pattern)"

definition get_or_compile_regex :: "('re, 'm) interp_env_scheme \<Rightarrow> string \<Rightarrow> (string \<rightharpoonup> 're) \<Rightarrow> (string \<rightharpoonup> 're) \<times> (string, 're) result" where
  "get_or_compile_regex env pattern cache =
     (case cache pattern of
        Some re \<Rightarrow> (cache, Inr re)
      | None \<Rightarrow> (case compile_regex env pattern of Inl e \<Rightarrow> (cache, Inl e) | Inr re \<Rightarrow> (cache(pattern \<mapsto> re), Inr re)))"

section \<open>Variables\<close>

definition header_or_empty :: "http_message \<Rightarrow> string \<Rightarrow> vcl_value" where
  "header_or_empty m name = VString (case get_header m name of Some v \<Rightarrow> v | None \<Rightarrow> [])"

definition header_message :: "vcl_context \<Rightarrow> string \<Rightarrow> (http_message \<times> string) option" where
  "header_message ctx name =
     (case strip_prefix ''req.http.'' name of Some h \<Rightarrow> Some (vc_req ctx, h) | None \<Rightarrow>
      case strip_prefix ''resp.http.'' name of Some h \<Rightarrow> Some (vc_resp ctx, h) | None \<Rightarrow>
      case strip_prefix ''bereq.http.'' name of Some h \<Rightarrow> Some (vc_bereq ctx, h) | None \<Rightarrow>
      case strip_prefix ''beresp.http.'' name of Some h \<Rightarrow> Some (vc_beresp ctx, h) | None \<Rightarrow> None)"

definition status_int :: "http_message \<Rightarrow> vcl_value" where
  "status_int m = VInt (ucast (status_code (msg_status m)))"

definition builtin_variables :: "vtim_real \<Rightarrow> vcl_context \<Rightarrow> (string \<times> vcl_value) list" where
  "builtin_variables now ctx =
    [(''req.url'', VString (msg_url (vc_req ctx))),
     (''req.method'', VString (method_name (msg_method (vc_req ctx)))),
     (''req.proto'', VString (version_str (msg_protocol (vc_req ctx)))),
     (''req.restarts'', VInt (ucast (vc_restarts ctx))),
     (''req.is_ssl'', VBool (vc_is_ssl ctx)), (''req.is_tls'', VBool (vc_is_ssl ctx)),
     (''bereq.url'', VString (msg_url (vc_bereq ctx))),
     (''bereq.method'', VString (method_name (msg_method (vc_bereq ctx)))),
     (''bereq.proto'', VString (version_str (msg_protocol (vc_bereq ctx)))),
     (''beresp.status'', status_int (vc_beresp ctx)),
     (''beresp.reason'', VString (msg_reason (vc_beresp ctx))),
     (''beresp.ttl'', VDuration (Num 120)),
     (''beresp.grace'', VDuration (Num 10)),
     (''beresp.keep'', VDuration (Num 0)),
     (''beresp.uncacheable'', VBool (vc_uncacheable ctx)),
     (''beresp.do_gzip'', VBool (vc_do_gzip ctx)),
     (''beresp.do_gunzip'', VBool (vc_do_gunzip ctx)),
     (''resp.status'', status_int (vc_resp ctx)),
     (''resp.reason'', VString (msg_reason (vc_resp ctx))),
     (''resp.proto'', VString (version_str (msg_protocol (vc_resp ctx)))),
     (''obj.hits'', VInt (vc_obj_hits ctx)),
     (''obj.ttl'', VDuration (vc_obj_ttl ctx)),
     (''obj.grace'', VDuration (vc_obj_grace ctx)),
     (''obj.keep'', VDuration (vc_obj_keep ctx)),
     (''client.ip'', VIp (vc_client_ip ctx)),
     (''server.ip'', VIp (vc_server_ip ctx)),
     (''now'', VReal now)]"

definition resolve_variable :: "vtim_real \<Rightarrow> string \<Rightarrow> vcl_context \<Rightarrow> vcl_value" where
  "resolve_variable now name ctx =
     (case map_of (builtin_variables now ctx) name of
        Some v \<Rightarrow> v
      | None \<Rightarrow>
         (case vc_local_vars ctx name of
            Some val \<Rightarrow> val
          | None \<Rightarrow> (case header_message ctx name of Some (m, h) \<Rightarrow> header_or_empty m h | None \<Rightarrow> VVoid)))"

definition apply_header_op :: "http_message \<Rightarrow> string \<Rightarrow> vcl_value \<Rightarrow> set_op \<Rightarrow> http_message" where
  "apply_header_op m name val sop =
     (case sop of
        SO_Assign \<Rightarrow> set_header m name (to_string_value val)
      | SO_Add \<Rightarrow> set_header m name ((case get_header m name of Some v \<Rightarrow> v | None \<Rightarrow> []) @ to_string_value val)
      | SO_Subtract \<Rightarrow> m)"

definition apply_duration_op :: "f64 \<Rightarrow> f64 \<Rightarrow> set_op \<Rightarrow> f64" where
  "apply_duration_op cur new_val sop =
     (case sop of SO_Assign \<Rightarrow> new_val | SO_Add \<Rightarrow> f_add cur new_val | SO_Subtract \<Rightarrow> f_sub cur new_val)"

definition set_url :: "vcl_value \<Rightarrow> set_op \<Rightarrow> http_message \<Rightarrow> http_message" where
  "set_url val sop m =
     (case sop of
        SO_Assign \<Rightarrow> m\<lparr>msg_url := to_string_value val\<rparr>
      | SO_Add \<Rightarrow> m\<lparr>msg_url := msg_url m @ to_string_value val\<rparr>
      | SO_Subtract \<Rightarrow> m)"

definition set_method :: "vcl_value \<Rightarrow> http_message \<Rightarrow> http_message" where
  "set_method val m = m\<lparr>msg_method := parse_method (to_string_value val)\<rparr>"

definition set_status :: "vcl_value \<Rightarrow> http_message \<Rightarrow> http_message" where
  "set_status val m = m\<lparr>msg_status := HttpStatus (ucast (to_int val))\<rparr>"

definition set_duration :: "string \<Rightarrow> f64 \<Rightarrow> vcl_value \<Rightarrow> set_op \<Rightarrow> vcl_context \<Rightarrow> vcl_context" where
  "set_duration name dflt val sop ctx =
     (let cur = (case vc_local_vars ctx name of Some v \<Rightarrow> to_duration_secs v | None \<Rightarrow> dflt) in
      ctx\<lparr>vc_local_vars := (vc_local_vars ctx)(name \<mapsto> VDuration (apply_duration_op cur (to_duration_secs val) sop))\<rparr>)"

text \<open>The header variables, or a local variable.\<close>

definition set_other :: "string \<Rightarrow> vcl_value \<Rightarrow> set_op \<Rightarrow> vcl_context \<Rightarrow> vcl_context" where
  "set_other name val sop ctx =
     (case strip_prefix ''req.http.'' name of Some h \<Rightarrow> ctx\<lparr>vc_req := apply_header_op (vc_req ctx) h val sop\<rparr> | None \<Rightarrow>
      case strip_prefix ''resp.http.'' name of Some h \<Rightarrow> ctx\<lparr>vc_resp := apply_header_op (vc_resp ctx) h val sop\<rparr> | None \<Rightarrow>
      case strip_prefix ''bereq.http.'' name of Some h \<Rightarrow> ctx\<lparr>vc_bereq := apply_header_op (vc_bereq ctx) h val sop\<rparr> | None \<Rightarrow>
      case strip_prefix ''beresp.http.'' name of Some h \<Rightarrow> ctx\<lparr>vc_beresp := apply_header_op (vc_beresp ctx) h val sop\<rparr> | None \<Rightarrow>
      ctx\<lparr>vc_local_vars := (vc_local_vars ctx)(name \<mapsto> val)\<rparr>)"

definition set_variable :: "string \<Rightarrow> vcl_value \<Rightarrow> set_op \<Rightarrow> vcl_context \<Rightarrow> vcl_context" where
  "set_variable name val sop ctx =
     (let assign = (\<lambda>c. if sop = SO_Assign then c else ctx) in
      if name = ''req.url'' then ctx\<lparr>vc_req := set_url val sop (vc_req ctx)\<rparr>
      else if name = ''req.method'' then assign (ctx\<lparr>vc_req := set_method val (vc_req ctx)\<rparr>)
      else if name = ''bereq.url'' then ctx\<lparr>vc_bereq := set_url val sop (vc_bereq ctx)\<rparr>
      else if name = ''bereq.method'' then assign (ctx\<lparr>vc_bereq := set_method val (vc_bereq ctx)\<rparr>)
      else if name = ''beresp.status'' then assign (ctx\<lparr>vc_beresp := set_status val (vc_beresp ctx)\<rparr>)
      else if name = ''beresp.reason'' then assign (ctx\<lparr>vc_beresp := (vc_beresp ctx)\<lparr>msg_reason := to_string_value val\<rparr>\<rparr>)
      else if name = ''beresp.ttl'' then set_duration name (Num 120) val sop ctx
      else if name = ''beresp.grace'' then set_duration name (Num 10) val sop ctx
      else if name = ''beresp.keep'' then set_duration name (Num 0) val sop ctx
      else if name = ''beresp.uncacheable'' then assign (ctx\<lparr>vc_uncacheable := to_bool val\<rparr>)
      else if name = ''beresp.do_gzip'' then assign (ctx\<lparr>vc_do_gzip := to_bool val\<rparr>)
      else if name = ''beresp.do_gunzip'' then assign (ctx\<lparr>vc_do_gunzip := to_bool val\<rparr>)
      else if name = ''resp.status'' then assign (ctx\<lparr>vc_resp := set_status val (vc_resp ctx)\<rparr>)
      else if name = ''resp.reason'' then assign (ctx\<lparr>vc_resp := (vc_resp ctx)\<lparr>msg_reason := to_string_value val\<rparr>\<rparr>)
      else set_other name val sop ctx)"

definition unset_variable :: "string \<Rightarrow> vcl_context \<Rightarrow> vcl_context" where
  "unset_variable name ctx =
     (case strip_prefix ''req.http.'' name of Some h \<Rightarrow> ctx\<lparr>vc_req := unset_header (vc_req ctx) h\<rparr> | None \<Rightarrow>
      case strip_prefix ''resp.http.'' name of Some h \<Rightarrow> ctx\<lparr>vc_resp := unset_header (vc_resp ctx) h\<rparr> | None \<Rightarrow>
      case strip_prefix ''bereq.http.'' name of Some h \<Rightarrow> ctx\<lparr>vc_bereq := unset_header (vc_bereq ctx) h\<rparr> | None \<Rightarrow>
      case strip_prefix ''beresp.http.'' name of Some h \<Rightarrow> ctx\<lparr>vc_beresp := unset_header (vc_beresp ctx) h\<rparr> | None \<Rightarrow>
      ctx\<lparr>vc_local_vars := (vc_local_vars ctx)(name := None)\<rparr>)"

section \<open>Expressions\<close>

definition eval_binary_op :: "('re, 'm) interp_env_scheme \<Rightarrow> vcl_value \<Rightarrow> bin_op \<Rightarrow> vcl_value \<Rightarrow> (string, vcl_value) result" where
  "eval_binary_op env left bop right =
     (case bop of
        BO_Eq \<Rightarrow> Inr (VBool (to_string_value left = to_string_value right))
      | BO_Neq \<Rightarrow> Inr (VBool (to_string_value left \<noteq> to_string_value right))
      | BO_Gt \<Rightarrow> Inr (VBool (f_gt (to_real left) (to_real right)))
      | BO_Lt \<Rightarrow> Inr (VBool (f_lt (to_real left) (to_real right)))
      | BO_Gte \<Rightarrow> Inr (VBool (f_ge (to_real left) (to_real right)))
      | BO_Lte \<Rightarrow> Inr (VBool (f_le (to_real left) (to_real right)))
      | BO_And \<Rightarrow> Inr (VBool (to_bool left \<and> to_bool right))
      | BO_Or \<Rightarrow> Inr (VBool (to_bool left \<or> to_bool right))
      | BO_Add \<Rightarrow>
          (case (left, right) of
             (VInt a, VInt b) \<Rightarrow> Inr (VInt (a + b))
           | (VDuration a, VDuration b) \<Rightarrow> Inr (VDuration (f_add a b))
           | (VString a, _) \<Rightarrow> Inr (VString (a @ to_string_value right))
           | _ \<Rightarrow> Inr (VReal (f_add (to_real left) (to_real right))))
      | BO_Sub \<Rightarrow>
          (case (left, right) of
             (VInt a, VInt b) \<Rightarrow> Inr (VInt (a - b))
           | (VDuration a, VDuration b) \<Rightarrow> Inr (VDuration (f_sub a b))
           | _ \<Rightarrow> Inr (VReal (f_sub (to_real left) (to_real right))))
      | BO_Mul \<Rightarrow> Inr (VReal (f_mul (to_real left) (to_real right)))
      | BO_Div \<Rightarrow>
          (if f_eq (to_real right) (Num 0) then Inl ''division by zero''
           else Inr (VReal (f_div (to_real left) (to_real right))))
      | BO_Match \<Rightarrow>
          map_sum id (\<lambda>re. VBool (ie_is_match env re (to_string_value left))) (compile_regex env (to_string_value right))
      | BO_NotMatch \<Rightarrow>
          map_sum id (\<lambda>re. VBool (\<not> ie_is_match env re (to_string_value left))) (compile_regex env (to_string_value right)))"

definition regsub :: "('re, 'm) interp_env_scheme \<Rightarrow> string \<Rightarrow> ('re \<Rightarrow> string \<Rightarrow> string \<Rightarrow> string) \<Rightarrow> vcl_value list \<Rightarrow> (string, vcl_value) result" where
  "regsub env name rep args =
     (case args of
        a0 # a1 # a2 # _ \<Rightarrow>
          map_sum id (\<lambda>re. VString (rep re (to_string_value a0) (to_string_value a2))) (compile_regex env (to_string_value a1))
      | _ \<Rightarrow> Inl (name @ '' requires 3 arguments''))"

definition call_builtin :: "('re, 'm) interp_env_scheme \<Rightarrow> string \<Rightarrow> vcl_value list \<Rightarrow> (string, vcl_value) result" where
  "call_builtin env name args =
     (if name = ''regsub'' then regsub env name (ie_replace env) args
      else if name = ''regsuball'' then regsub env name (ie_replace_all env) args
      else if name = ''hash_data'' then Inr VVoid
      else if name = ''ban'' then Inr VVoid
      else if name = ''return'' then Inr VVoid
      else (case split_once ''.'' name of
              None \<Rightarrow> Inr VVoid
            | Some (vmod, func) \<Rightarrow>
                (case ie_resolver env of None \<Rightarrow> Inr VVoid | Some resolver \<Rightarrow> resolver vmod func args)))"

definition call_method :: "vcl_value \<Rightarrow> string \<Rightarrow> vcl_value list \<Rightarrow> (string, vcl_value) result" where
  "call_method object method args = Inr VVoid"

definition eval_header_ref :: "vcl_context \<Rightarrow> string \<Rightarrow> string \<Rightarrow> (string, vcl_value) result" where
  "eval_header_ref ctx obj header_name =
     (if obj = ''req'' then Inr (header_or_empty (vc_req ctx) header_name)
      else if obj = ''resp'' then Inr (header_or_empty (vc_resp ctx) header_name)
      else if obj = ''bereq'' then Inr (header_or_empty (vc_bereq ctx) header_name)
      else if obj = ''beresp'' then Inr (header_or_empty (vc_beresp ctx) header_name)
      else Inl (''unknown object: '' @ obj))"

fun eval_expr :: "('re, 'm) interp_env_scheme \<Rightarrow> vcl_context \<Rightarrow> expr \<Rightarrow> (string, vcl_value) result"
and eval_args :: "('re, 'm) interp_env_scheme \<Rightarrow> vcl_context \<Rightarrow> expr list \<Rightarrow> (string, vcl_value list) result" where
  "eval_expr env ctx (EStringLit s) = Inr (VString s)"
| "eval_expr env ctx (EIntLit i) = Inr (VInt i)"
| "eval_expr env ctx (ERealLit r) = Inr (VReal r)"
| "eval_expr env ctx (EDurationLit d) = Inr (VDuration d)"
| "eval_expr env ctx (EBoolLit b) = Inr (VBool b)"
| "eval_expr env ctx (EIdent name) =
     (case vc_local_vars ctx name of Some val \<Rightarrow> Inr val | None \<Rightarrow> Inr (VString name))"
| "eval_expr env ctx (EVariable name) = Inr (resolve_variable (ie_now env) name ctx)"
| "eval_expr env ctx (EHeaderRef obj header_name) = eval_header_ref ctx obj header_name"
| "eval_expr env ctx (EBinaryOp left bop right) =
     (case eval_expr env ctx left of Inl e \<Rightarrow> Inl e | Inr lval \<Rightarrow>
      case eval_expr env ctx right of Inl e \<Rightarrow> Inl e | Inr rval \<Rightarrow> eval_binary_op env lval bop rval)"
| "eval_expr env ctx (EUnaryOp uop operand) =
     (case eval_expr env ctx operand of
        Inl e \<Rightarrow> Inl e
      | Inr val \<Rightarrow> Inr (case uop of UO_Not \<Rightarrow> VBool (\<not> to_bool val) | UO_Negate \<Rightarrow> VInt (- to_int val)))"
| "eval_expr env ctx (EFunctionCall name args) =
     (case eval_args env ctx args of Inl e \<Rightarrow> Inl e | Inr vals \<Rightarrow> call_builtin env name vals)"
| "eval_expr env ctx (EMethodCall object method args) =
     (case eval_expr env ctx object of Inl e \<Rightarrow> Inl e | Inr obj_val \<Rightarrow>
      case eval_args env ctx args of Inl e \<Rightarrow> Inl e | Inr vals \<Rightarrow> call_method obj_val method vals)"
| "eval_expr env ctx (ERegexLit pattern) = Inr (VString pattern)"
| "eval_expr env ctx (EConcat parts) =
     (case eval_args env ctx parts of Inl e \<Rightarrow> Inl e | Inr vals \<Rightarrow> Inr (VString (concat (map to_string_value vals))))"
| "eval_args env ctx [] = Inr []"
| "eval_args env ctx (arg # args) =
     (case eval_expr env ctx arg of Inl e \<Rightarrow> Inl e | Inr v \<Rightarrow>
      case eval_args env ctx args of Inl e \<Rightarrow> Inl e | Inr vs \<Rightarrow> Inr (v # vs))"

section \<open>Statements\<close>

definition synth_args :: "('re, 'm) interp_env_scheme \<Rightarrow> expr list \<Rightarrow> vcl_context \<Rightarrow> vcl_context" where
  "synth_args env args ctx =
     (let ctx1 = (case args of
            [] \<Rightarrow> ctx
          | e # _ \<Rightarrow> (case eval_expr env ctx e of Inr val \<Rightarrow> ctx\<lparr>vc_synth_status := Some (ucast (to_int val))\<rparr> | Inl _ \<Rightarrow> ctx))
      in case args of
           _ # e # _ \<Rightarrow> (case eval_expr env ctx1 e of Inr val \<Rightarrow> ctx1\<lparr>vc_synth_body := Some (to_string_value val)\<rparr> | Inl _ \<Rightarrow> ctx1)
         | _ \<Rightarrow> ctx1)"

definition named_action :: "string \<Rightarrow> control_flow" where
  "named_action name =
     (case action_from_name name of Some a \<Rightarrow> CF_Return a | None \<Rightarrow> CF_Error (''unknown return action: '' @ name))"

definition handle_return :: "('re, 'm) interp_env_scheme \<Rightarrow> expr \<Rightarrow> vcl_context \<Rightarrow> control_flow \<times> vcl_context" where
  "handle_return env action ctx =
     (case action of
        EIdent name \<Rightarrow> (named_action name, ctx)
      | EVariable name \<Rightarrow> (named_action name, ctx)
      | EFunctionCall name args \<Rightarrow>
          (if name = ''synth'' then (CF_Return IA_Synth, synth_args env args ctx) else (named_action name, ctx))
      | _ \<Rightarrow> (CF_Error ''invalid return expression'', ctx))"

definition find_sub :: "vcl_interpreter \<Rightarrow> string \<Rightarrow> sub_decl option" where
  "find_sub vi name = map_option (\<lambda>idx. vp_subs (vi_program vi) ! idx) (vi_sub_index vi name)"

text \<open>The size of a chain of branches, for the termination of execution.\<close>

definition branches_size :: "(expr \<times> statement list) list \<Rightarrow> statement list option \<Rightarrow> nat" where
  "branches_size brs els = size_list (\<lambda>br. size_list size (snd br)) brs + size_option (size_list size) els"

lemma branches_size_less: "branches_size ((c, b) # ei) els \<le> size (SIf c b ei els)"
proof -
  have "size_list (\<lambda>x. size_list size (snd x)) ei \<le> size_list (size_prod (\<lambda>x. 0) (size_list size)) ei"
    by (rule size_list_pointwise) (auto split: prod.splits)
  then show ?thesis by (simp add: branches_size_def)
qed

text \<open>Statements, blocks and the chain of \<open>else if\<close> branches; the first argument bounds the nesting of calls.\<close>

function (sequential) exec_statement :: "nat \<Rightarrow> vcl_interpreter \<Rightarrow> ('re, 'm) interp_env_scheme \<Rightarrow> statement \<Rightarrow> vcl_context \<Rightarrow> (control_flow \<times> vcl_context) option"
and exec_block :: "nat \<Rightarrow> vcl_interpreter \<Rightarrow> ('re, 'm) interp_env_scheme \<Rightarrow> statement list \<Rightarrow> vcl_context \<Rightarrow> (control_flow \<times> vcl_context) option"
and exec_branches :: "nat \<Rightarrow> vcl_interpreter \<Rightarrow> ('re, 'm) interp_env_scheme \<Rightarrow> (expr \<times> statement list) list \<Rightarrow> statement list option \<Rightarrow> vcl_context \<Rightarrow> (control_flow \<times> vcl_context) option" where
  "exec_statement n vi env (SSet target sop value) ctx =
     Some (case eval_expr env ctx value of
             Inl e \<Rightarrow> (CF_Error e, ctx)
           | Inr val \<Rightarrow> (CF_Continue, set_variable target val sop ctx))"
| "exec_statement n vi env (SUnset target) ctx = Some (CF_Continue, unset_variable target ctx)"
| "exec_statement n vi env (SCall subroutine) ctx =
     (case find_sub vi subroutine of
        None \<Rightarrow> Some (CF_Error (''subroutine not found: '' @ subroutine), ctx)
      | Some s \<Rightarrow> (case n of 0 \<Rightarrow> None | Suc m \<Rightarrow> exec_block m vi env (sub_body s) ctx))"
| "exec_statement n vi env (SReturn action) ctx = Some (handle_return env action ctx)"
| "exec_statement n vi env (SIf condition body else_ifs else_body) ctx =
     exec_branches n vi env ((condition, body) # else_ifs) else_body ctx"
| "exec_statement n vi env (SSynthetic e) ctx =
     Some (case eval_expr env ctx e of
             Inl err \<Rightarrow> (CF_Error err, ctx)
           | Inr val \<Rightarrow> (CF_Continue, ctx\<lparr>vc_synth_body := Some (to_string_value val)\<rparr>))"
| "exec_statement n vi env (SBan e) ctx =
     Some (case eval_expr env ctx e of Inl err \<Rightarrow> (CF_Error err, ctx) | Inr _ \<Rightarrow> (CF_Continue, ctx))"
| "exec_statement n vi env (SNew name type_name args) ctx = Some (CF_Continue, ctx)"
| "exec_statement n vi env (SExpr e) ctx =
     Some (case eval_expr env ctx e of Inl err \<Rightarrow> (CF_Error err, ctx) | Inr _ \<Rightarrow> (CF_Continue, ctx))"
| "exec_block n vi env [] ctx = Some (CF_Continue, ctx)"
| "exec_block n vi env (stmt # stmts) ctx =
     (case exec_statement n vi env stmt ctx of
        Some (CF_Continue, ctx') \<Rightarrow> exec_block n vi env stmts ctx'
      | other \<Rightarrow> other)"
| "exec_branches n vi env [] else_body ctx =
     (case else_body of None \<Rightarrow> Some (CF_Continue, ctx) | Some b \<Rightarrow> exec_block n vi env b ctx)"
| "exec_branches n vi env ((cond, body) # branches) else_body ctx =
     (case eval_expr env ctx cond of
        Inl e \<Rightarrow> Some (CF_Error e, ctx)
      | Inr v \<Rightarrow> if to_bool v then exec_block n vi env body ctx else exec_branches n vi env branches else_body ctx)"
  by pat_completeness auto

termination
proof (relation "measures [\<lambda>x. case x of Inl (n, _) \<Rightarrow> n | Inr (Inl (n, _)) \<Rightarrow> n | Inr (Inr (n, _)) \<Rightarrow> n,
     \<lambda>x. case x of Inl (_, _, _, s, _) \<Rightarrow> 4 * size s + 2 | Inr (Inl (_, _, _, ss, _)) \<Rightarrow> 4 * size_list size ss + 1
       | Inr (Inr (_, _, _, brs, els, _)) \<Rightarrow> 4 * branches_size brs els]", goal_cases)
  case (3 n vi env c b ei els ctx)
  then show ?case using branches_size_less[of c b ei els] by simp
qed (auto simp: branches_size_def)

definition exec_subroutine :: "nat \<Rightarrow> vcl_interpreter \<Rightarrow> ('re, 'm) interp_env_scheme \<Rightarrow> string \<Rightarrow> vcl_context \<Rightarrow> (vcl_exec_result \<times> vcl_context) option" where
  "exec_subroutine n vi env name ctx =
     (case find_sub vi name of
        None \<Rightarrow> Some (ER_Fallthrough, ctx)
      | Some s \<Rightarrow>
          map_option (\<lambda>(cf, ctx'). (case cf of CF_Continue \<Rightarrow> ER_Fallthrough | CF_Return a \<Rightarrow> ER_Action a | CF_Error e \<Rightarrow> ER_Error e, ctx'))
            (exec_block n vi env (sub_body s) ctx))"

end
