(* ===== verification/Vcl_Exec.thy ===== *)
theory Vcl_Exec
  imports Vcl_Interp
begin

text \<open>
  What running VCL guarantees: the regular expression cache is transparent, execution ends when no
  subroutine calls itself, a checked program never ends in an error, assignments to headers are read
  back, and the facts about the connection and the cached object cannot be changed by VCL code.
\<close>

section \<open>The cache of regular expressions\<close>

definition cache_coherent :: "('re, 'm) interp_env_scheme \<Rightarrow> (string \<rightharpoonup> 're) \<Rightarrow> bool" where
  "cache_coherent env cache \<longleftrightarrow> (\<forall>pattern re. cache pattern = Some re \<longrightarrow> compile_regex env pattern = Inr re)"

lemma cached_regex:
  assumes "cache_coherent env cache"
  shows "snd (get_or_compile_regex env pattern cache) = compile_regex env pattern"
    and "cache_coherent env (fst (get_or_compile_regex env pattern cache))"
  using assms by (auto simp: cache_coherent_def get_or_compile_regex_def split: option.splits sum.splits)

section \<open>The statements of a block\<close>

text \<open>
  All simple statements of a block at any depth, with the conditions as expression statements.
\<close>

fun flat_stmt :: "statement \<Rightarrow> statement list"
and flat_block :: "statement list \<Rightarrow> statement list"
and flat_branches :: "(expr \<times> statement list) list \<Rightarrow> statement list"
and flat_else :: "statement list option \<Rightarrow> statement list" where
  "flat_stmt (SIf c b ei els) = SExpr c # flat_block b @ flat_branches ei @ flat_else els"
| "flat_stmt s = [s]"
| "flat_block [] = []"
| "flat_block (s # ss) = flat_stmt s @ flat_block ss"
| "flat_branches [] = []"
| "flat_branches ((c, b) # brs) = SExpr c # flat_block b @ flat_branches brs"
| "flat_else None = []"
| "flat_else (Some b) = flat_block b"

text \<open>The runs of blocks are related by every relation that the operations on the context respect.\<close>

locale exec_relation =
  fixes R :: "vcl_context \<Rightarrow> vcl_context \<Rightarrow> bool"
  assumes refl: "R c c"
    and trans: "R a b \<Longrightarrow> R b c \<Longrightarrow> R a c"
    and set_var: "R c (set_variable name v sop c)"
    and unset_var: "R c (unset_variable name c)"
    and synth_status: "R c (c\<lparr>vc_synth_status := st\<rparr>)"
    and synth_body: "R c (c\<lparr>vc_synth_body := sb\<rparr>)"
begin

lemma synth_args_related: "R c (synth_args env args c)"
  by (auto simp: synth_args_def Let_def refl split: list.splits sum.splits intro: synth_status synth_body trans)

lemma handle_return_related: "R c (snd (handle_return env a c))"
  using refl synth_args_related by (cases a) (auto simp: handle_return_def)

lemma exec_related:
  "exec_statement n vi env s c = Some (cf, c') \<Longrightarrow> R c c'"
  "exec_block n vi env ss c = Some (cf, c') \<Longrightarrow> R c c'"
  "exec_branches n vi env brs els c = Some (cf, c') \<Longrightarrow> R c c'"
proof (induction n vi env s c and n vi env ss c and n vi env brs els c arbitrary: cf c' and cf c' and cf c'
    rule: exec_statement_exec_block_exec_branches.induct)
  case (4 n vi env a c)
  then show ?case using handle_return_related[of c env a] by simp
qed (auto split: sum.splits option.splits nat.splits control_flow.splits prod.splits if_splits intro: refl set_var unset_var synth_body trans)

end

section \<open>Execution ends\<close>

lemma exec_block_step:
  assumes "exec_statement n vi env s c = Some (cf, c1)"
  shows "exec_block n vi env (s # ss) c = (if cf = CF_Continue then exec_block n vi env ss c1 else Some (cf, c1))"
  using assms by (cases cf) simp_all

text \<open>More room for nested calls does not change what a run returns.\<close>

lemma exec_more_fuel:
  "exec_statement n vi env s c = Some r \<Longrightarrow> n \<le> m \<Longrightarrow> exec_statement m vi env s c = Some r"
  "exec_block n vi env ss c = Some r \<Longrightarrow> n \<le> m \<Longrightarrow> exec_block m vi env ss c = Some r"
  "exec_branches n vi env brs els c = Some r \<Longrightarrow> n \<le> m \<Longrightarrow> exec_branches m vi env brs els c = Some r"
proof (induction n vi env s c and n vi env ss c and n vi env brs els c arbitrary: r m and r m and r m
    rule: exec_statement_exec_block_exec_branches.induct)
  case (3 n vi env name c)
  show ?case
  proof (cases "find_sub vi name")
    case (Some s)
    then obtain n' m' where nm: "n = Suc n'" "m = Suc m'" using 3(2,3) by (cases n; cases m) auto
    have "exec_block m' vi env (sub_body s) c = Some r"
      using 3(1)[OF Some nm(1), of r m'] 3(2,3) Some nm by simp
    then show ?thesis using Some nm by simp
  qed (use 3(2) in simp)
next
  case (11 n vi env s ss c)
  obtain cf c1 where s: "exec_statement n vi env s c = Some (cf, c1)" using 11(3) by (auto split: option.splits)
  then have m: "exec_statement m vi env s c = Some (cf, c1)" using 11(1) 11(4) by blast
  show ?case using 11(2)[OF s refl, of r m] 11(3,4) unfolding exec_block_step[OF s] exec_block_step[OF m] by (simp split: if_splits)
next
  case (12 n vi env els c)
  show ?case using 12(1)[of _ r m] 12(2,3) by (cases els) simp_all
next
  case (13 n vi env e b brs els c)
  show ?case using 13(1)[of _ r m] 13(2)[of _ r m] 13(3,4) by (cases "eval_expr env c e") (simp_all split: if_splits)
next
  case (5 n vi env e b ei els c)
  show ?case using 5(1)[of r m] 5(2,3) by (simp only: exec_statement.simps)
qed simp_all

definition call_graph :: "vcl_interpreter \<Rightarrow> (string \<times> string) set" where
  "call_graph vi = {(a, c). \<exists>s. find_sub vi a = Some s \<and> SCall c \<in> set (flat_block (sub_body s)) \<and> find_sub vi c \<noteq> None}"

definition call_depth :: "vcl_interpreter \<Rightarrow> string \<Rightarrow> nat" where
  "call_depth vi a = card ((call_graph vi)\<^sup>+ `` {a})"

lemma exec_returns:
  assumes depth: "\<And>a c. (a, c) \<in> call_graph vi \<Longrightarrow> d c < d a"
  shows "(\<And>c. SCall c \<in> set (flat_stmt s) \<Longrightarrow> find_sub vi c \<noteq> None \<Longrightarrow> d c < n) \<Longrightarrow> exec_statement n vi env s ctx \<noteq> None"
    and "(\<And>c. SCall c \<in> set (flat_block ss) \<Longrightarrow> find_sub vi c \<noteq> None \<Longrightarrow> d c < n) \<Longrightarrow> exec_block n vi env ss ctx \<noteq> None"
    and "(\<And>c. SCall c \<in> set (flat_branches brs @ flat_else els) \<Longrightarrow> find_sub vi c \<noteq> None \<Longrightarrow> d c < n) \<Longrightarrow>
      exec_branches n vi env brs els ctx \<noteq> None"
  using depth
proof (induction n vi env s ctx and n vi env ss ctx and n vi env brs els ctx
    rule: exec_statement_exec_block_exec_branches.induct)
  case (3 n vi env name ctx)
  show ?case
  proof (cases "find_sub vi name")
    case (Some s)
    then obtain m where m: "n = Suc m" "d name \<le> m" using 3(2)[of name] by (cases n) auto
    have "d c < m" if "SCall c \<in> set (flat_block (sub_body s))" "find_sub vi c \<noteq> None" for c
      using 3(3)[of name c] that Some m(2) by (force simp: call_graph_def)
    then show ?thesis using 3(1)[OF Some m(1) _ 3(3)] Some m(1) by simp
  qed simp
next
  case (11 n vi env s ss ctx)
  obtain cf c1 where s: "exec_statement n vi env s ctx = Some (cf, c1)" using 11(1)[OF 11(3,4)] by auto
  show ?case unfolding exec_block_step[OF s] using 11(2)[OF s refl] 11(3,4) by (simp split: if_splits)
next
  case (12 n vi env els ctx)
  then show ?case by (cases els) auto
next
  case (13 n vi env e b brs els ctx)
  then show ?case by (cases "eval_expr env ctx e") (auto split: if_splits)
qed simp_all

text \<open>The nesting of calls is at most the number of subroutines when none reaches itself.\<close>

lemma sub_index_range: "vi_sub_index (interpreter_new p) name = Some i \<Longrightarrow> name \<in> sub_name ` set (vp_subs p)"
proof -
  have "foldl (\<lambda>ix (i, s). ix(sub_name s \<mapsto> i)) m (enumerate k ss) name = Some i \<Longrightarrow> m name = Some i \<or> name \<in> sub_name ` set ss" for m k ss
    by (induction ss arbitrary: m k) (fastforce split: if_splits)+
  then show "vi_sub_index (interpreter_new p) name = Some i \<Longrightarrow> ?thesis" by (fastforce simp: interpreter_new_def)
qed

lemma call_graph_range:
  "(call_graph (interpreter_new p))\<^sup>+ `` {a} \<subseteq> sub_name ` set (vp_subs p)"
proof -
  have "(b, c) \<in> call_graph (interpreter_new p) \<Longrightarrow> c \<in> sub_name ` set (vp_subs p)" for b c
    using sub_index_range[of p c] by (fastforce simp: call_graph_def find_sub_def)
  then show ?thesis by (blast elim: tranclE)
qed

lemma call_depth_le: "call_depth (interpreter_new p) a \<le> length (vp_subs p)"
proof -
  have "call_depth (interpreter_new p) a \<le> card (sub_name ` set (vp_subs p))"
    unfolding call_depth_def by (rule card_mono[OF _ call_graph_range]) simp
  also have "\<dots> \<le> length (vp_subs p)" by (meson card_image_le card_length finite_set le_trans)
  finally show ?thesis .
qed

lemma call_depth_less:
  assumes "acyclic (call_graph (interpreter_new p))" "(a, c) \<in> call_graph (interpreter_new p)"
  shows "call_depth (interpreter_new p) c < call_depth (interpreter_new p) a"
  unfolding call_depth_def
proof (rule psubset_card_mono)
  show "finite ((call_graph (interpreter_new p))\<^sup>+ `` {a})" by (rule finite_subset[OF call_graph_range]) simp
  show "(call_graph (interpreter_new p))\<^sup>+ `` {c} \<subset> (call_graph (interpreter_new p))\<^sup>+ `` {a}"
    using assms by (auto simp: acyclic_def intro: trancl_into_trancl2)
qed

lemma exec_subroutine_returns:
  assumes "acyclic (call_graph (interpreter_new p))" "length (vp_subs p) \<le> n"
  shows "\<exists>r. exec_subroutine n (interpreter_new p) env name ctx = Some r"
proof (cases "find_sub (interpreter_new p) name")
  case (Some s)
  let ?d = "call_depth (interpreter_new p)"
  have "?d c < ?d name" if "SCall c \<in> set (flat_block (sub_body s))" "find_sub (interpreter_new p) c \<noteq> None" for c
    using call_depth_less[OF assms(1), of name c] that Some by (auto simp: call_graph_def)
  then have "?d c < n" if "SCall c \<in> set (flat_block (sub_body s))" "find_sub (interpreter_new p) c \<noteq> None" for c
    using that call_depth_le[of p name] assms(2) by fastforce
  then have "exec_block n (interpreter_new p) env (sub_body s) ctx \<noteq> None"
    using exec_returns(2)[of "interpreter_new p" ?d "sub_body s" n env ctx] call_depth_less[OF assms(1)] by blast
  then show ?thesis using Some by (auto simp: exec_subroutine_def)
qed (simp add: exec_subroutine_def)

lemma exec_subroutine_more_fuel:
  assumes "exec_subroutine n vi env name ctx = Some r" "n \<le> m"
  shows "exec_subroutine m vi env name ctx = Some r"
proof (cases "find_sub vi name")
  case (Some s)
  then obtain r' where r': "exec_block n vi env (sub_body s) ctx = Some r'" using assms(1) by (auto simp: exec_subroutine_def)
  then show ?thesis using exec_more_fuel(2)[OF r' assms(2)] assms(1) Some by (simp add: exec_subroutine_def)
qed (use assms in \<open>simp add: exec_subroutine_def\<close>)

text \<open>
  C34: When no subroutine of the program reaches itself through \<open>call\<close> statements, running any
  subroutine returns within a nesting of at most as many calls as the program has subroutines, and the
  result is the same with any more room on the call stack.
\<close>

theorem exec_terminates:
  assumes "acyclic (call_graph (interpreter_new p))"
  shows "\<exists>r. \<forall>n \<ge> length (vp_subs p). exec_subroutine n (interpreter_new p) env name ctx = Some r"
  using exec_subroutine_returns[OF assms order.refl, of env name ctx] exec_subroutine_more_fuel by blast

definition demo_subs :: "sub_decl list" where
  "demo_subs =
    [\<lparr>sub_name = ''vcl_recv'', sub_body =
        [SIf (EBinaryOp (EVariable ''req.url'') BO_Eq (EStringLit ''/'')) [SCall ''pick''] [] None, SReturn (EIdent ''hash'')]\<rparr>,
     \<lparr>sub_name = ''pick'', sub_body = [SSet ''req.http.X'' SO_Assign (EStringLit ''1'')]\<rparr>]"

definition demo_program :: vcl_program where
  "demo_program = \<lparr>vp_version = None, vp_imports = [], vp_backends = [], vp_probes = [], vp_acls = [], vp_subs = demo_subs\<rparr>"

lemma demo_find_sub:
  "find_sub (interpreter_new demo_program) name =
     (if name = ''pick'' then Some (demo_subs ! 1) else if name = ''vcl_recv'' then Some (demo_subs ! 0) else None)"
  by (simp add: find_sub_def interpreter_new_def demo_program_def demo_subs_def)

lemma demo_acyclic: "acyclic (call_graph (interpreter_new demo_program))"
  by (rule acyclicI_order[where f = "\<lambda>s. if s = ''vcl_recv'' then 1 else 0 :: nat"])
    (auto simp: call_graph_def demo_find_sub demo_subs_def split: if_splits)

theorem exec_terminates_witness:
  "acyclic (call_graph (interpreter_new demo_program)) \<and>
   (\<forall>env ctx. \<exists>r. \<forall>n \<ge> 2. exec_subroutine n (interpreter_new demo_program) (env :: unit interp_env) ''vcl_recv'' ctx = Some r)"
  using exec_terminates[OF demo_acyclic, of "_ :: unit interp_env" "''vcl_recv''"] demo_acyclic
  by (simp add: demo_program_def demo_subs_def numeral_2_eq_2)

section \<open>Checked programs do not fail\<close>

text \<open>
  A static check of programs: headers of known messages, patterns that are literals and compile,
  divisors that are literals other than zero, calls of subroutines that exist and known actions.
\<close>

definition pattern_checked :: "('re, 'm) interp_env_scheme \<Rightarrow> expr \<Rightarrow> bool" where
  "pattern_checked env e \<longleftrightarrow> (case e of EStringLit s \<Rightarrow> (case ie_regex_new env s of Inr _ \<Rightarrow> True | Inl _ \<Rightarrow> False) | _ \<Rightarrow> False)"

definition divisor_checked :: "expr \<Rightarrow> bool" where
  "divisor_checked e \<longleftrightarrow>
     (case e of EIntLit i \<Rightarrow> i \<noteq> 0 | ERealLit r \<Rightarrow> \<not> f_eq r (Num 0) | EDurationLit r \<Rightarrow> \<not> f_eq r (Num 0) | _ \<Rightarrow> False)"

definition MESSAGES :: "string list" where
  "MESSAGES = [''req'', ''resp'', ''bereq'', ''beresp'']"

fun expr_checked :: "('re, 'm) interp_env_scheme \<Rightarrow> expr \<Rightarrow> bool"
and args_checked :: "('re, 'm) interp_env_scheme \<Rightarrow> expr list \<Rightarrow> bool" where
  "expr_checked env (EHeaderRef obj h) \<longleftrightarrow> obj \<in> set MESSAGES"
| "expr_checked env (EBinaryOp l bop r) \<longleftrightarrow>
     expr_checked env l \<and> expr_checked env r \<and> (bop = BO_Div \<longrightarrow> divisor_checked r) \<and>
     (bop = BO_Match \<or> bop = BO_NotMatch \<longrightarrow> pattern_checked env r)"
| "expr_checked env (EUnaryOp uop e) \<longleftrightarrow> expr_checked env e"
| "expr_checked env (EFunctionCall name args) \<longleftrightarrow>
     args_checked env args \<and> CHR ''.'' \<notin> set name \<and>
     (name = ''regsub'' \<or> name = ''regsuball'' \<longrightarrow> (case args of _ # p # _ # _ \<Rightarrow> pattern_checked env p | _ \<Rightarrow> False))"
| "expr_checked env (EMethodCall e m args) \<longleftrightarrow> expr_checked env e \<and> args_checked env args"
| "expr_checked env (EConcat es) \<longleftrightarrow> args_checked env es"
| "expr_checked env _ \<longleftrightarrow> True"
| "args_checked env [] \<longleftrightarrow> True"
| "args_checked env (e # es) \<longleftrightarrow> expr_checked env e \<and> args_checked env es"

definition action_checked :: "expr \<Rightarrow> bool" where
  "action_checked e \<longleftrightarrow>
     (case e of
        EIdent name \<Rightarrow> action_from_name name \<noteq> None
      | EVariable name \<Rightarrow> action_from_name name \<noteq> None
      | EFunctionCall name args \<Rightarrow> action_from_name name \<noteq> None
      | _ \<Rightarrow> False)"

definition stmt_checked :: "('re, 'm) interp_env_scheme \<Rightarrow> vcl_interpreter \<Rightarrow> statement \<Rightarrow> bool" where
  "stmt_checked env vi s \<longleftrightarrow>
     (case s of
        SSet _ _ e \<Rightarrow> expr_checked env e
      | SCall name \<Rightarrow> has_subroutine vi name
      | SReturn e \<Rightarrow> action_checked e
      | SSynthetic e \<Rightarrow> expr_checked env e
      | SExpr e \<Rightarrow> expr_checked env e
      | SBan e \<Rightarrow> expr_checked env e
      | _ \<Rightarrow> True)"

definition program_checked :: "('re, 'm) interp_env_scheme \<Rightarrow> vcl_program \<Rightarrow> bool" where
  "program_checked env p \<longleftrightarrow>
     (\<forall>sub \<in> set (vp_subs p). \<forall>s \<in> set (flat_block (sub_body sub)). stmt_checked env (interpreter_new p) s)"

lemma pattern_checked_eval:
  assumes "pattern_checked env e" "eval_expr env ctx e = Inr v"
  shows "\<exists>re. compile_regex env (to_string_value v) = Inr re"
  using assms by (auto simp: pattern_checked_def compile_regex_def to_string_value_def split: expr.splits sum.splits)

lemma divisor_checked_eval:
  assumes "divisor_checked e" "eval_expr env ctx e = Inr v"
  shows "\<not> f_eq (to_real v) (Num 0)"
  using assms by (auto simp: divisor_checked_def to_real_def signed_eq_0_iff split: expr.splits)

lemma regsub_checked:
  assumes "case args of _ # p # _ # _ \<Rightarrow> pattern_checked env p | _ \<Rightarrow> False" "eval_args env ctx args = Inr vs"
  shows "\<exists>v. regsub env name rep vs = Inr v"
proof -
  obtain a p b r where args: "args = a # p # b # r" "pattern_checked env p" using assms(1) by (auto split: list.splits)
  then obtain va vp vb vr where "vs = va # vp # vb # vr" "eval_expr env ctx p = Inr vp"
    using assms(2) by (auto split: sum.splits)
  then show ?thesis using pattern_checked_eval[OF args(2), of ctx vp] by (auto simp: regsub_def)
qed

lemma split_once_absent: "c \<notin> set s \<Longrightarrow> split_once [c] s = None"
  by (induction s) (auto simp: prefix_Cons)

lemma eval_checked:
  "expr_checked env e \<Longrightarrow> \<exists>v. eval_expr env ctx e = Inr v"
  "args_checked env es \<Longrightarrow> \<exists>vs. eval_args env ctx es = Inr vs"
proof (induction env e and env es rule: expr_checked_args_checked.induct)
  case (2 env l bop r)
  then obtain lv rv where "eval_expr env ctx l = Inr lv" "eval_expr env ctx r = Inr rv" by auto
  then show ?case using 2 pattern_checked_eval[of env r ctx rv] divisor_checked_eval[of r env ctx rv]
    by (cases bop) (auto simp: eval_binary_op_def split: vcl_value.splits)
next
  case (4 env name args)
  then obtain vs where "eval_args env ctx args = Inr vs" by auto
  then show ?case
    using 4(2) regsub_checked[where args = args and env = env and ctx = ctx and vs = vs] by (auto simp: call_builtin_def split_once_absent)
qed (auto simp: MESSAGES_def eval_header_ref_def call_method_def split: option.splits)

lemma handle_return_checked: "action_checked e \<Longrightarrow> fst (handle_return env e ctx) \<noteq> CF_Error err"
  by (auto simp: action_checked_def handle_return_def named_action_def split: expr.splits option.splits)

lemma exec_checked:
  assumes "\<And>name s st. find_sub vi name = Some s \<Longrightarrow> st \<in> set (flat_block (sub_body s)) \<Longrightarrow> stmt_checked env vi st"
  shows "(\<And>st. st \<in> set (flat_stmt s) \<Longrightarrow> stmt_checked env vi st) \<Longrightarrow> exec_statement n vi env s ctx \<noteq> Some (CF_Error err, ctx')"
    and "(\<And>st. st \<in> set (flat_block ss) \<Longrightarrow> stmt_checked env vi st) \<Longrightarrow> exec_block n vi env ss ctx \<noteq> Some (CF_Error err, ctx')"
    and "(\<And>st. st \<in> set (flat_branches brs @ flat_else els) \<Longrightarrow> stmt_checked env vi st) \<Longrightarrow>
      exec_branches n vi env brs els ctx \<noteq> Some (CF_Error err, ctx')"
  using assms
proof (induction n vi env s ctx and n vi env ss ctx and n vi env brs els ctx
    rule: exec_statement_exec_block_exec_branches.induct)
  case (1 n vi env target sop e ctx)
  then show ?case using eval_checked(1)[of env e ctx] by (auto simp: stmt_checked_def)
next
  case (3 n vi env name ctx)
  have "find_sub vi name \<noteq> None" using 3(2) by (auto simp: stmt_checked_def has_subroutine_def find_sub_def)
  then obtain s where s: "find_sub vi name = Some s" by auto
  have "exec_block m vi env (sub_body s) ctx \<noteq> Some (CF_Error err, ctx')" if "n = Suc m" for m
    by (rule 3(1)[OF s that]) (use 3(3) s in blast)+
  then show ?case using s by (cases n) auto
next
  case (4 n vi env e ctx)
  then show ?case using handle_return_checked[of e env ctx err] by (auto simp: stmt_checked_def)
next
  case (6 n vi env e ctx)
  then show ?case using eval_checked(1)[of env e ctx] by (auto simp: stmt_checked_def)
next
  case (7 n vi env e ctx)
  then show ?case using eval_checked(1)[of env e ctx] by (auto simp: stmt_checked_def)
next
  case (9 n vi env e ctx)
  then show ?case using eval_checked(1)[of env e ctx] by (auto simp: stmt_checked_def)
next
  case (11 n vi env s ss ctx)
  show ?case
  proof (cases "exec_statement n vi env s ctx")
    case (Some r)
    obtain cf c1 where r: "r = (cf, c1)" by (cases r)
    show ?thesis using 11(1)[OF _ 11(4)] 11(2)[OF Some r[symmetric] _ _ 11(4)] 11(3) Some r
      unfolding exec_block_step[OF Some[unfolded r]] by (auto split: if_splits)
  qed simp
next
  case (12 n vi env els ctx)
  show ?case using 12(1)[OF _ _ 12(3)] 12(2) by (cases els) auto
next
  case (13 n vi env e b brs els ctx)
  have "expr_checked env e" using 13(3)[of "SExpr e"] by (simp add: stmt_checked_def)
  then obtain v where "eval_expr env ctx e = Inr v" using eval_checked(1) by blast
  then show ?case using 13(1)[OF _ _ _ 13(4)] 13(2)[OF _ _ _ 13(4)] 13(3) by auto
qed simp_all

lemma find_sub_mem:
  assumes "find_sub (interpreter_new p) name = Some s"
  shows "s \<in> set (vp_subs p)"
proof -
  have fold: "foldl (\<lambda>ix (i, s). ix(sub_name s \<mapsto> i)) m (enumerate k ss) x = Some i \<Longrightarrow>
    m x = Some i \<or> (k \<le> i \<and> i < k + length ss)" for m k ss x i
  proof (induction ss arbitrary: m k)
    case (Cons a ss)
    then show ?case using Cons.IH[of "m(sub_name a \<mapsto> k)" "Suc k"] by (auto split: if_splits)
  qed simp
  obtain i where i: "vi_sub_index (interpreter_new p) name = Some i" "s = vp_subs p ! i"
    using assms by (auto simp: find_sub_def interpreter_new_def)
  have "i < length (vp_subs p)" using fold[of Map.empty 0 "vp_subs p" name i] i(1) by (auto simp: interpreter_new_def)
  then show ?thesis using i(2) by simp
qed

text \<open>
  C35: A program that passes the static check and in which no subroutine reaches itself never stops
  with a runtime error: every subroutine, run on any request, ends in an action or falls through.
\<close>

theorem checked_programs_do_not_fail:
  assumes "program_checked env p" "acyclic (call_graph (interpreter_new p))" "length (vp_subs p) \<le> n"
  shows "\<exists>ctx'. exec_subroutine n (interpreter_new p) env name ctx = Some (ER_Fallthrough, ctx') \<or>
           (\<exists>a. exec_subroutine n (interpreter_new p) env name ctx = Some (ER_Action a, ctx'))"
proof -
  obtain r ctx' where r: "exec_subroutine n (interpreter_new p) env name ctx = Some (r, ctx')"
    using exec_subroutine_returns[OF assms(2,3)] by fast
  have "r \<noteq> ER_Error err" for err
  proof (cases "find_sub (interpreter_new p) name")
    case (Some s)
    have ok: "find_sub (interpreter_new p) a = Some s \<Longrightarrow> st \<in> set (flat_block (sub_body s)) \<Longrightarrow> stmt_checked env (interpreter_new p) st" for a s st
      using assms(1) find_sub_mem[of p a s] by (auto simp: program_checked_def)
    have "exec_block n (interpreter_new p) env (sub_body s) ctx \<noteq> Some (CF_Error err, ctx')"
      by (rule exec_checked(2)) (use ok Some in blast)+
    moreover obtain cf c1 where "exec_block n (interpreter_new p) env (sub_body s) ctx = Some (cf, c1)"
      using r Some by (auto simp: exec_subroutine_def)
    ultimately show ?thesis using r Some by (cases cf) (auto simp: exec_subroutine_def)
  qed (use r in \<open>simp add: exec_subroutine_def\<close>)
  then show ?thesis using r by (cases r) auto
qed

definition demo_env :: "string interp_env" where
  "demo_env = \<lparr>ie_regex_new = (\<lambda>s. if s = ''('' then Inl ''unclosed group'' else Inr s), ie_is_match = (\<lambda>re s. sublist re s),
     ie_replace = (\<lambda>re s r. s), ie_replace_all = (\<lambda>re s r. s), ie_now = Num 0, ie_resolver = None\<rparr>"

theorem checked_programs_do_not_fail_witness:
  "program_checked demo_env demo_program \<and> acyclic (call_graph (interpreter_new demo_program)) \<and>
   (\<forall>ctx. \<exists>ctx'. exec_subroutine 2 (interpreter_new demo_program) demo_env ''vcl_recv'' ctx = Some (ER_Fallthrough, ctx') \<or>
      (\<exists>a. exec_subroutine 2 (interpreter_new demo_program) demo_env ''vcl_recv'' ctx = Some (ER_Action a, ctx')))"
proof -
  have "program_checked demo_env demo_program"
    by (simp add: program_checked_def demo_program_def demo_subs_def stmt_checked_def action_checked_def action_from_name_def
        has_subroutine_def interpreter_new_def)
  then show ?thesis using checked_programs_do_not_fail[OF _ demo_acyclic, of demo_env 2 "''vcl_recv''"] demo_acyclic
    by (simp add: demo_program_def demo_subs_def)
qed

section \<open>Headers\<close>

lemma get_header_apply:
  "get_header (apply_header_op m h v SO_Assign) k = (if eq_ignore_ascii_case h k then Some (to_string_value v) else get_header m k)"
  by (simp add: apply_header_op_def)

lemma set_message_header:
  "set_variable (''req.http.'' @ h) v sop ctx = ctx\<lparr>vc_req := apply_header_op (vc_req ctx) h v sop\<rparr>"
  "set_variable (''resp.http.'' @ h) v sop ctx = ctx\<lparr>vc_resp := apply_header_op (vc_resp ctx) h v sop\<rparr>"
  "set_variable (''bereq.http.'' @ h) v sop ctx = ctx\<lparr>vc_bereq := apply_header_op (vc_bereq ctx) h v sop\<rparr>"
  "set_variable (''beresp.http.'' @ h) v sop ctx = ctx\<lparr>vc_beresp := apply_header_op (vc_beresp ctx) h v sop\<rparr>"
  by (simp_all add: set_variable_def set_other_def strip_prefix_def)

lemma unset_message_header:
  "unset_variable (''req.http.'' @ h) ctx = ctx\<lparr>vc_req := unset_header (vc_req ctx) h\<rparr>"
  "unset_variable (''resp.http.'' @ h) ctx = ctx\<lparr>vc_resp := unset_header (vc_resp ctx) h\<rparr>"
  "unset_variable (''bereq.http.'' @ h) ctx = ctx\<lparr>vc_bereq := unset_header (vc_bereq ctx) h\<rparr>"
  "unset_variable (''beresp.http.'' @ h) ctx = ctx\<lparr>vc_beresp := unset_header (vc_beresp ctx) h\<rparr>"
  by (simp_all add: unset_variable_def strip_prefix_def)

text \<open>The message that a name stands for, and its update.\<close>

definition message :: "vcl_context \<Rightarrow> string \<Rightarrow> http_message" where
  "message c obj = (if obj = ''req'' then vc_req c else if obj = ''resp'' then vc_resp c else if obj = ''bereq'' then vc_bereq c else vc_beresp c)"

definition with_message :: "string \<Rightarrow> (http_message \<Rightarrow> http_message) \<Rightarrow> vcl_context \<Rightarrow> vcl_context" where
  "with_message obj f c =
     (if obj = ''req'' then c\<lparr>vc_req := f (vc_req c)\<rparr> else if obj = ''resp'' then c\<lparr>vc_resp := f (vc_resp c)\<rparr>
      else if obj = ''bereq'' then c\<lparr>vc_bereq := f (vc_bereq c)\<rparr> else c\<lparr>vc_beresp := f (vc_beresp c)\<rparr>)"

lemma messagesE:
  assumes "obj \<in> set MESSAGES"
  obtains "obj = ''req''" | "obj = ''resp''" | "obj = ''bereq''" | "obj = ''beresp''"
  using assms by (auto simp: MESSAGES_def)

lemma message_with:
  "obj \<in> set MESSAGES \<Longrightarrow> obj' \<in> set MESSAGES \<Longrightarrow> message (with_message obj f c) obj' = (if obj = obj' then f (message c obj) else message c obj')"
  by (elim messagesE) (simp_all add: message_def with_message_def)

lemma header_ref_message: "obj \<in> set MESSAGES \<Longrightarrow> eval_expr env c (EHeaderRef obj k) = Inr (header_or_empty (message c obj) k)"
  by (elim messagesE) (simp_all add: message_def eval_header_ref_def)

lemma set_header_variable:
  "obj \<in> set MESSAGES \<Longrightarrow> set_variable (obj @ ''.http.'' @ h) v sop c = with_message obj (\<lambda>m. apply_header_op m h v sop) c"
  "obj \<in> set MESSAGES \<Longrightarrow> unset_variable (obj @ ''.http.'' @ h) c = with_message obj (\<lambda>m. unset_header m h) c"
  by (erule messagesE; use set_message_header unset_message_header in \<open>simp add: with_message_def\<close>)+

text \<open>
  C37: Assigning to a header of a message and then reading any header gives the assigned value as a
  string where the message is the same and the names are equal up to case, and the value from before
  everywhere else; after \<open>unset\<close> it gives the empty string there.
\<close>

theorem header_assignment:
  assumes "obj \<in> set MESSAGES" "obj' \<in> set MESSAGES" "eval_expr env ctx e = Inr v"
  shows "\<exists>c1 c2. exec_statement n vi env (SSet (obj @ ''.http.'' @ h) SO_Assign e) ctx = Some (CF_Continue, c1) \<and>
    eval_expr env c1 (EHeaderRef obj' k) =
      (if obj = obj' \<and> eq_ignore_ascii_case h k then Inr (VString (to_string_value v)) else eval_expr env ctx (EHeaderRef obj' k)) \<and>
    exec_statement n vi env (SUnset (obj @ ''.http.'' @ h)) ctx = Some (CF_Continue, c2) \<and>
    eval_expr env c2 (EHeaderRef obj' k) =
      (if obj = obj' \<and> eq_ignore_ascii_case h k then Inr (VString []) else eval_expr env ctx (EHeaderRef obj' k))"
  using assms(3) unfolding exec_statement.simps set_header_variable[OF assms(1)] header_ref_message[OF assms(2)]
  by (simp add: message_with[OF assms(1,2)] header_or_empty_def get_header_apply)

definition demo_ctx :: vcl_context where
  "demo_ctx = vcl_context_new (new_request M_Get ''/'' Http11) (new_response (HttpStatus 200) Http11)
     (new_request M_Get ''/'' Http11) (new_response (HttpStatus 200) Http11)"

lemma demo_names: "eq_ignore_ascii_case ''X-Id'' ''x-id''" "show_nat 7 = ''7''"
  by code_simp+

theorem header_assignment_witness:
  "\<exists>c1. exec_statement 0 (interpreter_new demo_program) demo_env (SSet ''req.http.X-Id'' SO_Assign (EIntLit 7)) demo_ctx = Some (CF_Continue, c1) \<and>
     eval_expr demo_env c1 (EHeaderRef ''req'' ''x-id'') = Inr (VString ''7'')"
proof -
  have "''req'' \<in> set MESSAGES" "eval_expr demo_env demo_ctx (EIntLit 7) = Inr (VInt 7)" by (simp_all add: MESSAGES_def)
  from header_assignment[OF this(1,1,2), of 0 "interpreter_new demo_program" "''X-Id''" "''x-id''"]
  show ?thesis by (simp add: demo_names to_string_value_def show_int_def)
qed

section \<open>What VCL code cannot change\<close>

definition connection_facts :: "vcl_context \<Rightarrow> ip_addr \<times> ip_addr \<times> bool \<times> u32" where
  "connection_facts c = (vc_client_ip c, vc_server_ip c, vc_is_ssl c, vc_restarts c)"

definition object_facts :: "vcl_context \<Rightarrow> i64 \<times> f64 \<times> f64 \<times> f64" where
  "object_facts c = (vc_obj_hits c, vc_obj_ttl c, vc_obj_grace c, vc_obj_keep c)"

definition messages :: "vcl_context \<Rightarrow> http_message list" where
  "messages c = [vc_req c, vc_resp c, vc_bereq c, vc_beresp c]"

definition ctx_frame :: "vcl_context \<Rightarrow> vcl_context \<Rightarrow> bool" where
  "ctx_frame c c' \<longleftrightarrow> connection_facts c' = connection_facts c \<and> object_facts c' = object_facts c \<and>
     vc_req_body c' = vc_req_body c \<and> vc_resp_body c' = vc_resp_body c \<and>
     map msg_protocol (messages c') = map msg_protocol (messages c) \<and>
     msg_status (vc_req c') = msg_status (vc_req c) \<and> msg_status (vc_bereq c') = msg_status (vc_bereq c) \<and>
     (list_all (hm_wf \<circ> msg_headers) (messages c) \<longrightarrow> list_all (hm_wf \<circ> msg_headers) (messages c'))"

lemmas frame_defs = ctx_frame_def connection_facts_def object_facts_def messages_def

lemma apply_header_op_frame [simp]:
  "msg_protocol (apply_header_op m h v sop) = msg_protocol m" "msg_status (apply_header_op m h v sop) = msg_status m"
  "hm_wf (msg_headers m) \<Longrightarrow> hm_wf (msg_headers (apply_header_op m h v sop))"
  by (auto simp: apply_header_op_def set_header_def split: set_op.splits)

lemma unset_header_frame [simp]:
  "msg_protocol (unset_header m h) = msg_protocol m" "msg_status (unset_header m h) = msg_status m"
  "hm_wf (msg_headers m) \<Longrightarrow> hm_wf (msg_headers (unset_header m h))"
  by (auto simp: unset_header_def)

definition same_line :: "http_message \<Rightarrow> http_message \<Rightarrow> bool" where
  "same_line m m' \<longleftrightarrow> msg_protocol m' = msg_protocol m \<and> (hm_wf (msg_headers m) \<longrightarrow> hm_wf (msg_headers m'))"

lemma same_line_ops:
  "same_line m (apply_header_op m h v sop)" "same_line m (unset_header m h)" "same_line m (set_url v sop m)"
  "same_line m (set_method v m)" "same_line m (set_status v m)" "same_line m (m\<lparr>msg_reason := r\<rparr>)"
  by (auto simp: same_line_def set_url_def set_method_def set_status_def split: set_op.splits)

lemma frame_messages:
  "same_line (vc_req c) m \<Longrightarrow> msg_status m = msg_status (vc_req c) \<Longrightarrow> ctx_frame c (c\<lparr>vc_req := m\<rparr>)"
  "same_line (vc_bereq c) m \<Longrightarrow> msg_status m = msg_status (vc_bereq c) \<Longrightarrow> ctx_frame c (c\<lparr>vc_bereq := m\<rparr>)"
  "same_line (vc_resp c) m \<Longrightarrow> ctx_frame c (c\<lparr>vc_resp := m\<rparr>)"
  "same_line (vc_beresp c) m \<Longrightarrow> ctx_frame c (c\<lparr>vc_beresp := m\<rparr>)"
  by (simp_all add: frame_defs same_line_def)

lemma frame_fields:
  "ctx_frame c c" "ctx_frame c (c\<lparr>vc_local_vars := l\<rparr>)" "ctx_frame c (c\<lparr>vc_uncacheable := b\<rparr>)"
  "ctx_frame c (c\<lparr>vc_do_gzip := b\<rparr>)" "ctx_frame c (c\<lparr>vc_do_gunzip := b\<rparr>)"
  "ctx_frame c (c\<lparr>vc_synth_status := st\<rparr>)" "ctx_frame c (c\<lparr>vc_synth_body := sb\<rparr>)"
  by (simp_all add: frame_defs)

lemma frame_if: "ctx_frame c a \<Longrightarrow> ctx_frame c b \<Longrightarrow> ctx_frame c (if P then a else b)"
  by simp

lemma frame_option: "(\<And>x. ctx_frame c (f x)) \<Longrightarrow> ctx_frame c a \<Longrightarrow> ctx_frame c (case p of Some x \<Rightarrow> f x | None \<Rightarrow> a)"
  by (cases p) simp_all

lemma frame_duration: "ctx_frame c (set_duration name d v sop c)"
  unfolding set_duration_def Let_def by (rule frame_fields)

lemma request_status [simp]:
  "msg_status (set_url v sop m) = msg_status m" "msg_status (set_method v m) = msg_status m"
  by (simp_all add: set_url_def set_method_def split: set_op.splits)

lemmas frame_rules = frame_if frame_option frame_messages same_line_ops frame_fields frame_duration

lemma set_variable_frame: "ctx_frame c (set_variable name v sop c)"
  unfolding set_variable_def set_other_def Let_def by (intro frame_rules) simp_all

lemma unset_variable_frame: "ctx_frame c (unset_variable name c)"
  unfolding unset_variable_def by (intro frame_rules) simp_all

lemma ctx_frame_trans: "ctx_frame a b \<Longrightarrow> ctx_frame b c \<Longrightarrow> ctx_frame a c"
  by (simp add: ctx_frame_def)

interpretation fr: exec_relation ctx_frame
  by unfold_locales (rule frame_fields set_variable_frame unset_variable_frame | (rule ctx_frame_trans, assumption+))+

text \<open>
  C36: Running a subroutine never changes the facts about the connection (addresses, TLS, restarts),
  about the cached object (hits, TTL, grace, keep), the bodies, the protocol versions of the messages or
  the status of the requests, and it keeps the header maps well formed.
\<close>

theorem exec_frame:
  assumes "exec_subroutine n vi env name ctx = Some (r, ctx')"
  shows "ctx_frame ctx ctx'"
  using assms fr.exec_related(2)[of n vi env] fr.refl
  by (auto simp: exec_subroutine_def split: option.splits)

lemma demo_condition:
  "eval_expr demo_env demo_ctx (EBinaryOp (EVariable ''req.url'') BO_Eq (EStringLit ''/'')) = Inr (VBool True)"
  by (simp add: demo_ctx_def vcl_context_new_def new_request_def resolve_variable_def builtin_variables_def eval_binary_op_def to_string_value_def)

lemma demo_vcl_run:
  "exec_subroutine 2 (interpreter_new demo_program) demo_env ''vcl_recv'' demo_ctx =
     Some (ER_Action IA_Hash, set_variable ''req.http.X'' (VString ''1'') SO_Assign demo_ctx)"
  by (simp del: eval_expr.simps(9) add: exec_subroutine_def demo_find_sub demo_subs_def numeral_2_eq_2 demo_condition to_bool_def
      handle_return_def named_action_def action_from_name_def)

theorem exec_frame_witness:
  "\<exists>ctx'. exec_subroutine 2 (interpreter_new demo_program) demo_env ''vcl_recv'' demo_ctx = Some (ER_Action IA_Hash, ctx') \<and>
     get_header (vc_req ctx') ''X'' = Some ''1'' \<and> ctx_frame demo_ctx ctx'"
  using exec_frame[OF demo_vcl_run] set_message_header(1)[of "''X''"] demo_vcl_run
  by (simp add: get_header_apply to_string_value_def eq_ignore_ascii_case_def)

text \<open>The TTL that VCL code assigns to the response is not the one it reads back.\<close>

lemma assigned_ttl_not_read:
  "eval_expr env (set_variable ''beresp.ttl'' v sop ctx) (EVariable ''beresp.ttl'') = Inr (VDuration (Num 120))"
  by (simp add: resolve_variable_def builtin_variables_def)

text \<open>A call of a function of a VMOD does nothing, whatever the resolver would answer.\<close>

lemma method_calls_do_nothing:
  "eval_args env ctx args = Inr vs \<Longrightarrow> eval_expr env ctx (EMethodCall (EVariable vmod) func args) = Inr VVoid"
  by (simp add: call_method_def)

end
