(* ===== verification/Vcl_Program.thy ===== *)
theory Vcl_Program
  imports Vcl_Print Vcl_Exec
begin

text \<open>
  The printer for statements, declarations and whole programs, and the proof that lexer and parser read
  every layout of a printed program back.
\<close>

section \<open>Reading sequences\<close>

lemma pbind_assoc: "pbind (pbind p f) g = pbind p (\<lambda>x. pbind (f x) g)"
  by (rule ext) (simp add: pbind_def split: option.splits sum.splits prod.splits)

lemma reads_seq:
  "reads_kinds N (\<lambda>_. True) p [k] x \<Longrightarrow> reads_kinds (N - 1) F (f x) ks y \<Longrightarrow> reads_kinds N F (pbind p f) (k # ks) y"
  by (rule reads_bind_one) (auto split: list.splits)

lemma reads_then:
  "reads_kinds N F1 p ks1 x \<Longrightarrow> reads_kinds (N - length ks1) F (f x) (k # ks) y \<Longrightarrow> F1 k \<Longrightarrow>
   reads_kinds N F (pbind p f) (ks1 @ k # ks) y"
  using reads_bind[of N F1 p ks1 x F f "k # ks" y] by simp

lemma reads_last:
  "reads_kinds N F p ks x \<Longrightarrow> reads_kinds N F (pbind p (\<lambda>x. preturn (g x))) ks (g x)"
  using reads_bind[where f = "\<lambda>x. preturn (g x)", OF _ reads_return, of N F p ks x F] by simp

lemma reads_final: "reads_kinds N F (pbind (expect_kind k) (\<lambda>_. preturn x)) [k] x"
  by (rule reads_seq[OF reads_expect reads_return])

lemma reads_peek:
  "(\<And>ts. peek ts = k \<Longrightarrow> p ts = q ts) \<Longrightarrow> reads_kinds N F q (k # ks) x \<Longrightarrow> reads_kinds N F p (k # ks) x"
  by (erule reads_cong[rotated]) (simp add: peek_append)

lemma reads_expr: "expr_ok e \<Longrightarrow> N \<le> n \<Longrightarrow> reads_kinds N (stops_at 0) (parse_expr n) (expr_kinds e) e"
  by (rule reads_at_expr[OF reads_ok]) simp_all

text \<open>The loops that read items as long as the next token may start one.\<close>

lemma reads_loop:
  assumes loop: "\<And>k ts. loop (Suc k) ts = (if cont (peek ts) then pbind item (\<lambda>x. pbind (loop k) (\<lambda>xs. preturn (x # xs))) ts else preturn [] ts)"
    and F: "\<And>k. F k \<Longrightarrow> \<not> cont k \<and> Fi k"
  shows "\<forall>x \<in> set xs. reads_kinds N Fi item (kinds x) x \<and> (\<exists>k ks. kinds x = k # ks \<and> cont k \<and> Fi k) \<Longrightarrow> N \<le> m \<Longrightarrow>
    reads_kinds N F (loop m) (concat (map kinds xs)) xs"
proof (induction xs arbitrary: N m)
  case Nil
  show ?case
  proof (cases m)
    case (Suc k)
    then show ?thesis using F by (auto simp: reads_kinds_def loop preturn_def)
  qed (use Nil reads_no_tokens in simp)
next
  case (Cons x xs)
  obtain k ks where x: "kinds x = k # ks" "cont k" "Fi k" using Cons.prems(1) by auto
  show ?case
  proof (cases m)
    case (Suc m')
    have "reads_kinds (N - length (kinds x)) F (loop m') (concat (map kinds xs)) xs"
      using Cons.prems Suc x(1) by (intro Cons.IH) (auto intro: reads_weaken)
    from reads_last[where g = "\<lambda>xs. x # xs", OF this]
    have "reads_kinds N F (pbind item (\<lambda>x. pbind (loop m') (\<lambda>xs. preturn (x # xs)))) (kinds x @ concat (map kinds xs)) (x # xs)"
    proof (rule reads_bind[rotated])
      show "reads_kinds N Fi item (kinds x) x" using Cons.prems(1) by simp
      show "case concat (map kinds xs) of [] \<Rightarrow> \<forall>k. F k \<longrightarrow> Fi k | k # _ \<Rightarrow> Fi k"
        using Cons.prems(1) F by (cases xs) (auto split: list.splits)
    qed
    then show ?thesis
      unfolding Suc list.map concat.simps x(1) append_Cons by (rule reads_peek[rotated]) (simp add: loop x(2))
  qed (use Cons.prems reads_no_tokens in simp)
qed

section \<open>Statements\<close>

primrec set_op_kind :: "set_op \<Rightarrow> token_kind" where
  "set_op_kind SO_Assign = TK_Assign"
| "set_op_kind SO_Add = TK_PlusAssign"
| "set_op_kind SO_Subtract = TK_MinusAssign"

definition parens_kinds :: "expr \<Rightarrow> token_kind list" where
  "parens_kinds e = TK_LParen # expr_kinds e @ [TK_RParen]"

definition braced_kinds :: "token_kind list \<Rightarrow> token_kind list" where
  "braced_kinds ks = TK_LBrace # ks @ [TK_RBrace]"

fun stmt_kinds :: "statement \<Rightarrow> token_kind list"
and block_kinds :: "statement list \<Rightarrow> token_kind list"
and branch_kinds :: "(expr \<times> statement list) list \<Rightarrow> token_kind list"
and else_kinds :: "statement list option \<Rightarrow> token_kind list" where
  "stmt_kinds (SSet t sop e) = TK_Set # dotted_kinds (dot_parts t) @ set_op_kind sop # expr_kinds e @ [TK_Semicolon]"
| "stmt_kinds (SUnset t) = TK_Unset # dotted_kinds (dot_parts t) @ [TK_Semicolon]"
| "stmt_kinds (SCall s) = [TK_Call, TK_Ident s, TK_Semicolon]"
| "stmt_kinds (SReturn e) = TK_Return # parens_kinds e @ [TK_Semicolon]"
| "stmt_kinds (SIf c b ei els) = TK_If # parens_kinds c @ braced_kinds (block_kinds b) @ branch_kinds ei @ else_kinds els"
| "stmt_kinds (SSynthetic e) = TK_Synthetic # parens_kinds e @ [TK_Semicolon]"
| "stmt_kinds (SNew name ty args) =
     TK_New # TK_Ident name # TK_Assign # TK_Ident ty # TK_LParen # arg_kinds args @ [TK_RParen, TK_Semicolon]"
| "stmt_kinds (SExpr e) = expr_kinds e @ [TK_Semicolon]"
| "stmt_kinds (SBan e) = TK_Ban # parens_kinds e @ [TK_Semicolon]"
| "block_kinds [] = []"
| "block_kinds (s # ss) = stmt_kinds s @ block_kinds ss"
| "branch_kinds [] = []"
| "branch_kinds ((c, b) # brs) = TK_ElseIf # parens_kinds c @ braced_kinds (block_kinds b) @ branch_kinds brs"
| "else_kinds None = []"
| "else_kinds (Some b) = TK_Else # braced_kinds (block_kinds b)"

definition simple_ok :: "statement \<Rightarrow> bool" where
  "simple_ok s \<longleftrightarrow>
     (case s of
        SSet _ _ e \<Rightarrow> expr_ok e
      | SReturn e \<Rightarrow> expr_ok e
      | SSynthetic e \<Rightarrow> expr_ok e
      | SNew _ _ args \<Rightarrow> list_all expr_ok args
      | SExpr e \<Rightarrow> expr_ok e
      | SBan e \<Rightarrow> expr_ok e
      | _ \<Rightarrow> True)"

lemma simple_ok_SExpr [simp]: "simple_ok (SExpr e) = expr_ok e"
  by (simp add: simple_ok_def)

definition block_ok :: "statement list \<Rightarrow> bool" where
  "block_ok ss \<longleftrightarrow> list_all simple_ok (flat_block ss)"

lemma reads_name: "N \<le> n \<Longrightarrow> reads_kinds N (\<lambda>k. k \<noteq> TK_Dot) (parse_dotted_name n) (dotted_kinds (dot_parts t)) t"
proof -
  assume n: "N \<le> n"
  obtain p ps where ps: "dot_parts t = p # ps" using split_char_ne[of "CHR ''.''" t] by (cases "dot_parts t") auto
  have "join_with ''.'' (p # ps) = t" using join_split[of "CHR ''.''" t] ps by simp
  then show ?thesis
    unfolding ps dotted_kinds_Cons parse_dotted_name_def
    using reads_last[where g = "\<lambda>ps. join_with ''.'' (p # ps)", OF reads_dotted_parts[of "N - 1" n ps]] n
    by (intro reads_seq[OF reads_ident_kind]) simp
qed

lemma reads_set_op: "reads_kinds N F parse_set_op [set_op_kind sop] sop"
  by (rule reads_one, cases sop) (simp_all add: parse_set_op_def peek_def pbind_def skip_def preturn_def advance_Cons wf_tokens_def)

lemma reads_parens: "expr_ok e \<Longrightarrow> N \<le> n \<Longrightarrow> reads_kinds N F (parse_parens n) (parens_kinds e) e"
  unfolding parse_parens_def parens_kinds_def
  by (intro reads_seq[OF reads_expect] reads_then[OF reads_expr] reads_final stops_comma) auto

lemma reads_args:
  assumes "list_all expr_ok es" "N \<le> n"
  shows "reads_kinds N (\<lambda>k. k = TK_RParen) (parse_arg_list n (parse_expr n)) (arg_kinds es) es"
proof (rule reads_arg_list)
  show "\<forall>e \<in> set es. reads_at e 0" using assms(1) reads_ok by (auto simp: list_all_iff)
  show "es \<noteq> [] \<Longrightarrow> hd (expr_kinds (hd es)) \<noteq> TK_RParen \<and> expr_kinds (hd es) \<noteq> []"
    using expr_starts[of "hd es"] assms(1) by (auto simp: list_all_iff starts_operand_def)
qed (rule assms)

lemma reads_braced:
  "reads_kinds (N - 1) (\<lambda>k. k = TK_RBrace) p ks x \<Longrightarrow> reads_kinds N F (braced p) (braced_kinds ks) x"
  unfolding braced_def braced_kinds_def by (rule reads_seq[OF reads_expect], erule reads_then, rule reads_final, simp)

lemma reads_simple:
  assumes "N \<le> n"
  shows "expr_ok e \<Longrightarrow> reads_kinds N F (parse_set n) (stmt_kinds (SSet t sop e)) (SSet t sop e)"
    and "reads_kinds N F (parse_unset n) (stmt_kinds (SUnset t)) (SUnset t)"
    and "reads_kinds N F parse_call (stmt_kinds (SCall s)) (SCall s)"
    and "expr_ok e \<Longrightarrow> reads_kinds N F (parse_return n) (stmt_kinds (SReturn e)) (SReturn e)"
    and "expr_ok e \<Longrightarrow> reads_kinds N F (parse_synthetic n) (stmt_kinds (SSynthetic e)) (SSynthetic e)"
    and "expr_ok e \<Longrightarrow> reads_kinds N F (parse_ban n) (stmt_kinds (SBan e)) (SBan e)"
    and "list_all expr_ok args \<Longrightarrow> reads_kinds N F (parse_new n) (stmt_kinds (SNew name ty args)) (SNew name ty args)"
    and "expr_ok e \<Longrightarrow> reads_kinds N F (parse_expr_statement n) (stmt_kinds (SExpr e)) (SExpr e)"
  unfolding parse_set_def parse_unset_def parse_call_def parse_return_def parse_synthetic_def parse_ban_def parse_new_def
    parse_expr_statement_def stmt_kinds.simps
  using assms set_op_kind.simps
  by (intro reads_seq[OF reads_expect] reads_seq[OF reads_ident_kind] reads_seq[OF reads_set_op] reads_then[OF reads_name]
      reads_then[OF reads_expr] reads_then[OF reads_parens[where F = "\<lambda>_. True"]] reads_then[OF reads_args] reads_final stops_comma refl TrueI;
      (cases sop)?; simp)+

text \<open>Nested blocks: what may follow a statement, and the statements that are read back wherever they stand.\<close>

definition after_stmt :: "token_kind \<Rightarrow> bool" where
  "after_stmt k \<longleftrightarrow> k \<noteq> TK_Else \<and> k \<noteq> TK_ElseIf"

definition reads_stmt :: "statement \<Rightarrow> bool" where
  "reads_stmt s \<longleftrightarrow> (\<forall>n. reads_kinds (Suc n) after_stmt (parse_statement (Suc n) (parse_statement_block n)) (stmt_kinds s) s)"

definition reads_block :: "statement list \<Rightarrow> bool" where
  "reads_block ss \<longleftrightarrow> (\<forall>N n. N \<le> n \<longrightarrow> reads_kinds N (\<lambda>k. k = TK_RBrace) (parse_statement_block n) (block_kinds ss) ss)"

lemma reads_blockD: "reads_block ss \<Longrightarrow> N \<le> n \<Longrightarrow> reads_kinds N (\<lambda>k. k = TK_RBrace) (parse_statement_block n) (block_kinds ss) ss"
  by (simp add: reads_block_def)

lemma block_kinds_concat: "block_kinds ss = concat (map stmt_kinds ss)"
  by (induction ss) auto

lemma stmt_starts:
  assumes "list_all simple_ok (flat_stmt s)"
  shows "\<exists>k ks. stmt_kinds s = k # ks \<and> k \<noteq> TK_RBrace \<and> k \<noteq> TK_Eof \<and> after_stmt k"
proof (cases s)
  case (SExpr e)
  then show ?thesis using assms expr_starts[of e] by (auto simp: simple_ok_def after_stmt_def starts_operand_def)
qed (auto simp: after_stmt_def)

lemma reads_block_of:
  assumes "\<forall>s \<in> set ss. reads_stmt s" "list_all simple_ok (flat_block ss)"
  shows "reads_block ss"
  unfolding reads_block_def
proof (intro allI impI)
  fix N n :: nat assume n: "N \<le> n"
  have ok: "\<forall>s \<in> set ss. list_all simple_ok (flat_stmt s)" using assms(2) by (induction ss) auto
  show "reads_kinds N (\<lambda>k. k = TK_RBrace) (parse_statement_block n) (block_kinds ss) ss"
  proof (cases n)
    case (Suc m)
    have "reads_kinds N (\<lambda>k. k = TK_RBrace) (statements (Suc m) (parse_statement (Suc m) (parse_statement_block m))) (concat (map stmt_kinds ss)) ss"
    proof (rule reads_loop[where loop = "\<lambda>k. statements k _" and cont = "\<lambda>k. k \<noteq> TK_RBrace \<and> k \<noteq> TK_Eof" and Fi = after_stmt])
      show "\<forall>s \<in> set ss. reads_kinds N after_stmt (parse_statement (Suc m) (parse_statement_block m)) (stmt_kinds s) s \<and>
          (\<exists>k ks. stmt_kinds s = k # ks \<and> (k \<noteq> TK_RBrace \<and> k \<noteq> TK_Eof) \<and> after_stmt k)"
        using assms(1) ok stmt_starts n Suc by (auto simp: reads_stmt_def intro: reads_weaken)
    qed (use n Suc in \<open>auto simp: after_stmt_def\<close>)
    moreover have "parse_statement_block (Suc m) = statements (Suc m) (parse_statement (Suc m) (parse_statement_block m))"
      by (rule ext) (simp only: parse_statement_block.simps)
    ultimately show ?thesis by (simp only: Suc block_kinds_concat)
  qed (use n reads_no_tokens in simp)
qed

lemma reads_result: "reads_kinds N F p ks x \<Longrightarrow> f x = preturn y \<Longrightarrow> reads_kinds N F (pbind p f) ks y"
  using reads_bind[of N F p ks x F f "[]" y] reads_return[of "N - length ks" F y] by simp

lemma reads_else_if:
  assumes "expr_ok c" "reads_block b" "N \<le> n"
  shows "reads_kinds N F (else_if_branch (Suc n) (parse_statement_block n)) (parens_kinds c @ braced_kinds (block_kinds b)) (c, b)"
  unfolding else_if_branch_def braced_kinds_def
  by (rule reads_then[OF reads_parens[where F = "\<lambda>_. True"]], rule assms, simp add: assms(3) le_SucI, rule reads_result[OF reads_braced[unfolded braced_kinds_def]],
      rule reads_blockD[OF assms(2)]) (use assms(3) in auto)

lemma reads_else:
  assumes "\<forall>b. els = Some b \<longrightarrow> reads_block b"
  shows "\<forall>(c, b) \<in> set brs. expr_ok c \<and> reads_block b \<Longrightarrow> N \<le> k \<Longrightarrow> N \<le> Suc n \<Longrightarrow>
    reads_kinds N after_stmt (else_branches k (Suc n) (parse_statement_block n)) (branch_kinds brs @ else_kinds els) (brs, els)"
proof (induction brs arbitrary: N k)
  case Nil
  show ?case
  proof (cases k)
    case (Suc k')
    show ?thesis
    proof (cases els)
      case None
      then show ?thesis using Suc by (auto simp: reads_kinds_def after_stmt_def preturn_def)
    next
      case (Some b)
      have r: "reads_kinds N after_stmt (pbind skip (\<lambda>_. pbind (braced (parse_statement_block n)) (\<lambda>b. preturn ([], Some b))))
          (TK_Else # braced_kinds (block_kinds b)) ([], Some b)"
        using assms Some Nil by (intro reads_seq[OF reads_skip] reads_result[OF reads_braced[OF reads_blockD]]) auto
      have eq: "else_branches k (Suc n) (parse_statement_block n) (ts @ rest) =
          pbind skip (\<lambda>_. pbind (braced (parse_statement_block n)) (\<lambda>b. preturn ([], Some b))) (ts @ rest)"
        if ks: "map tok_kind ts = TK_Else # braced_kinds (block_kinds b)" for ts rest :: "token list"
      proof -
        obtain t u us where "ts = t # u # us" "tok_kind t = TK_Else" "tok_kind u = TK_LBrace"
          using ks by (cases ts; cases "tl ts") (auto simp: braced_kinds_def)
        then show ?thesis using Suc by (simp add: peek_def peek_ahead1_def)
      qed
      show ?thesis unfolding Some branch_kinds.simps else_kinds.simps append_Nil by (rule reads_cong[OF eq r])
    qed
  qed (use Nil reads_no_tokens in simp)
next
  case (Cons br brs)
  obtain c b where br: "br = (c, b)" by (cases br)
  show ?case
  proof (cases k)
    case (Suc k')
    let ?ks = "parens_kinds c @ braced_kinds (block_kinds b)" and ?rest = "branch_kinds brs @ else_kinds els"
    let ?more = "\<lambda>br. pbind (else_branches k' (Suc n) (parse_statement_block n)) (\<lambda>(brs, els). preturn (br # brs, els))"
    have "reads_kinds (N - 1 - length ?ks) after_stmt (else_branches k' (Suc n) (parse_statement_block n)) ?rest (brs, els)"
      using Cons.prems Suc by (intro Cons.IH) auto
    then have "reads_kinds (N - 1 - length ?ks) after_stmt (?more (c, b)) ?rest (br # brs, els)"
      using br by (rule_tac reads_result) auto
    moreover have "reads_kinds (N - 1) (\<lambda>_. True) (else_if_branch (Suc n) (parse_statement_block n)) ?ks (c, b)"
      using Cons.prems br by (intro reads_else_if) auto
    ultimately have "reads_kinds (N - 1) after_stmt (pbind (else_if_branch (Suc n) (parse_statement_block n)) ?more) (?ks @ ?rest) (br # brs, els)"
      by (rule_tac reads_bind[where ?F1.0 = "\<lambda>_. True"]) (auto split: list.splits)
    then have "reads_kinds N after_stmt (pbind skip (\<lambda>_. pbind (else_if_branch (Suc n) (parse_statement_block n)) ?more)) (TK_ElseIf # ?ks @ ?rest) (br # brs, els)"
      by (rule reads_seq[OF reads_skip])
    then show ?thesis unfolding Suc br branch_kinds.simps append_Cons append_assoc by (rule reads_peek[rotated]) simp
  qed (use Cons.prems reads_no_tokens in simp)
qed

lemma reads_if:
  assumes "expr_ok c" "reads_block b" "\<forall>(c, b) \<in> set brs. expr_ok c \<and> reads_block b" "\<forall>b. els = Some b \<longrightarrow> reads_block b"
  shows "reads_stmt (SIf c b brs els)"
  unfolding reads_stmt_def
proof
  fix n
  let ?ks = "braced_kinds (block_kinds b)" and ?rest = "branch_kinds brs @ else_kinds els" and ?block = "parse_statement_block n"
  let ?more = "\<lambda>body. pbind (else_branches (Suc n) (Suc n) ?block) (\<lambda>(else_ifs, else_body). preturn (SIf c body else_ifs else_body))"
  let ?N = "n - length (parens_kinds c)"
  have "reads_kinds (?N - length ?ks) after_stmt (?more b) ?rest (SIf c b brs els)"
    by (rule reads_result[OF reads_else[OF assms(4,3)]]) auto
  moreover have "reads_kinds ?N (\<lambda>_. True) (braced ?block) ?ks b"
    by (rule reads_braced[OF reads_blockD[OF assms(2)]]) auto
  ultimately have "reads_kinds ?N after_stmt (pbind (braced ?block) ?more) (?ks @ ?rest) (SIf c b brs els)"
    by (rule_tac reads_bind[where ?F1.0 = "\<lambda>_. True"]) (auto split: list.splits)
  then have "reads_kinds n after_stmt (pbind (parse_parens (Suc n)) (\<lambda>c. pbind (braced ?block)
      (\<lambda>body. pbind (else_branches (Suc n) (Suc n) ?block) (\<lambda>(else_ifs, else_body). preturn (SIf c body else_ifs else_body)))))
      (parens_kinds c @ ?ks @ ?rest) (SIf c b brs els)"
    by (rule_tac reads_bind[OF reads_parens[OF assms(1), where F = "\<lambda>_. True"]]) (auto split: list.splits)
  then have "reads_kinds (Suc n) after_stmt (parse_if (Suc n) ?block) (TK_If # parens_kinds c @ ?ks @ ?rest) (SIf c b brs els)"
    unfolding parse_if_def by (intro reads_seq[OF reads_expect]) simp
  then show "reads_kinds (Suc n) after_stmt (parse_statement (Suc n) ?block) (stmt_kinds (SIf c b brs els)) (SIf c b brs els)"
    unfolding stmt_kinds.simps by (rule reads_peek[rotated]) (simp add: parse_statement_def)
qed

lemma reads_expr_stmt:
  assumes "expr_ok e"
  shows "reads_stmt (SExpr e)"
  unfolding reads_stmt_def
proof
  fix n
  obtain k ks where k: "stmt_kinds (SExpr e) = k # ks" "starts_operand k \<or> k = TK_Not \<or> k = TK_Minus" using expr_starts[OF assms] by auto
  have "reads_kinds (Suc n) after_stmt (parse_expr_statement (Suc n)) (k # ks) (SExpr e)"
    using reads_simple(8)[OF order_refl assms] k(1) by simp
  then show "reads_kinds (Suc n) after_stmt (parse_statement (Suc n) (parse_statement_block n)) (stmt_kinds (SExpr e)) (SExpr e)"
    unfolding k(1) by (rule reads_peek[rotated]) (use k(2) in \<open>auto simp: parse_statement_def starts_operand_def\<close>)
qed

text \<open>A simple statement is read by the parser for its keyword.\<close>

lemma reads_keyword_stmt:
  assumes "\<And>N n F. N \<le> n \<Longrightarrow> reads_kinds N F (p n) (stmt_kinds s) s" "stmt_kinds s = k # ks"
    "\<And>n block ts. peek ts = k \<Longrightarrow> parse_statement n block ts = p n ts"
  shows "reads_stmt s"
  unfolding reads_stmt_def assms(2) by (intro allI reads_peek[OF assms(3)] assms(1)[unfolded assms(2)]) auto

lemma reads_statements:
  "list_all simple_ok (flat_stmt s) \<Longrightarrow> reads_stmt s"
  "list_all simple_ok (flat_block ss) \<Longrightarrow> \<forall>s \<in> set ss. reads_stmt s"
  "list_all simple_ok (flat_branches brs) \<Longrightarrow> \<forall>(c, b) \<in> set brs. expr_ok c \<and> reads_block b"
  "list_all simple_ok (flat_else els) \<Longrightarrow> \<forall>b. els = Some b \<longrightarrow> reads_block b"
proof (induction s and ss and brs and els rule: stmt_kinds_block_kinds_branch_kinds_else_kinds.induct)
  case (5 c b ei els)
  then show ?case by (intro reads_if reads_block_of) auto
next
  case (13 c b brs)
  then show ?case using reads_block_of[of b] by auto
next
  case (15 b)
  then show ?case using reads_block_of[of b] by auto
next
  case (8 e)
  then show ?case by (intro reads_expr_stmt) simp
qed (auto simp: simple_ok_def parse_statement_def
    intro: reads_keyword_stmt[where p = parse_set, OF reads_simple(1)] reads_keyword_stmt[where p = parse_unset, OF reads_simple(2)]
      reads_keyword_stmt[where p = "\<lambda>_. parse_call", OF reads_simple(3)] reads_keyword_stmt[where p = parse_return, OF reads_simple(4)]
      reads_keyword_stmt[where p = parse_synthetic, OF reads_simple(5)] reads_keyword_stmt[where p = parse_ban, OF reads_simple(6)]
      reads_keyword_stmt[where p = parse_new, OF reads_simple(7)])

lemma reads_block_ok: "block_ok ss \<Longrightarrow> reads_block ss"
  unfolding block_ok_def by (rule reads_block_of[OF reads_statements(2)])

section \<open>Declarations\<close>

definition prop_kinds :: "string \<times> expr \<Rightarrow> token_kind list" where
  "prop_kinds pr = TK_Dot # TK_Ident (fst pr) # TK_Assign # expr_kinds (snd pr) @ [TK_Semicolon]"

definition props_kinds :: "(string \<times> expr) list \<Rightarrow> token_kind list" where
  "props_kinds props = concat (map prop_kinds props)"

definition props_ok :: "(string \<times> expr) list \<Rightarrow> bool" where
  "props_ok props \<longleftrightarrow> list_all (expr_ok \<circ> snd) props"

definition probe_kinds :: "probe_decl \<Rightarrow> token_kind list" where
  "probe_kinds pr = TK_Dot # TK_Probe # TK_Assign #
     (case pr_name pr of None \<Rightarrow> braced_kinds (props_kinds (pr_properties pr)) | Some name \<Rightarrow> [TK_Ident name, TK_Semicolon])"

definition inline_ok :: "probe_decl \<Rightarrow> bool" where
  "inline_ok pr \<longleftrightarrow> props_ok (pr_properties pr) \<and> (pr_name pr \<noteq> None \<longrightarrow> pr_properties pr = [])"

definition entry_kinds :: "acl_entry \<Rightarrow> token_kind list" where
  "entry_kinds en = (if ae_negate en then [TK_Not] else []) @ TK_StringLit (ae_addr en) #
     (case ae_mask en of None \<Rightarrow> [TK_Semicolon] | Some m \<Rightarrow> [TK_Slash, TK_IntLit (ucast m), TK_Semicolon])"

lemma reads_property:
  "expr_ok (snd pr) \<Longrightarrow> N \<le> n \<Longrightarrow>
   reads_kinds N F (parse_property n) (TK_Ident (fst pr) # TK_Assign # expr_kinds (snd pr) @ [TK_Semicolon]) pr"
  unfolding parse_property_def
  by (intro reads_seq[OF reads_ident_kind] reads_seq[OF reads_expect] reads_then[OF reads_expr] stops_comma)
    (auto simp: reads_return)

lemma reads_props:
  assumes "props_ok props" "N \<le> k" "N \<le> n"
  shows "reads_kinds N (\<lambda>k. k = TK_RBrace) (probe_properties k n) (props_kinds props) props"
  unfolding props_kinds_def
proof (rule reads_loop[where loop = "\<lambda>k. probe_properties k n" and cont = "\<lambda>k. k \<noteq> TK_RBrace" and Fi = "\<lambda>_. True"
      and item = "pbind (expect_kind TK_Dot) (\<lambda>_. parse_property n)"])
  show "\<forall>pr \<in> set props. reads_kinds N (\<lambda>_. True) (pbind (expect_kind TK_Dot) (\<lambda>_. parse_property n)) (prop_kinds pr) pr \<and>
      (\<exists>k ks. prop_kinds pr = k # ks \<and> k \<noteq> TK_RBrace \<and> True)"
    using assms unfolding prop_kinds_def by (auto simp: props_ok_def list_all_iff intro!: reads_seq[OF reads_expect] reads_property)
qed (use assms(2) in \<open>auto simp: pbind_assoc\<close>)

lemma reads_probe_body:
  "props_ok props \<Longrightarrow> N \<le> n \<Longrightarrow>
   reads_kinds N F (parse_probe_body n name) (braced_kinds (props_kinds props)) \<lparr>pr_name = name, pr_properties = props\<rparr>"
  unfolding parse_probe_body_def by (rule reads_result[OF reads_braced[OF reads_props]]) auto

lemma reads_probe_value:
  assumes "inline_ok pr" "N \<le> n"
  shows "reads_kinds N F (parse_probe_value n)
    (case pr_name pr of None \<Rightarrow> braced_kinds (props_kinds (pr_properties pr)) | Some name \<Rightarrow> [TK_Ident name, TK_Semicolon]) pr"
proof (cases "pr_name pr")
  case None
  have "reads_kinds N F (parse_probe_body n None) (braced_kinds (props_kinds (pr_properties pr))) pr"
    using reads_probe_body[of "pr_properties pr" N n F None] assms None by (cases pr) (auto simp: inline_ok_def)
  then show ?thesis unfolding None option.case braced_kinds_def by (rule reads_peek[rotated]) (simp add: parse_probe_value_def)
next
  case (Some name)
  have "reads_kinds N F (pbind expect_ident (\<lambda>probe_name. pbind expect_semicolon (\<lambda>_. preturn \<lparr>pr_name = Some probe_name, pr_properties = []\<rparr>)))
      [TK_Ident name, TK_Semicolon] pr"
    using assms Some by (cases pr) (auto simp: inline_ok_def intro!: reads_seq[OF reads_ident_kind] reads_final)
  then show ?thesis unfolding Some option.case by (rule reads_peek[rotated]) (simp add: parse_probe_value_def)
qed

lemma reads_items_end: "reads_kinds N (\<lambda>k. k = TK_RBrace) (backend_items (Suc k) n acc pr) [] (acc, pr)"
  by (auto simp: reads_kinds_def preturn_def)

lemma backend_items_Suc:
  "peek ts = TK_Dot \<Longrightarrow> backend_items (Suc k) n acc pr ts = pbind (expect_kind TK_Dot) (\<lambda>_ ts.
             if peek ts = TK_Probe
             then pbind skip (\<lambda>_. pbind (expect_kind TK_Assign) (\<lambda>_. pbind (parse_probe_value n) (\<lambda>pr. backend_items k n acc (Some pr)))) ts
             else pbind (parse_property n) (\<lambda>p. backend_items k n (acc @ [p]) pr) ts) ts"
  by simp

lemma reads_backend_items:
  assumes "\<forall>p. pr = Some p \<longrightarrow> inline_ok p"
  shows "props_ok props \<Longrightarrow> N \<le> k \<Longrightarrow> N \<le> n \<Longrightarrow>
    reads_kinds N (\<lambda>k. k = TK_RBrace) (backend_items k n acc None)
      (props_kinds props @ (case pr of None \<Rightarrow> [] | Some p \<Rightarrow> probe_kinds p)) (acc @ props, pr)"
proof (induction props arbitrary: acc N k)
  case Nil
  show ?case
  proof (cases k)
    case (Suc k')
    show ?thesis
    proof (cases pr)
      case None
      then show ?thesis unfolding Suc using reads_items_end[of N k' n acc None] by (simp add: props_kinds_def del: backend_items.simps)
    next
      case (Some p)
      define ks where "ks = (case pr_name p of None \<Rightarrow> braced_kinds (props_kinds (pr_properties p)) | Some name \<Rightarrow> [TK_Ident name, TK_Semicolon])"
      have len: "2 \<le> length ks" by (simp add: ks_def braced_kinds_def split: option.splits)
      have v: "reads_kinds (N - 1 - 1 - 1) (\<lambda>_. True) (parse_probe_value n) ks p"
        unfolding ks_def using assms Some Nil by (intro reads_probe_value) auto
      have e: "reads_kinds (N - 1 - 1 - 1 - length ks) (\<lambda>k. k = TK_RBrace) (backend_items k' n acc (Some p)) [] (acc, Some p)"
        using Nil(2) Suc len by (cases k') (auto intro: reads_items_end reads_no_tokens simp del: backend_items.simps)
      have "reads_kinds (N - 1 - 1 - 1) (\<lambda>k. k = TK_RBrace) (pbind (parse_probe_value n) (\<lambda>pr. backend_items k' n acc (Some pr))) ks (acc, Some p)"
        using reads_bind[where f = "\<lambda>pr. backend_items k' n acc (Some pr)", OF v e] by simp
      then have r: "reads_kinds (N - 1) (\<lambda>k. k = TK_RBrace) (pbind skip (\<lambda>_. pbind (expect_kind TK_Assign) (\<lambda>_.
          pbind (parse_probe_value n) (\<lambda>pr. backend_items k' n acc (Some pr))))) (TK_Probe # TK_Assign # ks) (acc, Some p)"
        by (intro reads_seq[OF reads_skip] reads_seq[OF reads_expect])
      have kinds: "props_kinds [] @ (case pr of None \<Rightarrow> [] | Some p \<Rightarrow> probe_kinds p) = TK_Dot # TK_Probe # TK_Assign # ks"
        by (simp add: Some probe_kinds_def ks_def props_kinds_def)
      show ?thesis
        unfolding Suc kinds append_Nil2 unfolding Some
        by (rule reads_peek[OF backend_items_Suc], assumption, rule reads_seq[OF reads_expect], rule reads_peek[OF _ r]) simp
    qed
  qed (use Nil reads_no_tokens in simp)
next
  case (Cons p props)
  show ?case
  proof (cases k)
    case (Suc k')
    let ?rest = "props_kinds props @ (case pr of None \<Rightarrow> [] | Some p \<Rightarrow> probe_kinds p)"
    let ?ks = "TK_Ident (fst p) # TK_Assign # expr_kinds (snd p) @ [TK_Semicolon]"
    have "reads_kinds (N - 1 - length ?ks) (\<lambda>k. k = TK_RBrace) (backend_items k' n (acc @ [p]) None) ?rest ((acc @ [p]) @ props, pr)"
      using Cons.prems Suc by (intro Cons.IH) (auto simp: props_ok_def)
    moreover have "reads_kinds (N - 1) (\<lambda>_. True) (parse_property n) ?ks p"
      using Cons.prems by (intro reads_property) (auto simp: props_ok_def)
    ultimately have r: "reads_kinds (N - 1) (\<lambda>k. k = TK_RBrace) (pbind (parse_property n) (\<lambda>p. backend_items k' n (acc @ [p]) None)) (?ks @ ?rest) (acc @ p # props, pr)"
      by (rule_tac reads_bind[where ?F1.0 = "\<lambda>_. True"]) (auto split: list.splits)
    have kinds: "props_kinds (p # props) @ (case pr of None \<Rightarrow> [] | Some p \<Rightarrow> probe_kinds p) = TK_Dot # ?ks @ ?rest"
      by (simp add: props_kinds_def prop_kinds_def)
    show ?thesis
      unfolding Suc kinds
      by (rule reads_peek[OF backend_items_Suc], assumption, rule reads_seq[OF reads_expect], unfold append_Cons, rule reads_peek[OF _ r[unfolded append_Cons]]) simp
  qed (use Cons.prems reads_no_tokens in simp)
qed

lemma reads_string_kind: "reads_kinds N F parse_acl_addr [TK_StringLit s] s"
  by (rule reads_one) (simp add: parse_acl_addr_def peek_def pbind_def skip_def preturn_def advance_Cons wf_tokens_def)

lemma mask_byte: "ucast (ucast (m :: u8) :: i64) = m"
  by transfer simp

lemma reads_mask:
  "reads_kinds N (\<lambda>k. k = TK_Semicolon) parse_acl_mask (case m of None \<Rightarrow> [] | Some m \<Rightarrow> [TK_Slash, TK_IntLit (ucast m)]) m"
  by (cases m) (auto simp: reads_kinds_def parse_acl_mask_def peek_def pbind_def skip_def preturn_def advance_Cons wf_tokens_def
      map_eq_Cons_conv mask_byte)

lemma reads_entry: "reads_kinds N (\<lambda>_. True) parse_acl_entry (entry_kinds en) en"
proof -
  have kinds: "entry_kinds en = (if ae_negate en then [TK_Not] else []) @ TK_StringLit (ae_addr en) #
      (case ae_mask en of None \<Rightarrow> [] | Some m \<Rightarrow> [TK_Slash, TK_IntLit (ucast m)]) @ [TK_Semicolon]"
    by (simp add: entry_kinds_def split: option.splits)
  have neg: "reads_kinds N (\<lambda>k. k \<noteq> TK_Not) (eat_exact TK_Not) (if ae_negate en then [TK_Not] else []) (ae_negate en)"
    by (cases "ae_negate en") (auto intro: reads_eat)
  have "reads_kinds M (\<lambda>_. True) (pbind parse_acl_addr (\<lambda>addr. pbind parse_acl_mask (\<lambda>mask.
      pbind expect_semicolon (\<lambda>_. preturn \<lparr>ae_negate = ae_negate en, ae_addr = addr, ae_mask = mask\<rparr>))))
      (TK_StringLit (ae_addr en) # (case ae_mask en of None \<Rightarrow> [] | Some m \<Rightarrow> [TK_Slash, TK_IntLit (ucast m)]) @ [TK_Semicolon]) en" for M
    by (intro reads_seq[OF reads_string_kind] reads_then[OF reads_mask]) (cases en, auto intro!: reads_final)
  then show ?thesis unfolding kinds parse_acl_entry_def by (intro reads_then[OF neg]) auto
qed

datatype decl = D_Import import_decl | D_Backend backend_decl | D_Probe probe_decl | D_Acl acl_decl | D_Sub sub_decl

fun decl_kinds :: "decl \<Rightarrow> token_kind list" where
  "decl_kinds (D_Import d) = [TK_Import, TK_Ident (imp_name d), TK_Semicolon]"
| "decl_kinds (D_Backend d) = TK_Backend # TK_Ident (be_name d) #
     braced_kinds (props_kinds (be_properties d) @ (case be_probe d of None \<Rightarrow> [] | Some p \<Rightarrow> probe_kinds p))"
| "decl_kinds (D_Probe d) = TK_Probe # TK_Ident (the (pr_name d)) # braced_kinds (props_kinds (pr_properties d))"
| "decl_kinds (D_Acl d) = TK_Acl # TK_Ident (acl_name d) # braced_kinds (concat (map entry_kinds (acl_entries d)))"
| "decl_kinds (D_Sub d) = TK_Sub # TK_Ident (sub_name d) # braced_kinds (block_kinds (sub_body d))"

fun decl_ok :: "decl \<Rightarrow> bool" where
  "decl_ok (D_Import d) \<longleftrightarrow> True"
| "decl_ok (D_Backend d) \<longleftrightarrow> props_ok (be_properties d) \<and> (\<forall>p \<in> set_option (be_probe d). inline_ok p)"
| "decl_ok (D_Probe d) \<longleftrightarrow> pr_name d \<noteq> None \<and> props_ok (pr_properties d)"
| "decl_ok (D_Acl d) \<longleftrightarrow> True"
| "decl_ok (D_Sub d) \<longleftrightarrow> block_ok (sub_body d)"

text \<open>A program collects its declarations by kind, in their order.\<close>

fun add_decl :: "vcl_program \<Rightarrow> decl \<Rightarrow> vcl_program" where
  "add_decl prog (D_Import d) = prog\<lparr>vp_imports := vp_imports prog @ [d]\<rparr>"
| "add_decl prog (D_Backend d) = prog\<lparr>vp_backends := vp_backends prog @ [d]\<rparr>"
| "add_decl prog (D_Probe d) = prog\<lparr>vp_probes := vp_probes prog @ [d]\<rparr>"
| "add_decl prog (D_Acl d) = prog\<lparr>vp_acls := vp_acls prog @ [d]\<rparr>"
| "add_decl prog (D_Sub d) = prog\<lparr>vp_subs := vp_subs prog @ [d]\<rparr>"

lemma reads_decl:
  assumes "N \<le> n"
  shows "reads_kinds N (\<lambda>_. True) parse_import (decl_kinds (D_Import imp)) imp"
    and "decl_ok (D_Backend be) \<Longrightarrow> reads_kinds N (\<lambda>_. True) (parse_backend n) (decl_kinds (D_Backend be)) be"
    and "decl_ok (D_Probe pr) \<Longrightarrow> reads_kinds N (\<lambda>_. True) (parse_probe_decl n) (decl_kinds (D_Probe pr)) pr"
    and "reads_kinds N (\<lambda>_. True) (parse_acl n) (decl_kinds (D_Acl acl)) acl"
    and "decl_ok (D_Sub sub) \<Longrightarrow> reads_kinds N (\<lambda>_. True) (parse_sub n) (decl_kinds (D_Sub sub)) sub"
proof -
  show "reads_kinds N (\<lambda>_. True) parse_import (decl_kinds (D_Import imp)) imp"
    unfolding parse_import_def decl_kinds.simps
    by (intro reads_seq[OF reads_expect] reads_seq[OF reads_ident_kind]) (cases imp, simp add: reads_return)
  show "reads_kinds N (\<lambda>_. True) (parse_backend n) (decl_kinds (D_Backend be)) be" if "decl_ok (D_Backend be)"
  proof -
    have "reads_kinds (N - 1 - 1 - 1) (\<lambda>k. k = TK_RBrace) (backend_items n n [] None)
        (props_kinds (be_properties be) @ (case be_probe be of None \<Rightarrow> [] | Some p \<Rightarrow> probe_kinds p)) ([] @ be_properties be, be_probe be)"
      using that assms by (intro reads_backend_items) auto
    from reads_braced[OF this] show ?thesis
      unfolding parse_backend_def decl_kinds.simps
      by (intro reads_seq[OF reads_expect] reads_seq[OF reads_ident_kind]) (rule reads_result, assumption, cases be, simp)
  qed
  show "reads_kinds N (\<lambda>_. True) (parse_probe_decl n) (decl_kinds (D_Probe pr)) pr" if "decl_ok (D_Probe pr)"
    using that assms reads_probe_body[of "pr_properties pr" "N - 1 - 1" n "\<lambda>_. True" "pr_name pr"]
    unfolding parse_probe_decl_def decl_kinds.simps by (intro reads_seq[OF reads_expect] reads_seq[OF reads_ident_kind]) (cases pr, auto)
  show "reads_kinds N (\<lambda>_. True) (parse_acl n) (decl_kinds (D_Acl acl)) acl"
  proof -
    have starts: "\<exists>k ks. entry_kinds en = k # ks \<and> k \<noteq> TK_RBrace" for en by (simp add: entry_kinds_def)
    have "reads_kinds (N - 1 - 1 - 1) (\<lambda>k. k = TK_RBrace) (acl_entries_loop n) (concat (map entry_kinds (acl_entries acl))) (acl_entries acl)"
      by (rule reads_loop[where loop = acl_entries_loop and cont = "\<lambda>k. k \<noteq> TK_RBrace" and Fi = "\<lambda>_. True"])
        (use assms starts reads_entry in auto)
    from reads_braced[OF this] show ?thesis
      unfolding parse_acl_def decl_kinds.simps
      by (intro reads_seq[OF reads_expect] reads_seq[OF reads_ident_kind]) (rule reads_result, assumption, cases acl, simp)
  qed
  show "reads_kinds N (\<lambda>_. True) (parse_sub n) (decl_kinds (D_Sub sub)) sub" if "decl_ok (D_Sub sub)"
  proof -
    have "reads_kinds (N - 1 - 1 - 1) (\<lambda>k. k = TK_RBrace) (parse_statement_block n) (block_kinds (sub_body sub)) (sub_body sub)"
      using that assms by (intro reads_blockD reads_block_ok) auto
    from reads_braced[OF this] show ?thesis
      unfolding parse_sub_def decl_kinds.simps
      by (intro reads_seq[OF reads_expect] reads_seq[OF reads_ident_kind]) (rule reads_result, assumption, cases sub, simp)
  qed
qed

lemma decl_starts: "\<exists>k ks. decl_kinds d = k # ks \<and> k \<in> {TK_Import, TK_Backend, TK_Probe, TK_Acl, TK_Sub}"
  by (cases d) auto

section \<open>Programs\<close>

lemma reads_dispatch:
  assumes "reads_kinds N (\<lambda>_. True) p ks1 x" "reads_kinds (N - length ks1) F (f x) ks y" "ks1 \<noteq> []"
    "\<And>ts. peek ts = hd ks1 \<Longrightarrow> q ts = pbind p f ts"
  shows "reads_kinds N F q (ks1 @ ks) y"
proof -
  obtain k ks' where k: "ks1 = k # ks'" using assms(3) by (cases ks1) auto
  have "reads_kinds N F (pbind p f) (ks1 @ ks) y"
    using reads_bind[where f = f, OF assms(1,2)] by (auto split: list.splits)
  then show ?thesis using assms(4) unfolding k append_Cons by (rule_tac reads_peek) auto
qed

lemma reads_one_decl:
  assumes "decl_ok d" "N \<le> n" "reads_kinds (N - length (decl_kinds d)) F (parse_decls k n (add_decl prog d)) ks y"
  shows "reads_kinds N F (parse_decls (Suc k) n prog) (decl_kinds d @ ks) y"
proof -
  note rest = assms(3)[unfolded add_decl.simps]
  show ?thesis
  proof (cases d)
    case (D_Import x)
    show ?thesis using rest unfolding D_Import by - (rule reads_dispatch[OF reads_decl(1)[OF assms(2)]], auto)
  next
    case (D_Backend x)
    show ?thesis using rest assms(1) unfolding D_Backend by - (rule reads_dispatch[OF reads_decl(2)[OF assms(2)]], auto)
  next
    case (D_Probe x)
    show ?thesis using rest assms(1) unfolding D_Probe by - (rule reads_dispatch[OF reads_decl(3)[OF assms(2)]], auto)
  next
    case (D_Acl x)
    show ?thesis using rest unfolding D_Acl by - (rule reads_dispatch[OF reads_decl(4)[OF assms(2)]], auto)
  next
    case (D_Sub x)
    show ?thesis using rest assms(1) unfolding D_Sub by - (rule reads_dispatch[OF reads_decl(5)[OF assms(2)]], auto)
  qed
qed

lemma reads_decls:
  "list_all decl_ok ds \<Longrightarrow> N \<le> k \<Longrightarrow> N \<le> n \<Longrightarrow>
   reads_kinds N (\<lambda>k. k = TK_Eof) (parse_decls k n prog) (concat (map decl_kinds ds)) (foldl add_decl prog ds)"
proof (induction ds arbitrary: N k prog)
  case Nil
  then show ?case by (cases k) (auto simp: reads_kinds_def preturn_def wf_tokens_def)
next
  case (Cons d ds)
  show ?case
  proof (cases k)
    case (Suc k')
    have "1 \<le> length (decl_kinds d)" using decl_starts[of d] by (metis length_Cons One_nat_def Suc_le_mono le0)
    then have "N - length (decl_kinds d) \<le> k'" "N - length (decl_kinds d) \<le> n" using Cons.prems Suc by linarith+
    then have "reads_kinds (N - length (decl_kinds d)) (\<lambda>k. k = TK_Eof) (parse_decls k' n (add_decl prog d)) (concat (map decl_kinds ds)) (foldl add_decl (add_decl prog d) ds)"
      using Cons.prems(1) by (intro Cons.IH) auto
    then show ?thesis unfolding Suc using Cons.prems by (simp add: reads_one_decl del: parse_decls.simps)
  qed (use Cons.prems reads_no_tokens in simp)
qed

datatype version_lit = VL_Real f64 | VL_Int i64

primrec version_kinds :: "version_lit \<Rightarrow> token_kind list" where
  "version_kinds (VL_Real r) = [TK_Vcl, TK_RealLit r, TK_Semicolon]"
| "version_kinds (VL_Int i) = [TK_Vcl, TK_IntLit i, TK_Semicolon]"

primrec version_text :: "version_lit \<Rightarrow> string" where
  "version_text (VL_Real r) = show_f64 r"
| "version_text (VL_Int i) = show_i64 i @ ''.0''"

definition source_kinds :: "version_lit option \<Rightarrow> decl list \<Rightarrow> token_kind list" where
  "source_kinds ver ds = (case ver of None \<Rightarrow> [] | Some v \<Rightarrow> version_kinds v) @ concat (map decl_kinds ds)"

definition source_program :: "version_lit option \<Rightarrow> decl list \<Rightarrow> vcl_program" where
  "source_program ver ds = foldl add_decl (empty_program\<lparr>vp_version := map_option version_text ver\<rparr>) ds"

lemma reads_version: "reads_kinds N F parse_vcl_version (version_kinds v) (version_text v)"
proof (cases v)
  case (VL_Real r)
  show ?thesis unfolding VL_Real version_kinds.simps version_text.simps parse_vcl_version_def
    by (intro reads_seq[OF reads_expect] reads_seq[where x = "show_f64 r", OF reads_one] reads_return)
      (simp add: peek_def pbind_def skip_def preturn_def advance_Cons wf_tokens_def)
next
  case (VL_Int i)
  show ?thesis unfolding VL_Int version_kinds.simps version_text.simps parse_vcl_version_def
    by (intro reads_seq[OF reads_expect] reads_seq[where x = "show_i64 i @ ''.0''", OF reads_one] reads_return)
      (simp add: peek_def pbind_def skip_def preturn_def advance_Cons wf_tokens_def)
qed

lemma reads_program:
  assumes "list_all decl_ok ds"
  shows "reads_kinds n (\<lambda>k. k = TK_Eof) (parse_program n) (source_kinds ver ds) (source_program ver ds)"
proof (cases ver)
  case None
  have "reads_kinds n (\<lambda>k. k = TK_Eof) (parse_decls n n empty_program) (concat (map decl_kinds ds)) (foldl add_decl empty_program ds)"
    using assms by (intro reads_decls) auto
  moreover have "parse_program n (ts @ rest) = parse_decls n n empty_program (ts @ rest)"
    if "map tok_kind ts = concat (map decl_kinds ds)" "peek rest = TK_Eof" for ts rest
  proof -
    have "peek (ts @ rest) \<noteq> TK_Vcl"
      using that decl_starts[of "hd ds"] by (cases ds) (auto simp: peek_append)
    then show ?thesis by (simp add: parse_program_def)
  qed
  ultimately show ?thesis
    by (simp add: None source_kinds_def source_program_def reads_kinds_def empty_program_def)
next
  case (Some v)
  let ?prog = "\<lambda>t. empty_program\<lparr>vp_version := Some t\<rparr>"
  have "reads_kinds (n - length (version_kinds v)) (\<lambda>k. k = TK_Eof) (parse_decls n n (?prog (version_text v))) (concat (map decl_kinds ds))
      (foldl add_decl (?prog (version_text v)) ds)"
    using assms by (intro reads_decls) auto
  from reads_bind[where f = "\<lambda>t. parse_decls n n (?prog t)", OF reads_version[where F = "\<lambda>_. True"] this]
  have "reads_kinds n (\<lambda>k. k = TK_Eof) (pbind parse_vcl_version (\<lambda>t. parse_decls n n (?prog t))) (source_kinds ver ds) (source_program ver ds)"
    by (auto simp: Some source_kinds_def source_program_def split: list.splits)
  moreover obtain ks where "source_kinds ver ds = TK_Vcl # ks" by (cases v) (auto simp: Some source_kinds_def)
  ultimately show ?thesis by (metis (mono_tags, lifting) parse_program_def reads_peek)
qed

text \<open>
  C33: Every program of the grammar - an optional version and any sequence of declarations, with
  statements nested to any depth - printed as tokens and laid out with any blanks and comments, is read
  back by the lexer and the parser as the same program.
\<close>

theorem program_round_trip:
  assumes "list_all decl_ok ds" "layout_ok ls" "list_all gap_ok g0" "layout_kinds ls = source_kinds ver ds"
  shows "parse_vcl (layout_text g0 ls) = Some (Inr (source_program ver ds))"
proof -
  obtain ts t where ts: "tokenize (layout_text g0 ls) = Inr (ts @ [t])" "map tok_kind ts = source_kinds ver ds" "tok_kind t = TK_Eof"
    using layout_tokens[OF assms(2,3)] assms(4) by metis
  have "parse_program (length (ts @ [t])) (ts @ [t]) = Some (Inr (source_program ver ds, [t]))"
    using ts(3) by (intro reads_kindsD[OF reads_program[OF assms(1)] ts(2) wf_eof]) (simp_all add: peek_def)
  then show ?thesis using ts(1) by (simp add: parse_vcl_def parse_tokens_def)
qed

definition demo_decls :: "decl list" where
  "demo_decls =
    [D_Backend \<lparr>be_name = ''b'', be_properties = [(''host'', EStringLit ''h'')], be_probe = Some \<lparr>pr_name = Some ''p'', pr_properties = []\<rparr>\<rparr>,
     D_Sub \<lparr>sub_name = ''vcl_recv'', sub_body =
       [SIf (EBinaryOp (EVariable ''req.url'') BO_Match (EStringLit ''x'')) [SReturn (EIdent ''pass'')] [] (Some [SUnset ''req.http.A''])]\<rparr>]"

definition demo_source :: layout where
  "demo_source = map (\<lambda>l. (l, CHR '' '', []))
    [LX_Keyword ''vcl'', LX_Int 4, LX_Symbol TK_Semicolon,
     LX_Keyword ''backend'', LX_Ident ''b'', LX_Symbol TK_LBrace,
     LX_Symbol TK_Dot, LX_Ident ''host'', LX_Symbol TK_Assign, LX_String ''h'', LX_Symbol TK_Semicolon,
     LX_Symbol TK_Dot, LX_Keyword ''probe'', LX_Symbol TK_Assign, LX_Ident ''p'', LX_Symbol TK_Semicolon, LX_Symbol TK_RBrace,
     LX_Keyword ''sub'', LX_Ident ''vcl_recv'', LX_Symbol TK_LBrace,
     LX_Keyword ''if'', LX_Symbol TK_LParen, LX_Ident ''req'', LX_Symbol TK_Dot, LX_Ident ''url'', LX_Symbol TK_Match, LX_String ''x'', LX_Symbol TK_RParen,
     LX_Symbol TK_LBrace, LX_Keyword ''return'', LX_Symbol TK_LParen, LX_Ident ''pass'', LX_Symbol TK_RParen, LX_Symbol TK_Semicolon, LX_Symbol TK_RBrace,
     LX_Keyword ''else'', LX_Symbol TK_LBrace, LX_Keyword ''unset'', LX_Ident ''req'', LX_Symbol TK_Dot, LX_Ident ''http'', LX_Symbol TK_Dot, LX_Ident ''A'',
     LX_Symbol TK_Semicolon, LX_Symbol TK_RBrace, LX_Symbol TK_RBrace]"

theorem program_round_trip_witness:
  "layout_ok demo_source \<and> parse_vcl (layout_text [HashComment ''c''] demo_source) = Some (Inr (source_program (Some (VL_Int 4)) demo_decls))"
proof -
  have ds: "list_all decl_ok demo_decls"
    by (simp add: demo_decls_def props_ok_def inline_ok_def block_ok_def simple_ok_def header_like_def)
  have ls: "layout_ok demo_source"
    by (simp add: layout_ok_def demo_source_def is_blank_def KEYWORDS_def SYMBOLS_def is_alpha_def ident_char_def is_alnum_def ascii_str_def in_range_def)
  have ks: "layout_kinds demo_source = source_kinds (Some (VL_Int 4)) demo_decls"
    by (simp add: layout_kinds_def demo_source_def source_kinds_def demo_decls_def KEYWORDS_def props_kinds_def prop_kinds_def probe_kinds_def
        braced_kinds_def parens_kinds_def parenthesised_def expr_level_def)
  show ?thesis using program_round_trip[OF ds ls _ ks, of "[HashComment ''c'']"] ls by simp
qed

end
