(* ===== verification/Backend_Health.thy ===== *)
theory Backend_Health
  imports Vcl_Value
begin

text \<open>
  Backends and their health (rv-backend, \<open>traits.rs\<close>, \<open>health.rs\<close>, \<open>simple.rs\<close>): the probe keeps the
  results of a window in a circular bitmap, and its verdict is whether the last results of the window
  reach the threshold.  Durations are nanoseconds; counters are 64-bit words.
\<close>

section \<open>Probes\<close>

type_synonym duration = nat
type_synonym socket_addr = "ip_addr \<times> u16"

datatype admin_health = AH_Probe | AH_Healthy | AH_Sick | AH_Deleted

primrec admin_health_name :: "admin_health \<Rightarrow> string" where
  "admin_health_name AH_Probe = ''probe''"
| "admin_health_name AH_Healthy = ''healthy''"
| "admin_health_name AH_Sick = ''sick''"
| "admin_health_name AH_Deleted = ''deleted''"

datatype probe_status = PS_Healthy | PS_Sick | PS_Unknown

record probe_result =
  res_status :: probe_status
  res_time :: duration
  res_http :: "u16 option"

record health_probe =
  hp_url :: string
  hp_interval :: duration
  hp_timeout :: duration
  hp_threshold :: u32
  hp_window :: u32
  hp_initial :: u32
  hp_target :: socket_addr
  hp_is_healthy :: bool
  hp_good_count :: u64
  hp_total_count :: u64
  hp_bitmap :: "bool list"

definition health_probe_new :: "socket_addr \<Rightarrow> string \<Rightarrow> duration \<Rightarrow> duration \<Rightarrow> u32 \<Rightarrow> u32 \<Rightarrow> health_probe" where
  "health_probe_new target url interval timeout threshold window =
     \<lparr>hp_url = url, hp_interval = interval, hp_timeout = timeout, hp_threshold = threshold, hp_window = window,
      hp_initial = 0, hp_target = target, hp_is_healthy = False, hp_good_count = 0, hp_total_count = 0,
      hp_bitmap = replicate (unat window) False\<rparr>"

text \<open>A window of zero makes the remainder panic: \<open>None\<close>.\<close>

definition record_result :: "health_probe \<Rightarrow> probe_result \<Rightarrow> health_probe option" where
  "record_result hp result =
     (let is_good = (res_status result = PS_Healthy);
          total_count = hp_total_count hp + 1;
          good = (if is_good then hp_good_count hp + 1 else hp_good_count hp)
      in if hp_window hp = 0 then None
         else let idx = unat (total_count - 1) mod unat (hp_window hp);
                  bits = (hp_bitmap hp)[idx := is_good];
                  healthy_in_window = (of_nat (length (filter id bits)) :: u32)
              in Some (hp\<lparr>hp_total_count := total_count, hp_good_count := good, hp_bitmap := bits,
                          hp_is_healthy := (hp_threshold hp \<le> healthy_in_window)\<rparr>))"

fun record_results :: "health_probe \<Rightarrow> probe_result list \<Rightarrow> health_probe option" where
  "record_results hp [] = Some hp"
| "record_results hp (r # rs) = (case record_result hp r of None \<Rightarrow> None | Some hp' \<Rightarrow> record_results hp' rs)"

section \<open>Simple backends\<close>

record simple_backend =
  sb_name :: string
  sb_addr :: socket_addr
  sb_admin_health :: admin_health
  sb_probe :: "health_probe option"

definition simple_backend_new :: "string \<Rightarrow> socket_addr \<Rightarrow> simple_backend" where
  "simple_backend_new name addr = \<lparr>sb_name = name, sb_addr = addr, sb_admin_health = AH_Probe, sb_probe = None\<rparr>"

definition with_probe :: "string \<Rightarrow> socket_addr \<Rightarrow> health_probe \<Rightarrow> simple_backend" where
  "with_probe name addr hp = \<lparr>sb_name = name, sb_addr = addr, sb_admin_health = AH_Probe, sb_probe = Some hp\<rparr>"

definition is_healthy :: "simple_backend \<Rightarrow> bool" where
  "is_healthy b =
     (case sb_admin_health b of
        AH_Healthy \<Rightarrow> True
      | AH_Sick \<Rightarrow> False
      | AH_Deleted \<Rightarrow> False
      | AH_Probe \<Rightarrow> (case sb_probe b of Some hp \<Rightarrow> hp_is_healthy hp | None \<Rightarrow> True))"

definition set_admin_health :: "admin_health \<Rightarrow> simple_backend \<Rightarrow> simple_backend" where
  "set_admin_health h b = b\<lparr>sb_admin_health := h\<rparr>"

section \<open>The verdict of a probe\<close>

text \<open>The last results of the window, as booleans; before the window is full, the missing ones count as bad.\<close>

definition is_good_result :: "probe_result \<Rightarrow> bool" where
  "is_good_result r \<longleftrightarrow> res_status r = PS_Healthy"

definition window_good :: "nat \<Rightarrow> probe_result list \<Rightarrow> nat" where
  "window_good w rs = length (filter is_good_result (drop (length rs - w) rs))"

text \<open>
  The bitmap after the results \<open>rs\<close>: the bit at \<open>i\<close> is the result with the largest position that is
  congruent to \<open>i\<close> modulo the window.
\<close>

definition slot :: "nat \<Rightarrow> bool list \<Rightarrow> nat \<Rightarrow> bool" where
  "slot w gs i \<longleftrightarrow> (let ps = filter (\<lambda>p. p mod w = i) [0..<length gs] in ps \<noteq> [] \<and> gs ! last ps)"

lemma slot_snoc:
  assumes "0 < w" "i < w"
  shows "slot w (gs @ [g]) i = (if i = length gs mod w then g else slot w gs i)"
proof -
  have "filter (\<lambda>p. p mod w = i) [0..<length (gs @ [g])] =
      filter (\<lambda>p. p mod w = i) [0..<length gs] @ (if length gs mod w = i then [length gs] else [])" by simp
  moreover have "last ps < length gs" if "ps = filter (\<lambda>p. p mod w = i) [0..<length gs]" "ps \<noteq> []" for ps
    using last_in_set[OF that(2)] that(1) by auto
  ultimately show ?thesis by (auto simp: slot_def Let_def nth_append)
qed

lemma upt_split: "j < w \<Longrightarrow> [0..<w] = [0..<j] @ j # [Suc j..<w]"
  using upt_add_eq_append[of 0 j "w - j"] upt_conv_Cons[of j w] by simp

text \<open>Counting the slots counts the last results: the positions of the window meet every remainder once.\<close>

lemma count_slots:
  assumes "0 < w"
  shows "length (filter (slot w gs) [0..<w]) = length (filter id (drop (length gs - w) gs))"
proof (induction gs rule: rev_induct)
  case Nil
  have "\<not> slot w [] i" for i by (simp add: slot_def)
  then show ?case by simp
next
  case (snoc g gs)
  let ?n = "length gs" and ?j = "length gs mod w"
  have j: "?j < w" using assms by simp
  note split = upt_split[OF j]
  have same: "filter (slot w (gs @ [g])) [a..<b] = filter (slot w gs) [a..<b]" if "b \<le> w" "?j < a \<or> b \<le> ?j" for a b
    using that assms by (intro filter_cong) (auto simp: slot_snoc)
  have new: "length (filter (slot w (gs @ [g])) [0..<w]) + (if slot w gs ?j then 1 else 0) =
      length (filter (slot w gs) [0..<w]) + (if g then 1 else 0)"
    unfolding split filter_append filter.simps using j same[of ?j 0] same[of w "Suc ?j"] slot_snoc[OF assms j, of gs g] by (cases g) simp_all
  show ?case
  proof (cases "?n < w")
    case True
    then have "filter (\<lambda>p. p mod w = ?j) [0..<?n] = []" by (auto simp: filter_empty_conv)
    then have "\<not> slot w gs ?j" by (simp add: slot_def)
    then show ?thesis using True new snoc by simp
  next
    case False
    let ?o = "?n - w"
    have "filter (\<lambda>p. p mod w = ?j) [Suc ?o..<?n] = []"
    proof (clarsimp simp: filter_empty_conv)
      fix p assume p: "Suc ?o \<le> p" "p < ?n" "p mod w = ?n mod w"
      then have "(?n - p) mod w = 0" by (metis mod_eq_dvd_iff_nat less_imp_le_nat dvd_imp_mod_0)
      moreover have "0 < ?n - p" "?n - p < w" using p False by auto
      ultimately show False by simp
    qed
    moreover have "[0..<?n] = [0..<?o] @ ?o # [Suc ?o..<?n]"
      using False assms by (intro upt_split) auto
    moreover have "?o mod w = ?j" using False by (simp add: le_mod_geq)
    ultimately have "slot w gs ?j = gs ! ?o" by (simp add: slot_def Let_def)
    moreover have "drop ?o gs = gs ! ?o # drop (Suc ?o) gs" using False assms by (intro Cons_nth_drop_Suc[symmetric]) auto
    moreover have "drop (length (gs @ [g]) - w) (gs @ [g]) = drop (Suc ?o) gs @ [g]" using False assms by (simp add: Suc_diff_le)
    ultimately show ?thesis using new snoc by (auto split: if_splits)
  qed
qed

lemma bitmap_slots:
  assumes "0 < w"
  shows "(map (slot w gs) [0..<w])[length gs mod w := g] = map (slot w (gs @ [g])) [0..<w]"
  by (rule nth_equalityI) (auto simp: nth_list_update slot_snoc[OF assms])

lemma record_results_snoc:
  "record_results hp (rs @ [r]) = (case record_results hp rs of None \<Rightarrow> None | Some hp' \<Rightarrow> record_result hp' r)"
  by (induction hp rs rule: record_results.induct) (auto split: option.splits)

lemma record_results_bitmap:
  assumes "hp_window hp \<noteq> 0" "hp_bitmap hp = replicate (unat (hp_window hp)) False" "hp_total_count hp = 0" "length rs < 2 ^ 64"
  shows "\<exists>hp'. record_results hp rs = Some hp' \<and> hp_window hp' = hp_window hp \<and> hp_threshold hp' = hp_threshold hp \<and>
    hp_total_count hp' = of_nat (length rs) \<and>
    hp_bitmap hp' = map (slot (unat (hp_window hp)) (map is_good_result rs)) [0..<unat (hp_window hp)] \<and>
    (rs \<noteq> [] \<longrightarrow> hp_is_healthy hp' = (hp_threshold hp \<le> of_nat (length (filter id (hp_bitmap hp')))))"
  using assms(4)
proof (induction rs rule: rev_induct)
  case Nil
  then show ?case using assms by (auto simp: slot_def Let_def map_replicate_const)
next
  case (snoc r rs)
  let ?w = "unat (hp_window hp)"
  have w: "0 < ?w" using assms(1) by (simp add: unat_gt_0)
  obtain hp' where hp': "record_results hp rs = Some hp'" "hp_window hp' = hp_window hp" "hp_threshold hp' = hp_threshold hp"
    "hp_total_count hp' = of_nat (length rs)" "hp_bitmap hp' = map (slot ?w (map is_good_result rs)) [0..<?w]"
    using snoc by auto
  have "unat (of_nat (length rs) :: u64) = length rs" using snoc.prems by (simp add: unat_of_nat)
  then show ?case
    using hp' assms(1) bitmap_slots[OF w, of "map is_good_result rs" "is_good_result r"]
    by (simp add: record_results_snoc record_result_def Let_def is_good_result_def[symmetric] add.commute comp_def)
qed

lemma filter_map_id: "length (filter id (map f xs)) = length (filter f xs)"
  by (induction xs) auto

text \<open>
  C38: After any sequence of fewer than 2 to the 64 results, a probe with a window of at least one
  reports its backend healthy exactly when the good ones among the last \<open>window\<close> results reach the
  threshold, the results that are still missing counting as bad.
\<close>

theorem probe_verdict_is_window:
  assumes "window \<noteq> 0" "rs \<noteq> []" "length rs < 2 ^ 64"
  shows "\<exists>hp. record_results (health_probe_new target url interval timeout threshold window) rs = Some hp \<and>
    (hp_is_healthy hp \<longleftrightarrow> unat threshold \<le> window_good (unat window) rs)"
proof -
  let ?hp = "health_probe_new target url interval timeout threshold window"
  obtain hp where hp: "record_results ?hp rs = Some hp"
    "hp_bitmap hp = map (slot (unat window) (map is_good_result rs)) [0..<unat window]"
    "hp_is_healthy hp = (threshold \<le> of_nat (length (filter id (hp_bitmap hp))))"
    using record_results_bitmap[of ?hp rs] assms by (auto simp: health_probe_new_def)
  have "length (filter id (hp_bitmap hp)) = window_good (unat window) rs"
    using count_slots[of "unat window" "map is_good_result rs"] assms(1)
    by (simp add: hp(2) filter_map_id window_good_def drop_map unat_gt_0)
  moreover have "length (filter id (hp_bitmap hp)) < 2 ^ 32"
  proof -
    have "unat window < 2 ^ LENGTH(32)" by (rule unsigned_less)
    then show ?thesis using length_filter_le[of id "hp_bitmap hp"] by (simp add: hp(2))
  qed
  ultimately show ?thesis using hp by (simp add: word_le_nat_alt unat_of_nat)
qed

definition demo_result :: "probe_status \<Rightarrow> probe_result" where
  "demo_result st = \<lparr>res_status = st, res_time = 0, res_http = None\<rparr>"

theorem probe_verdict_is_window_witness:
  "\<exists>hp. record_results (health_probe_new (V4 127 0 0 1, 80) ''/'' 5 1 2 3) (map demo_result [PS_Healthy, PS_Sick, PS_Sick, PS_Healthy, PS_Healthy]) = Some hp
    \<and> hp_is_healthy hp"
  using probe_verdict_is_window[of 3 "map demo_result [PS_Healthy, PS_Sick, PS_Sick, PS_Healthy, PS_Healthy]" "(V4 127 0 0 1, 80)" "''/''" 5 1 2]
  by (simp add: window_good_def is_good_result_def demo_result_def)

end
