(* ===== verification/Backend_Directors.thy ===== *)
theory Backend_Directors
  imports Backend_Health
begin

text \<open>
  The directors that choose a backend (rv-backend, \<open>director.rs\<close>, \<open>shard_director.rs\<close>,
  \<open>dns_director.rs\<close>).  A director is its list of backends and, where it has one, its counter, a
  64-bit word.  \<open>SipHash\<close>, which the ring of the shard director uses through \<open>DefaultHasher\<close>, is an
  argument: the standard library does not specify it.
\<close>

section \<open>Round robin\<close>

record round_robin =
  rr_name :: string
  rr_backends :: "simple_backend list"
  rr_next :: u64

definition rr_new :: "string \<Rightarrow> round_robin" where
  "rr_new name = \<lparr>rr_name = name, rr_backends = [], rr_next = 0\<rparr>"

definition rr_add_backend :: "simple_backend \<Rightarrow> round_robin \<Rightarrow> round_robin" where
  "rr_add_backend b d = d\<lparr>rr_backends := rr_backends d @ [b]\<rparr>"

fun rr_scan :: "nat \<Rightarrow> simple_backend list \<Rightarrow> u64 \<Rightarrow> simple_backend option \<times> u64" where
  "rr_scan 0 bs nx = (None, nx)"
| "rr_scan (Suc k) bs nx =
     (let idx = unat nx mod length bs in
      if is_healthy (bs ! idx) then (Some (bs ! idx), nx + 1) else rr_scan k bs (nx + 1))"

definition rr_resolve :: "round_robin \<Rightarrow> simple_backend option \<times> round_robin" where
  "rr_resolve d =
     (if rr_backends d = [] then (None, d)
      else (case rr_scan (length (rr_backends d)) (rr_backends d) (rr_next d) of (r, nx) \<Rightarrow> (r, d\<lparr>rr_next := nx\<rparr>)))"

text \<open>\<open>healthy\<close> and \<open>list\<close>, which all directors define alike.\<close>

definition any_healthy :: "simple_backend list \<Rightarrow> bool" where
  "any_healthy bs \<longleftrightarrow> list_ex is_healthy bs"

record list_entry =
  le_name :: string
  le_admin_health :: admin_health
  le_is_healthy :: bool
  le_description :: string

definition show_addr :: "socket_addr \<Rightarrow> string" where
  "show_addr a = (case fst a of V4 _ _ _ _ \<Rightarrow> show_ip (fst a) | V6 _ \<Rightarrow> ''['' @ show_ip (fst a) @ '']'') @ '':'' @ show_nat (unat (snd a))"

definition list_backends :: "simple_backend list \<Rightarrow> list_entry list" where
  "list_backends bs = map (\<lambda>b. \<lparr>le_name = sb_name b, le_admin_health = sb_admin_health b, le_is_healthy = is_healthy b,
     le_description = show_addr (sb_addr b)\<rparr>) bs"

section \<open>Random, hash and fallback\<close>

record random_director =
  rd_name :: string
  rd_backends :: "simple_backend list"
  rd_counter :: u64

definition rd_new :: "string \<Rightarrow> random_director" where
  "rd_new name = \<lparr>rd_name = name, rd_backends = [], rd_counter = 0\<rparr>"

definition rd_add_backend :: "simple_backend \<Rightarrow> random_director \<Rightarrow> random_director" where
  "rd_add_backend b d = d\<lparr>rd_backends := rd_backends d @ [b]\<rparr>"

definition rd_resolve :: "random_director \<Rightarrow> simple_backend option \<times> random_director" where
  "rd_resolve d =
     (let healthy = filter is_healthy (rd_backends d) in
      if healthy = [] then (None, d)
      else (Some (healthy ! (unat (rd_counter d) mod length healthy)), d\<lparr>rd_counter := rd_counter d + 1\<rparr>))"

record plain_director =
  pd_name :: string
  pd_backends :: "simple_backend list"

definition pd_new :: "string \<Rightarrow> plain_director" where
  "pd_new name = \<lparr>pd_name = name, pd_backends = []\<rparr>"

definition pd_add_backend :: "simple_backend \<Rightarrow> plain_director \<Rightarrow> plain_director" where
  "pd_add_backend b d = d\<lparr>pd_backends := pd_backends d @ [b]\<rparr>"

definition hd_resolve_with_key :: "u64 \<Rightarrow> plain_director \<Rightarrow> simple_backend option" where
  "hd_resolve_with_key key d =
     (let healthy = filter is_healthy (pd_backends d) in
      if healthy = [] then None else Some (healthy ! (unat key mod length healthy)))"

definition hd_resolve :: "plain_director \<Rightarrow> simple_backend option" where
  "hd_resolve d = hd_resolve_with_key 0 d"

definition fb_resolve :: "plain_director \<Rightarrow> simple_backend option" where
  "fb_resolve d = find is_healthy (pd_backends d)"

section \<open>The consistent hash ring\<close>

definition DEFAULT_REPLICAS :: u32 where
  "DEFAULT_REPLICAS = 150"

record ring_point =
  rp_hash :: u64
  rp_backend :: nat

record shard_director =
  sd_name :: string
  sd_ring :: "ring_point list"
  sd_backends :: "simple_backend list"
  sd_replicas :: u32

definition build_ring :: "(string \<Rightarrow> u64) \<Rightarrow> simple_backend list \<Rightarrow> u32 \<Rightarrow> ring_point list" where
  "build_ring hash_key bs replicas =
     sort_key rp_hash (concat (map (\<lambda>(idx, b). map (\<lambda>r. \<lparr>rp_hash = hash_key (sb_name b @ ''-'' @ show_nat r), rp_backend = idx\<rparr>)
       [0..<unat replicas]) (enumerate 0 bs)))"

definition shard_with_replicas :: "(string \<Rightarrow> u64) \<Rightarrow> string \<Rightarrow> simple_backend list \<Rightarrow> u32 \<Rightarrow> shard_director" where
  "shard_with_replicas hash_key name bs replicas =
     \<lparr>sd_name = name, sd_ring = build_ring hash_key bs replicas, sd_backends = bs, sd_replicas = replicas\<rparr>"

definition shard_director_new :: "(string \<Rightarrow> u64) \<Rightarrow> string \<Rightarrow> simple_backend list \<Rightarrow> shard_director" where
  "shard_director_new hash_key name bs = shard_with_replicas hash_key name bs DEFAULT_REPLICAS"

definition set_backends :: "(string \<Rightarrow> u64) \<Rightarrow> simple_backend list \<Rightarrow> shard_director \<Rightarrow> shard_director" where
  "set_backends hash_key bs d = d\<lparr>sd_ring := build_ring hash_key bs (sd_replicas d), sd_backends := bs\<rparr>"

text \<open>\<open>slice::binary_search_by_key\<close>: the loop that halves the range, and its last comparison.\<close>

function bisect :: "u64 list \<Rightarrow> u64 \<Rightarrow> nat \<Rightarrow> nat \<Rightarrow> nat" where
  "bisect hs h base sz =
     (if sz \<le> 1 then base
      else let half = sz div 2; mid = base + half in
           bisect hs h (if h < hs ! mid then base else mid) (sz - half))"
  by pat_completeness auto
termination by (relation "measure (\<lambda>(_, _, _, sz). sz)") auto

declare bisect.simps [simp del]

definition binary_search :: "u64 list \<Rightarrow> u64 \<Rightarrow> nat + nat" where
  "binary_search hs h =
     (if hs = [] then Inl 0
      else let base = bisect hs h 0 (length hs) in
           if hs ! base = h then Inr base else Inl (if hs ! base < h then base + 1 else base))"

definition ring_start :: "ring_point list \<Rightarrow> u64 \<Rightarrow> nat" where
  "ring_start ring h =
     (case binary_search (map rp_hash ring) h of Inr p \<Rightarrow> p | Inl p \<Rightarrow> if length ring \<le> p then 0 else p)"

text \<open>The walk along the ring, which stops once it has seen every backend.\<close>

fun ring_walk :: "simple_backend list \<Rightarrow> ring_point list \<Rightarrow> bool list \<Rightarrow> nat \<Rightarrow> simple_backend option" where
  "ring_walk bs [] seen n = None"
| "ring_walk bs (p # ps) seen n =
     (let i = rp_backend p in
      if i < length bs then
        if is_healthy (bs ! i) then Some (bs ! i)
        else if \<not> seen ! i then
          if length bs \<le> n + 1 then None else ring_walk bs ps (seen[i := True]) (n + 1)
        else ring_walk bs ps seen n
      else ring_walk bs ps seen n)"

definition resolve_with_hash :: "u64 \<Rightarrow> shard_director \<Rightarrow> simple_backend option" where
  "resolve_with_hash h d =
     (if sd_ring d = [] \<or> sd_backends d = [] then None
      else let start = ring_start (sd_ring d) h; len = length (sd_ring d) in
           ring_walk (sd_backends d) (map (\<lambda>k. sd_ring d ! ((start + k) mod len)) [0..<len])
             (replicate (length (sd_backends d)) False) 0)"

definition sd_resolve_with_key :: "(string \<Rightarrow> u64) \<Rightarrow> string \<Rightarrow> shard_director \<Rightarrow> simple_backend option" where
  "sd_resolve_with_key hash_key key d = resolve_with_hash (hash_key key) d"

fun first_on_ring :: "simple_backend list \<Rightarrow> ring_point list \<Rightarrow> simple_backend option" where
  "first_on_ring bs [] = None"
| "first_on_ring bs (p # ps) =
     (if rp_backend p < length bs \<and> is_healthy (bs ! rp_backend p) then Some (bs ! rp_backend p) else first_on_ring bs ps)"

definition sd_resolve :: "shard_director \<Rightarrow> simple_backend option" where
  "sd_resolve d = first_on_ring (sd_backends d) (sd_ring d)"

section \<open>DNS\<close>

record dns_director =
  dd_name :: string
  dd_hostname :: string
  dd_port :: u16
  dd_backends :: "simple_backend list"
  dd_interval :: duration
  dd_sub :: round_robin

definition dns_new :: "string \<Rightarrow> string \<Rightarrow> u16 \<Rightarrow> duration \<Rightarrow> dns_director" where
  "dns_new name hostname port interval =
     \<lparr>dd_name = name, dd_hostname = hostname, dd_port = port, dd_backends = [], dd_interval = interval, dd_sub = rr_new (name @ ''.rr'')\<rparr>"

text \<open>The answer of the resolver is an argument: \<open>None\<close> is a failed lookup.\<close>

definition dns_update :: "socket_addr list option \<Rightarrow> dns_director \<Rightarrow> dns_director" where
  "dns_update answer d =
     (case answer of
        None \<Rightarrow> d
      | Some addrs \<Rightarrow>
          if addrs = [] then d
          else let bs = map (\<lambda>(i, a). simple_backend_new (dd_name d @ ''.'' @ show_nat i) a) (enumerate 0 addrs)
               in d\<lparr>dd_backends := bs, dd_sub := foldl (\<lambda>rr b. rr_add_backend b rr) (rr_new (dd_name d @ ''.rr'')) bs\<rparr>)"

definition dns_resolve :: "dns_director \<Rightarrow> simple_backend option \<times> dns_director" where
  "dns_resolve d = (case rr_resolve (dd_sub d) of (r, sub) \<Rightarrow> (r, d\<lparr>dd_sub := sub\<rparr>))"

section \<open>The contract of a director\<close>

text \<open>
  What a caller relies on: the backend that is returned is one of the director's and healthy, and one is
  returned whenever there is one.  \<open>ok\<close> is what a director needs for the second.
\<close>

locale director =
  fixes resolve :: "'d \<Rightarrow> simple_backend option" and members :: "'d \<Rightarrow> simple_backend list" and ok :: "'d \<Rightarrow> bool"
  assumes sound: "resolve d = Some b \<Longrightarrow> b \<in> set (members d) \<and> is_healthy b"
    and complete: "ok d \<Longrightarrow> any_healthy (members d) \<Longrightarrow> resolve d \<noteq> None"
begin

lemma resolve_iff: "ok d \<Longrightarrow> resolve d = None \<longleftrightarrow> \<not> any_healthy (members d)"
  using sound complete by (fastforce simp: any_healthy_def list_ex_iff)

lemma resolve_healthy:
  assumes "ok d"
  shows "(\<exists>b. resolve d = Some b \<and> b \<in> set (members d) \<and> is_healthy b) \<or> resolve d = None \<and> \<not> any_healthy (members d)"
  using sound resolve_iff[OF assms] by (cases "resolve d") auto

end

text \<open>A scan of as many consecutive tickets as there are backends meets every backend, unless the counter wraps.\<close>

lemma rr_scan_sound: "bs \<noteq> [] \<Longrightarrow> fst (rr_scan k bs nx) = Some b \<Longrightarrow> b \<in> set bs \<and> is_healthy b"
  by (induction k bs nx rule: rr_scan.induct) (auto simp: Let_def split: if_splits)

lemma rr_scan_None:
  "fst (rr_scan k bs nx) = None \<Longrightarrow> unat nx + k \<le> 2 ^ 64 \<Longrightarrow> j < k \<Longrightarrow> \<not> is_healthy (bs ! ((unat nx + j) mod length bs))"
proof (induction k bs nx arbitrary: j rule: rr_scan.induct)
  case (2 k bs nx)
  have sick: "\<not> is_healthy (bs ! (unat nx mod length bs))" "fst (rr_scan k bs (nx + 1)) = None"
    using 2(2) by (auto simp: Let_def split: if_splits)
  show ?case
  proof (cases j)
    case (Suc i)
    have "unat (nx + 1) = unat nx + 1" using 2(3) Suc 2(4) unat_add64[of nx 1] by simp
    then show ?thesis using 2(1)[OF refl sick(1) sick(2), of i] 2(3,4) Suc by simp
  qed (use sick in simp)
qed simp

lemma residues_covered: "0 < (w :: nat) \<Longrightarrow> i < w \<Longrightarrow> \<exists>j < w. (a + j) mod w = i"
proof -
  assume w: "0 < w" "i < w"
  let ?j = "(i + (w - a mod w)) mod w"
  have "(a + ?j) mod w = (a mod w + (i + (w - a mod w))) mod w" by (simp add: mod_simps)
  also have "a mod w + (i + (w - a mod w)) = i + w" using mod_less_divisor[OF w(1), of a] by linarith
  also have "(i + w) mod w = i" using w(2) by simp
  finally show ?thesis using w by (intro exI[of _ ?j]) auto
qed

lemma rr_resolve_complete:
  assumes "unat (rr_next d) + length (rr_backends d) \<le> 2 ^ 64" "any_healthy (rr_backends d)"
  shows "fst (rr_resolve d) \<noteq> None"
proof
  assume none: "fst (rr_resolve d) = None"
  let ?bs = "rr_backends d"
  have ne: "?bs \<noteq> []" using assms(2) by (auto simp: any_healthy_def)
  then have scan: "fst (rr_scan (length ?bs) ?bs (rr_next d)) = None"
    using none by (simp add: rr_resolve_def split: prod.splits)
  obtain i where i: "i < length ?bs" "is_healthy (?bs ! i)" using assms(2) by (auto simp: any_healthy_def list_ex_iff in_set_conv_nth)
  have "0 < length ?bs" using ne by simp
  then obtain j where j: "j < length ?bs" "(unat (rr_next d) + j) mod length ?bs = i"
    using residues_covered[OF _ i(1), of "unat (rr_next d)"] by blast
  show False using rr_scan_None[OF scan assms(1) j(1)] i(2) unfolding j(2) by contradiction
qed

lemma nth_filter_mod: "filter P xs \<noteq> [] \<Longrightarrow> filter P xs ! (k mod length (filter P xs)) \<in> set xs \<and> P (filter P xs ! (k mod length (filter P xs)))"
  using nth_mem[of "k mod length (filter P xs)" "filter P xs"] by simp

lemma filter_any: "any_healthy bs \<Longrightarrow> filter is_healthy bs \<noteq> []"
  by (auto simp: any_healthy_def list_ex_iff filter_empty_conv)

interpretation rr: director "\<lambda>d. fst (rr_resolve d)" rr_backends "\<lambda>d. unat (rr_next d) + length (rr_backends d) \<le> 2 ^ 64"
proof
  show "fst (rr_resolve d) = Some b \<Longrightarrow> b \<in> set (rr_backends d) \<and> is_healthy b" for d b
    using rr_scan_sound[of "rr_backends d" "length (rr_backends d)" "rr_next d" b] by (auto simp: rr_resolve_def split: if_splits prod.splits)
qed (rule rr_resolve_complete)

interpretation rd: director "\<lambda>d. fst (rd_resolve d)" rd_backends "\<lambda>_. True"
  using nth_filter_mod[of is_healthy] filter_any by unfold_locales (auto simp: rd_resolve_def Let_def split: if_splits)

interpretation hd: director "hd_resolve_with_key key" pd_backends "\<lambda>_. True" for key
  using nth_filter_mod[of is_healthy] filter_any by unfold_locales (auto simp: hd_resolve_with_key_def Let_def split: if_splits)

interpretation fb: director fb_resolve pd_backends "\<lambda>_. True"
  by unfold_locales (auto simp: fb_resolve_def any_healthy_def list_ex_iff find_None_iff find_Some_iff)

interpretation dns: director "\<lambda>d. fst (dns_resolve d)" "\<lambda>d. rr_backends (dd_sub d)"
  "\<lambda>d. unat (rr_next (dd_sub d)) + length (rr_backends (dd_sub d)) \<le> 2 ^ 64"
proof
  have eq: "fst (dns_resolve d) = fst (rr_resolve (dd_sub d))" for d by (simp add: dns_resolve_def split: prod.splits)
  show "fst (dns_resolve d) = Some b \<Longrightarrow> b \<in> set (rr_backends (dd_sub d)) \<and> is_healthy b" for d b
    unfolding eq by (rule rr.sound)
  show "unat (rr_next (dd_sub d)) + length (rr_backends (dd_sub d)) \<le> 2 ^ 64 \<Longrightarrow> any_healthy (rr_backends (dd_sub d)) \<Longrightarrow> fst (dns_resolve d) \<noteq> None" for d
    unfolding eq by (rule rr.complete)
qed

section \<open>The ring\<close>

lemma first_on_ring_None:
  "first_on_ring bs ps = None \<longleftrightarrow> (\<forall>p \<in> set ps. rp_backend p < length bs \<longrightarrow> \<not> is_healthy (bs ! rp_backend p))"
  by (induction ps) auto

lemma first_on_ring_Some: "first_on_ring bs ps = Some b \<Longrightarrow> b \<in> set bs \<and> is_healthy b"
  by (induction ps) (auto split: if_splits)

lemma count_update: "i < length xs \<Longrightarrow> \<not> xs ! i \<Longrightarrow> length (filter (\<lambda>x. x) (xs[i := True])) = Suc (length (filter (\<lambda>x. x) xs))"
proof (induction xs arbitrary: i)
  case (Cons x xs)
  then show ?case by (cases i) auto
qed simp

lemma all_counted: "length (filter (\<lambda>x. x) xs) = length xs \<Longrightarrow> i < length xs \<Longrightarrow> xs ! i"
  by (metis length_filter_less less_irrefl nth_mem)

text \<open>Stopping once every backend has been seen does not change the answer.\<close>

lemma ring_walk_first:
  "length seen = length bs \<Longrightarrow> n = length (filter (\<lambda>x. x) seen) \<Longrightarrow> (\<forall>i < length bs. seen ! i \<longrightarrow> \<not> is_healthy (bs ! i)) \<Longrightarrow>
   ring_walk bs ps seen n = first_on_ring bs ps"
proof (induction bs ps seen n rule: ring_walk.induct)
  case (2 bs p ps seen n)
  let ?i = "rp_backend p"
  show ?case
  proof (cases "?i < length bs \<and> \<not> is_healthy (bs ! ?i) \<and> \<not> seen ! ?i")
    case True
    have count: "length (filter (\<lambda>x. x) (seen[?i := True])) = n + 1" using True 2(4,5) count_update[of ?i seen] by simp
    have sick: "\<forall>i < length bs. seen[?i := True] ! i \<longrightarrow> \<not> is_healthy (bs ! i)"
      using True 2(4,6) by (auto simp: nth_list_update)
    show ?thesis
    proof (cases "length bs \<le> n + 1")
      case stop: True
      have "length (filter (\<lambda>x. x) (seen[?i := True])) = length (seen[?i := True])"
        using count stop 2(4) length_filter_le[of "\<lambda>x. x" "seen[?i := True]"] by simp
      then have "\<forall>i < length bs. \<not> is_healthy (bs ! i)" using sick all_counted[of "seen[?i := True]"] 2(4) by auto
      then have "first_on_ring bs (p # ps) = None" unfolding first_on_ring_None by blast
      then show ?thesis using True stop by (simp add: Let_def)
    next
      case False
      then show ?thesis using True 2(1)[OF refl _ _ _ False] count sick 2(4) by (simp add: Let_def)
    qed
  next
    case False
    then show ?thesis using 2 by (auto simp: Let_def)
  qed
qed simp

lemma bisect_spec:
  "sorted hs \<Longrightarrow> 0 < sz \<Longrightarrow> base + sz \<le> length hs \<Longrightarrow> bisect hs h base sz = b \<Longrightarrow>
   base \<le> b \<and> b < base + sz \<and> (b = base \<or> hs ! b \<le> h) \<and> (\<forall>j. b < j \<and> j < base + sz \<longrightarrow> h < hs ! j)"
proof (induction hs h base sz rule: bisect.induct)
  case (1 hs h base sz)
  show ?case
  proof (cases "sz \<le> 1")
    case True
    then show ?thesis using 1(3,5) bisect.simps[of hs h base sz] by auto
  next
    case False
    let ?half = "sz div 2"
    let ?mid = "base + ?half" and ?base = "if h < hs ! (base + ?half) then base else base + ?half"
    have b: "bisect hs h ?base (sz - ?half) = b" using 1(5) False bisect.simps[of hs h base sz] by (simp add: Let_def)
    have half: "0 < ?half" "?half \<le> sz - ?half" "?half < sz" using False by auto
    have IH: "?base \<le> b \<and> b < ?base + (sz - ?half) \<and> (b = ?base \<or> hs ! b \<le> h) \<and> (\<forall>j. b < j \<and> j < ?base + (sz - ?half) \<longrightarrow> h < hs ! j)"
    proof (rule 1(1)[OF False refl refl 1(2) _ _ b])
      show "0 < sz - ?half" using half by simp
      show "?base + (sz - ?half) \<le> length hs" using 1(4) half(3) by (cases "h < hs ! ?mid") auto
    qed
    show ?thesis
    proof (cases "h < hs ! ?mid")
      case True
      have high: "h < hs ! j" if "base + (sz - ?half) \<le> j" "j < base + sz" for j
        using sorted_nth_mono[OF 1(2), of ?mid j] that half 1(4) True by (auto intro: less_le_trans)
      have low: "base \<le> b" "b < base + (sz - ?half)" "b = base \<or> hs ! b \<le> h"
        "\<And>j. b < j \<Longrightarrow> j < base + (sz - ?half) \<Longrightarrow> h < hs ! j"
        using IH unfolding if_P[OF True] by blast+
      have "h < hs ! j" if "b < j" "j < base + sz" for j
        using low(4)[OF that(1)] high[OF _ that(2)] by (cases "j < base + (sz - ?half)") auto
      moreover have "b < base + sz" using low(2) by simp
      ultimately show ?thesis using low(1,3) by blast
    next
      case False
      have mid: "?mid + (sz - ?half) = base + sz" using half(3) by simp
      have "?mid \<le> b" "b < base + sz" "b = ?mid \<or> hs ! b \<le> h" "\<forall>j. b < j \<and> j < base + sz \<longrightarrow> h < hs ! j"
        using IH unfolding if_not_P[OF False] mid by blast+
      moreover have "hs ! ?mid \<le> h" using False by (simp add: not_less)
      ultimately show ?thesis by auto
    qed
  qed
qed

text \<open>On a ring without colliding points, the search finds the number of points before the key.\<close>

lemma sorted_split: "sorted (map f xs) \<Longrightarrow> xs = filter (\<lambda>x. f x < h) xs @ filter (\<lambda>x. h \<le> f x) (xs :: 'a list)" for f :: "'a \<Rightarrow> u64"
proof (induction xs)
  case (Cons x xs)
  show ?case
  proof (cases "f x < h")
    case False
    then have "\<forall>y \<in> set (x # xs). h \<le> f y" using Cons.prems by (auto intro: order_trans)
    then have "filter (\<lambda>x. f x < h) (x # xs) = []" "filter (\<lambda>x. h \<le> f x) (x # xs) = x # xs"
      by (auto simp: filter_empty_conv not_less filter_id_conv)
    then show ?thesis by simp
  qed (use Cons in auto)
qed simp

lemma count_less:
  fixes hs :: "u64 list"
  assumes "sorted hs" "p \<le> length hs" "\<forall>i < p. hs ! i < h" "\<forall>i. p \<le> i \<and> i < length hs \<longrightarrow> h \<le> hs ! i"
  shows "length (filter (\<lambda>x. x < h) hs) = p"
proof -
  have "filter (\<lambda>x. x < h) (take p hs) = take p hs" using assms(2,3) by (auto simp: filter_id_conv in_set_conv_nth)
  moreover have "filter (\<lambda>x. x < h) (drop p hs) = []"
    using assms(4) by (fastforce simp: filter_empty_conv in_set_conv_nth not_less)
  ultimately have "filter (\<lambda>x. x < h) (take p hs @ drop p hs) = take p hs" by (simp only: filter_append append_Nil2)
  then show ?thesis using assms(2) by simp
qed

lemma ring_start_count:
  assumes "sorted (map rp_hash ring)" "distinct (map rp_hash ring)" "ring \<noteq> []"
  shows "ring_start ring h = length (filter (\<lambda>p. rp_hash p < h) ring) mod length ring"
proof -
  let ?hs = "map rp_hash ring"
  define b where "b = bisect ?hs h 0 (length ?hs)"
  have b: "b < length ?hs" "b = 0 \<or> ?hs ! b \<le> h" "\<And>j. b < j \<Longrightarrow> j < length ?hs \<Longrightarrow> h < ?hs ! j"
    using bisect_spec[OF assms(1), of "length ?hs" 0 h b] assms(3) b_def by auto
  have less: "?hs ! i < ?hs ! b" if "i < b" for i
    using sorted_nth_mono[OF assms(1), of i b] nth_eq_iff_index_eq[OF assms(2), of i b] that b(1) by fastforce
  have count: "length (filter (\<lambda>p. rp_hash p < h) ring) = length (filter (\<lambda>x. x < h) ?hs)" by (simp add: filter_map comp_def)
  have found: "binary_search ?hs h = (if ?hs ! b = h then Inr b else Inl (if ?hs ! b < h then b + 1 else b))"
    using assms(3) unfolding binary_search_def b_def by (simp add: Let_def)
  consider "?hs ! b = h" | "?hs ! b < h" | "h < ?hs ! b" by fastforce
  then show ?thesis
  proof cases
    case 1
    have c: "length (filter (\<lambda>x. x < h) ?hs) = b"
    proof (rule count_less[OF assms(1)])
      show "\<forall>i < b. ?hs ! i < h" using less 1 by metis
      show "\<forall>i. b \<le> i \<and> i < length ?hs \<longrightarrow> h \<le> ?hs ! i" using b(3) 1 by (metis le_less order_refl)
    qed (use b(1) in simp)
    show ?thesis unfolding count c ring_start_def found using 1 b(1) by simp
  next
    case 2
    have c: "length (filter (\<lambda>x. x < h) ?hs) = b + 1"
    proof (rule count_less[OF assms(1)])
      show "\<forall>i < b + 1. ?hs ! i < h" using less 2 by (auto simp: less_Suc_eq intro: less_trans)
      show "\<forall>i. b + 1 \<le> i \<and> i < length ?hs \<longrightarrow> h \<le> ?hs ! i" using b(3) by (simp add: less_imp_le Suc_le_eq)
    qed (use b(1) in simp)
    have "b + 1 \<noteq> length ring \<Longrightarrow> b + 1 < length ring" using b(1) by simp
    then show ?thesis unfolding count c ring_start_def found using 2 b(1) by (cases "b + 1 = length ring") auto
  next
    case 3
    then have b0: "b = 0" using b(2) by (auto simp: not_less)
    have c: "length (filter (\<lambda>x. x < h) ?hs) = 0"
    proof (rule count_less[OF assms(1)])
      show "\<forall>i. 0 \<le> i \<and> i < length ?hs \<longrightarrow> h \<le> ?hs ! i" using b(3) 3 b0 by (metis less_imp_le gr0I)
    qed simp_all
    show ?thesis unfolding count c ring_start_def found using 3 b0 assms(3) by (auto simp: not_less)
  qed
qed

text \<open>The points in the order in which a key meets them: clockwise from its own position, and round the ring.\<close>

definition clockwise :: "u64 \<Rightarrow> ring_point list \<Rightarrow> ring_point list" where
  "clockwise h ring = filter (\<lambda>p. h \<le> rp_hash p) ring @ filter (\<lambda>p. rp_hash p < h) ring"

lemma rotate_clockwise:
  assumes "sorted (map rp_hash ring)"
  shows "rotate (length (filter (\<lambda>p. rp_hash p < h) ring) mod length ring) ring = clockwise h ring"
proof -
  let ?l = "filter (\<lambda>p. rp_hash p < h) ring" and ?r = "filter (\<lambda>p. h \<le> rp_hash p) ring"
  have "rotate (length ?l mod length ring) ring = rotate (length ?l) ring" using rotate_conv_mod by metis
  also have "\<dots> = rotate (length ?l) (?l @ ?r)" using sorted_split[OF assms, of h] by simp
  also have "\<dots> = ?r @ ?l" by (rule rotate_append)
  finally show ?thesis by (simp add: clockwise_def)
qed

lemma walk_order: "map (\<lambda>k. ring ! ((start + k) mod length ring)) [0..<length ring] = rotate start ring"
  by (rule nth_equalityI) (auto simp: nth_rotate)

lemma resolve_clockwise:
  assumes "sorted (map rp_hash (sd_ring d))" "distinct (map rp_hash (sd_ring d))"
  shows "resolve_with_hash h d = first_on_ring (sd_backends d) (clockwise h (sd_ring d))"
proof (cases "sd_ring d = [] \<or> sd_backends d = []")
  case True
  then show ?thesis by (auto simp: resolve_with_hash_def clockwise_def first_on_ring_None intro!: sym[of _ None])
next
  case False
  then show ?thesis
    unfolding resolve_with_hash_def Let_def walk_order ring_start_count[OF assms conjunct1[OF False[unfolded de_Morgan_disj]]]
    by (simp add: rotate_clockwise[OF assms(1)] ring_walk_first)
qed

lemma walk_is_first:
  "sd_ring d \<noteq> [] \<Longrightarrow> sd_backends d \<noteq> [] \<Longrightarrow>
   resolve_with_hash h d = first_on_ring (sd_backends d) (rotate (ring_start (sd_ring d) h) (sd_ring d))"
  unfolding resolve_with_hash_def Let_def walk_order by (simp add: ring_walk_first)

definition ring_covers :: "shard_director \<Rightarrow> bool" where
  "ring_covers d \<longleftrightarrow> (\<forall>i < length (sd_backends d). \<exists>p \<in> set (sd_ring d). rp_backend p = i)"

interpretation sd: director "resolve_with_hash h" sd_backends ring_covers for h
proof
  show "resolve_with_hash h d = Some b \<Longrightarrow> b \<in> set (sd_backends d) \<and> is_healthy b" for d b
    using walk_is_first[of d h] first_on_ring_Some by (cases "sd_ring d = [] \<or> sd_backends d = []") (auto simp: resolve_with_hash_def)
  show "ring_covers d \<Longrightarrow> any_healthy (sd_backends d) \<Longrightarrow> resolve_with_hash h d \<noteq> None" for d
  proof -
    assume c: "ring_covers d" "any_healthy (sd_backends d)"
    then obtain i where i: "i < length (sd_backends d)" "is_healthy (sd_backends d ! i)"
      by (auto simp: any_healthy_def list_ex_iff in_set_conv_nth)
    then obtain p where p: "p \<in> set (sd_ring d)" "rp_backend p = i" using c(1) by (auto simp: ring_covers_def)
    then have ne: "sd_ring d \<noteq> []" "sd_backends d \<noteq> []" using i(1) by auto
    show "resolve_with_hash h d \<noteq> None"
      unfolding walk_is_first[OF ne] first_on_ring_None using i p by auto
  qed
qed

lemma set_build_ring:
  "set (build_ring hash_key bs reps) =
     {\<lparr>rp_hash = hash_key (sb_name (bs ! i) @ ''-'' @ show_nat r), rp_backend = i\<rparr> | i r. i < length bs \<and> r < unat reps}"
  by (auto simp: build_ring_def in_set_enumerate_eq image_iff Bex_def) blast

lemma build_ring_covers: "reps \<noteq> 0 \<Longrightarrow> ring_covers (shard_with_replicas hash_key name bs reps)"
proof -
  assume "reps \<noteq> 0"
  then have "0 < unat reps" by (simp add: unat_gt_0)
  then show ?thesis by (fastforce simp: ring_covers_def shard_with_replicas_def set_build_ring)
qed

definition picks :: "simple_backend list \<Rightarrow> simple_backend option \<Rightarrow> bool" where
  "picks bs r \<longleftrightarrow> (case r of Some b \<Rightarrow> b \<in> set bs \<and> is_healthy b | None \<Rightarrow> \<not> any_healthy bs)"

text \<open>
  C39: Every director returns a healthy backend of its own whenever it has one, and nothing only when it
  has none: round robin as long as its counter does not wrap within one call, random, hash with any key,
  fallback, and the shard director with at least one replica for any key.
\<close>

theorem directors_pick_healthy:
  assumes "unat (rr_next rr) + length (rr_backends rr) \<le> 2 ^ 64" "reps \<noteq> 0"
  shows "picks (rr_backends rr) (fst (rr_resolve rr)) \<and> picks (rd_backends rd) (fst (rd_resolve rd)) \<and>
    picks (pd_backends pd) (hd_resolve_with_key key pd) \<and> picks (pd_backends pd) (fb_resolve pd) \<and>
    picks bs (sd_resolve_with_key hash_key skey (shard_with_replicas hash_key name bs reps))"
proof -
  have "picks (rr_backends rr) (fst (rr_resolve rr))"
    using rr.resolve_healthy[OF assms(1)] by (auto simp: picks_def)
  moreover have "picks (rd_backends rd) (fst (rd_resolve rd))" using rd.resolve_healthy[of rd] by (auto simp: picks_def)
  moreover have "picks (pd_backends pd) (hd_resolve_with_key key pd)" using hd.resolve_healthy[of key pd] by (auto simp: picks_def)
  moreover have "picks (pd_backends pd) (fb_resolve pd)" using fb.resolve_healthy[of pd] by (auto simp: picks_def)
  moreover have "picks bs (sd_resolve_with_key hash_key skey (shard_with_replicas hash_key name bs reps))"
    using sd.resolve_healthy[OF build_ring_covers[OF assms(2)], of "hash_key skey" hash_key name bs]
    by (auto simp: picks_def sd_resolve_with_key_def shard_with_replicas_def)
  ultimately show ?thesis by blast
qed

definition demo_backends :: "simple_backend list" where
  "demo_backends = [set_admin_health AH_Sick (simple_backend_new ''a'' (V4 10 0 0 1, 80)), simple_backend_new ''b'' (V4 10 0 0 2, 80)]"

definition demo_hash :: "string \<Rightarrow> u64" where
  "demo_hash s = of_nat (sum_list (map of_char s))"

theorem directors_pick_healthy_witness:
  "fst (rr_resolve \<lparr>rr_name = [], rr_backends = demo_backends, rr_next = 6\<rparr>) = Some (demo_backends ! 1) \<and>
   picks demo_backends (fst (rr_resolve \<lparr>rr_name = [], rr_backends = demo_backends, rr_next = 6\<rparr>)) \<and>
   picks demo_backends (sd_resolve_with_key demo_hash ''/x'' (shard_with_replicas demo_hash [] demo_backends 2))"
proof -
  let ?rr = "\<lparr>rr_name = [], rr_backends = demo_backends, rr_next = 6\<rparr>"
  have "unat (rr_next ?rr) + length (rr_backends ?rr) \<le> 2 ^ 64" "(2 :: u32) \<noteq> 0" by (simp_all add: demo_backends_def)
  from directors_pick_healthy[OF this, where bs = demo_backends and hash_key = demo_hash and skey = "''/x''" and name = "[]"]
  have "picks (rr_backends ?rr) (fst (rr_resolve ?rr))"
    "picks demo_backends (sd_resolve_with_key demo_hash ''/x'' (shard_with_replicas demo_hash [] demo_backends 2))"
    by blast+
  moreover have "fst (rr_resolve ?rr) = Some (demo_backends ! 1)" by code_simp
  ultimately show ?thesis by simp
qed

text \<open>
  Without the bound on the counter the claim fails: when the counter wraps within a call, three tickets
  meet only two of three backends, and the healthy one is missed.
\<close>

lemma rr_wrap_misses_backend:
  assumes "\<not> is_healthy a" "is_healthy b"
  shows "fst (rr_resolve \<lparr>rr_name = nm, rr_backends = [a, a, b], rr_next = - 1\<rparr>) = None \<and> any_healthy [a, a, b]"
proof -
  have "unat (- 1 :: u64) = 2 ^ 64 - 1" by (simp only: unsigned_minus_1_eq_mask mask_eq_exp_minus_1 len_num1 len_bit0) simp
  then have "[a, a, b] ! (unat (- 1 :: u64) mod length [a, a, b]) = a" by simp
  then have "rr_scan (Suc (Suc (Suc 0))) [a, a, b] (- 1) = (None, 2)" using assms(1) by (simp add: rr_scan.simps(2)[of _ _ "- 1"] Let_def)
  then show ?thesis using assms(2) by (simp add: rr_resolve_def any_healthy_def)
qed

text \<open>
  C40: A shard director whose ring has no two points at the same place sends a key to the backend of the
  first point, clockwise from the hash of the key, that belongs to a healthy backend: the binary search
  and the early stop of the walk compute exactly this.
\<close>

theorem shard_is_clockwise:
  assumes "distinct (map rp_hash (build_ring hash_key bs reps))"
  shows "sd_resolve_with_key hash_key key (shard_with_replicas hash_key name bs reps) =
    find is_healthy (map (\<lambda>p. bs ! rp_backend p) (clockwise (hash_key key) (build_ring hash_key bs reps)))"
proof -
  have find: "first_on_ring bs ps = find is_healthy (map (\<lambda>p. bs ! rp_backend p) ps)" if "\<forall>p \<in> set ps. rp_backend p < length bs" for ps
    using that by (induction ps) auto
  have "sorted (map rp_hash (build_ring hash_key bs reps))" by (simp add: build_ring_def)
  then have "sd_resolve_with_key hash_key key (shard_with_replicas hash_key name bs reps) =
      first_on_ring bs (clockwise (hash_key key) (build_ring hash_key bs reps))"
    using resolve_clockwise[of "shard_with_replicas hash_key name bs reps" "hash_key key"] assms
    by (simp add: sd_resolve_with_key_def shard_with_replicas_def)
  also have "\<dots> = find is_healthy (map (\<lambda>p. bs ! rp_backend p) (clockwise (hash_key key) (build_ring hash_key bs reps)))"
    by (rule find) (auto simp: clockwise_def set_build_ring)
  finally show ?thesis .
qed

theorem shard_is_clockwise_witness:
  "sd_resolve_with_key demo_hash ''/x'' (shard_with_replicas demo_hash [] demo_backends 1) = Some (demo_backends ! 1)"
proof -
  have ring: "build_ring demo_hash demo_backends 1 = [\<lparr>rp_hash = 190, rp_backend = 0\<rparr>, \<lparr>rp_hash = 191, rp_backend = 1\<rparr>]"
    by code_simp
  have "distinct (map rp_hash (build_ring demo_hash demo_backends 1))" by (simp add: ring)
  from shard_is_clockwise[OF this, of "''/x''" "[]"] show ?thesis
    unfolding ring by (simp add: clockwise_def demo_hash_def) (simp add: demo_backends_def is_healthy_def set_admin_health_def simple_backend_new_def)
qed

end
