(* ===== verification/Spec2Isabelle.thy ===== *)
theory Spec2Isabelle
  imports Hash_Props Storage_Lru Sharded_Lru Log_Ring Rv_Flags Http_Vary Http_Range
    Cache_Streaming Cache_Coalesce Cache_Lookup Cache_Expiry Cache_Ban
    Storage_Malloc Storage_File Storage_Persistent Cache_Engine Vcl_Program Backend_Directors
begin

text \<open>
  Verification of the Varaha HTTP cache.

  \<^bold>\<open>The program.\<close>  Varaha is an HTTP cache in Rust, a workspace of crates under \<^verbatim>\<open>src/crates\<close>.  A request
  is steered by a VCL program (\<^verbatim>\<open>rv-vcl\<close>).  The cache engine (\<^verbatim>\<open>rv-cache\<close>) finds the object of its digest
  in a table of variants, decides whether the object may still be served, and keeps four structures in
  step with the table: the LRU tracker that bounds it, the expiry queue, the ban list and the hash table
  of object heads (\<^verbatim>\<open>rv-hash\<close>).  Bodies lie in a storage backend (\<^verbatim>\<open>rv-storage\<close>).  Concurrent misses are
  coalesced and the body of a fetch is streamed to the waiting clients.  A miss goes to a backend that a
  director chooses (\<^verbatim>\<open>rv-backend\<close>).  Headers, freshness, variants and ranges follow \<^verbatim>\<open>rv-http\<close>; what happens
  is written to a shared log (\<^verbatim>\<open>rv-log\<close>).

  \<^bold>\<open>Conventions.\<close>  A struct is a record, an enum a datatype.  \<^verbatim>\<open>u8\<close> to \<^verbatim>\<open>u64\<close>, \<^verbatim>\<open>i64\<close> and counters of type
  \<^verbatim>\<open>usize\<close> are words, so that they wrap as in release builds; lengths and positions in vectors are natural
  numbers.  \<^verbatim>\<open>Result\<close> is a sum with the error on the left.  A panic, an access through an invalid pointer
  or an exhausted fuel is \<open>None\<close>.  A string is the list of its bytes.  \<^verbatim>\<open>f64\<close> is an exact rational or one
  of the special values, with the comparisons of IEEE 754: rounding is not modelled.  A state behind a
  lock is passed from operation to operation; where the code leaves a lock between two steps, the steps
  are separate definitions that others may come between.  Clocks, allocators, regular expressions,
  SipHash, name resolution and VMOD functions are parameters.

  \<^bold>\<open>Foundations.\<close>  \<open>Rust_Prelude\<close>, \<open>Rust_F64\<close>, \<open>Rust_Str\<close> and \<open>Rust_Words\<close> hold what the source uses of the
  language and its library: vectors, numbers, the parsing and printing of integers and addresses, and
  splitting.  \<open>Binary_Heap\<close> is the heap of the standard library with its sifting loops, and \<open>Linked_Lists\<close>
  the theory of doubly linked lists over a store, with the contract \<open>recency_list\<close> of an LRU list.

  \<^bold>\<open>Types\<close> (\<^verbatim>\<open>rv-types\<close>).  \<open>Digests\<close>, \<open>Rv_Types\<close>, \<open>Rv_Flags\<close>, \<open>Http_Types\<close>, \<open>Log_Tags\<close> and \<open>Vcl_Value\<close>: the
  enumerations with their names and codes, times, the flag sets (contract \<open>bit_flags\<close>), well-known headers
  and status codes, log tags and the values of VCL.

  \<^bold>\<open>Hash tables\<close> (\<^verbatim>\<open>rv-hash\<close>: \<^verbatim>\<open>objhead.rs\<close>, \<^verbatim>\<open>simple.rs\<close>, \<^verbatim>\<open>classic.rs\<close>, \<^verbatim>\<open>critbit.rs\<close>).  \<open>Hash_Slinger\<close> has the
  store of object heads with 32-bit counts and the contract of the trait, \<open>Hash_Lists\<close> and \<open>Critbit\<close> the
  three tables, each an interpretation of it.  \<open>Hash_Props\<close> shows that the crit-bit tree implements a map
  with reference counts, that all tables answer alike, and what happens when lock sections interleave.

  \<^bold>\<open>LRU\<close> (\<^verbatim>\<open>rv-storage/src/lru.rs\<close>, \<^verbatim>\<open>rv-cache/src/lru.rs\<close>).  \<open>Storage_Lru\<close> is the list chained by indices,
  \<open>Cache_Lru\<close> one shard of the raw-pointer list over a store of live nodes, \<open>Sharded_Lru\<close> the 64 shards with
  the global clock.  Every history behaves as one on an abstract sequence; no freed node is touched.

  \<^bold>\<open>Log\<close> (\<^verbatim>\<open>rv-log\<close>).  \<open>Log_Ring\<close>: a reader gets the records in order, and after an overrun resumes with
  the oldest that is left.

  \<^bold>\<open>HTTP\<close> (\<^verbatim>\<open>rv-http\<close>).  \<open>Http_Headers\<close> (contract \<open>header_store\<close>), \<open>Http_Vary\<close>, \<open>Http_Range\<close> and
  \<open>Http_Rfc2616\<close>: a variant matches exactly the requests that agree with it on the named headers, ranges
  select the bytes they should and no others, dates are read back in each of the three formats, and the
  lifetime of a response follows its headers.

  \<^bold>\<open>Storage\<close> (\<^verbatim>\<open>rv-storage\<close>).  \<open>Obj_Core\<close> is the object, \<open>Stevedore\<close> the trait with the contract
  \<open>body_store\<close>, \<open>Storage_Malloc\<close>, \<open>Storage_File\<close> and \<open>Storage_Persistent\<close> the three backends: the accounting
  is exact, bodies are read back while they are stored, and a restart of the persistent storage keeps
  the table but not the bodies.

  \<^bold>\<open>Cache\<close> (\<^verbatim>\<open>rv-cache\<close>).  \<open>Cache_Lookup\<close>, \<open>Cache_Fetch\<close>, \<open>Cache_Expiry\<close>, \<open>Cache_Ban\<close>, \<open>Cache_Streaming\<close> and
  \<open>Cache_Coalesce\<close> have one file of the crate each, \<open>Cache_Fetch\<close> also the counters.  Streaming and
  coalescing are step relations with one step per atomic access.  \<open>Cache_Engine\<close> composes the parts: every
  history of operations returns and keeps to the bound, what a lookup serves was stored under its digest
  and may be served at that time, and what was removed stays removed.

  \<^bold>\<open>VCL\<close> (\<^verbatim>\<open>rv-vcl\<close>).  \<open>Vcl_Lexer\<close>, \<open>Vcl_Ast\<close>, \<open>Vcl_Parser\<close> and \<open>Vcl_Interp\<close> follow the files of the crate.
  \<open>Vcl_Text\<close>, \<open>Vcl_Print\<close> and \<open>Vcl_Program\<close> print lexemes, expressions and programs and show that every
  layout of a printed program is read back.  \<open>Vcl_Parser_Total\<close> shows that the parser returns on every
  input.  \<open>Vcl_Exec\<close> shows that programs without recursive subroutines end, that checked programs do not
  fail, what execution cannot change, and what assignments to headers do.

  \<^bold>\<open>Backends\<close> (\<^verbatim>\<open>rv-backend\<close>).  \<open>Backend_Health\<close> shows that a probe judges by the last results that fit its
  window.  \<open>Backend_Directors\<close> has the contract \<open>director\<close>, interpreted for round robin, random, hash,
  fallback, shard and DNS, and shows that the shard director finds the next healthy point on the ring.

  \<^bold>\<open>Bounds and fuel.\<close>  The parser takes the number of tokens as fuel, of which every call and every turn of
  a loop uses one token at least: \<open>parse_vcl_returns\<close> shows that it is never exhausted.  The interpreter
  takes the depth of the call stack: the number of subroutines is enough when no subroutine reaches
  itself, and more does not change the result.  Histories of the engine, the LRU and the probes are
  shorter than \<open>2\<^sup>6\<^sup>4\<close>, where their clocks would wrap.  All other loops are total functions.

  \<^bold>\<open>Not modelled.\<close>  The asynchronous server (\<^verbatim>\<open>rv-server\<close>, \<^verbatim>\<open>rv-transport\<close>, connections and tasks of
  \<^verbatim>\<open>rv-backend\<close>) is socket I/O over third-party crates.  \<^verbatim>\<open>rv-config\<close> is derived code and files,
  \<^verbatim>\<open>rv-admin\<close> and \<^verbatim>\<open>rv-tools\<close> are text interfaces to operations that are modelled, \<^verbatim>\<open>rv-vmod\<close> is reached
  through a parameter of the interpreter, and \<^verbatim>\<open>rv-filter\<close> is mostly compression by a crate.  The states
  of \<^verbatim>\<open>rv-cache/src/request.rs\<close> are driven by the server, not by the step function of that file.
  Memory ordering, rounding of floats, the operating system's part of mapped files and the text of
  messages are left out.
\<close>

end
